(* ===== verification/Prelude.thy ===== *)
theory Prelude
  imports Main "HOL-Library.Word" "HOL-Library.Multiset" "HOL-Library.AList"
begin

text \<open>
  What every component of the development shares: Go's machine integers, its clock and durations,
  its maps (association lists, ranged over in an order the runtime chooses), the references to
  heap cells, the shape of a call that may return an error, and the generic lemmas and
  \<^theory_text>\<open>named_theorems\<close> collections the component proofs run on.
\<close>

section \<open>Collections of rules\<close>

named_theorems go_map_simps \<open>equations of Go maps as association lists\<close>
named_theorems sched_defs \<open>definitions of the scheduler's operations\<close>
named_theorems step_defs \<open>definitions of the dispatch steps\<close>

section \<open>Machine integers\<close>

text \<open>
  Go's \<open>int32\<close>, \<open>int64\<close> and (on the 64-bit targets the Dockerfile builds for) \<open>int\<close> are
  two's complement words: \<open>+\<close> and \<open>*\<close> wrap, \<open><s\<close> and \<open>\<le>s\<close> are the signed comparisons.
\<close>

type_synonym int32 = "32 word"
type_synonym int64 = "64 word"

text \<open>Incrementing below a signed bound does not wrap.\<close>

lemma sint_ge_min64: "- 9223372036854775808 \<le> sint (x :: int64)"
  using sint_range_size [of x] by (simp add: word_size)

lemma sint_le_max64: "sint (x :: int64) \<le> 9223372036854775807"
  using sint_range_size [of x] by (simp add: word_size)

lemma sint_of_int64:
  assumes "- 9223372036854775808 \<le> i" and "i \<le> 9223372036854775807"
  shows "sint (word_of_int i :: int64) = i"
  using assms by (simp add: sint_sbintrunc' signed_take_bit_int_eq_self)

lemma sint_eq_iff: "sint (x :: 'a :: len word) = sint y \<longleftrightarrow> x = y"
  by (metis signed_word_eqI)

lemma sint_Suc:
  fixes x y :: "'a :: len word"
  assumes "x <s y"
  shows "sint (x + 1) = sint x + 1"
proof -
  have "sint x < sint y" using assms by (simp add: word_sless_alt)
  then have bound: "sint x + 1 < 2 ^ (LENGTH('a) - 1)" using sint_lt [of y] by linarith
  have "x + 1 = word_of_int (sint x + 1)" by simp
  then have "sint (x + 1) = sint (word_of_int (sint x + 1) :: 'a word)" by (rule arg_cong)
  also have "\<dots> = signed_take_bit (LENGTH('a) - 1) (sint x + 1)" by (rule sint_sbintrunc')
  also have "\<dots> = sint x + 1"
    using bound sint_ge [of x] by (intro signed_take_bit_int_eq_self) simp_all
  finally show ?thesis .
qed

section \<open>Time\<close>

text \<open>
  A \<open>time.Time\<close> is the number of nanoseconds since Go's zero time, so \<open>IsZero\<close> is \<open>= 0\<close>; the
  clock is an input of every operation that calls \<open>time.Now\<close>. A \<open>time.Duration\<close> is an \<open>int64\<close>
  number of nanoseconds. \<open>Sub\<close> saturates at the ends of that range, as the library's does.
\<close>

type_synonym time = int
type_synonym duration = int64

abbreviation (input) zero_time :: time where "zero_time \<equiv> 0"

definition IsZero :: "time \<Rightarrow> bool" where
  "IsZero t \<longleftrightarrow> t = 0"

definition time_Add :: "time \<Rightarrow> duration \<Rightarrow> time" where
  "time_Add t d = t + sint d"

definition time_After :: "time \<Rightarrow> time \<Rightarrow> bool" where
  "time_After t u \<longleftrightarrow> u < t"

definition time_Before :: "time \<Rightarrow> time \<Rightarrow> bool" where
  "time_Before t u \<longleftrightarrow> t < u"

definition time_Sub :: "time \<Rightarrow> time \<Rightarrow> duration" where
  "time_Sub t u =
     word_of_int (max (- 9223372036854775808) (min 9223372036854775807 (t - u)))"

definition Second :: duration where
  "Second = 1000000000"

definition Millisecond :: duration where
  "Millisecond = 1000000"

lemma sint_time_Sub:
  "sint (time_Sub t u) = max (- 9223372036854775808) (min 9223372036854775807 (t - u))"
  unfolding time_Sub_def by (rule sint_of_int64) simp_all

text \<open>Saturation never turns the comparison with a duration around.\<close>

lemma time_Sub_greater:
  "d <s time_Sub t u \<longleftrightarrow> sint d < t - u \<and> sint d < 9223372036854775807"
  using sint_ge_min64 [of d] sint_le_max64 [of d]
  by (auto simp: word_sless_alt sint_time_Sub max_def min_def)

lemma sint_time_Sub_greater:
  "sint d < sint (time_Sub t u) \<longleftrightarrow> sint d < t - u \<and> sint d < 9223372036854775807" for d :: duration
  using time_Sub_greater [of d t u] by (simp add: word_sless_alt)

section \<open>Printing\<close>

text \<open>\<open>%d\<close> of \<open>fmt\<close>: decimal digits with a sign when negative; \<open>%0nd\<close> pads with zeros to width \<open>n\<close>.\<close>

definition digit :: "int \<Rightarrow> char" where
  "digit d = char_of (48 + d)"

function dec :: "int \<Rightarrow> string" where
  "dec n = (if n < 10 then [digit n] else dec (n div 10) @ [digit (n mod 10)])"
  by pat_completeness auto
termination
  by (relation "measure nat") auto

declare dec.simps [simp del]

definition fmt_int :: "int \<Rightarrow> string" where
  "fmt_int i = (if i < 0 then ''-'' @ dec (- i) else dec i)"

definition pad_zeros :: "nat \<Rightarrow> string \<Rightarrow> string" where
  "pad_zeros n s = replicate (n - length s) CHR ''0'' @ s"

definition fmt_int_pad :: "nat \<Rightarrow> int \<Rightarrow> string" where
  "fmt_int_pad n i =
     (if i < 0 then ''-'' @ pad_zeros (n - 1) (dec (- i)) else pad_zeros n (dec i))"

text \<open>Reading the digits back gives the number, so different numbers print differently.\<close>

definition digits_val :: "string \<Rightarrow> int" where
  "digits_val = foldl (\<lambda>v c. 10 * v + (of_char c - 48)) 0"

lemma digits_val_snoc [simp]: "digits_val (s @ [c]) = 10 * digits_val s + (of_char c - 48)"
  by (simp add: digits_val_def)

lemma of_char_digit [simp]: "0 \<le> d \<Longrightarrow> d < 10 \<Longrightarrow> of_char (digit d) = 48 + d"
  by (simp add: digit_def)

lemma digits_val_dec [simp]: "0 \<le> i \<Longrightarrow> digits_val (dec i) = i"
proof (induction i rule: dec.induct)
  case (1 i)
  show ?case
  proof (cases "i < 10")
    case True
    with 1 show ?thesis by (simp add: dec.simps [of i] digits_val_def)
  next
    case False
    with 1 show ?thesis by (simp add: dec.simps [of i])
  qed
qed

lemma digits_val_pad [simp]: "digits_val (pad_zeros k s) = digits_val s"
proof -
  have "foldl (\<lambda>v c. 10 * v + (of_char c - 48)) (0 :: int) (replicate j CHR ''0'') = 0" for j
    by (induction j) simp_all
  then show ?thesis by (simp add: pad_zeros_def digits_val_def)
qed

lemma fmt_int_pad_inject: "fmt_int_pad k (int i) = fmt_int_pad k (int j) \<longleftrightarrow> i = j"
  by (metis digits_val_dec digits_val_pad fmt_int_pad_def of_nat_0_le_iff of_nat_eq_iff of_nat_less_0_iff)

text \<open>A number below \<open>10 ^ k\<close> has at most \<open>k\<close> digits; one from \<open>10 ^ k\<close> on has more.\<close>

lemma length_dec_le: "0 \<le> i \<Longrightarrow> i < 10 ^ Suc k \<Longrightarrow> length (dec i) \<le> Suc k"
proof (induction k arbitrary: i)
  case 0
  then show ?case by (simp add: dec.simps [of i])
next
  case (Suc k)
  show ?case
  proof (cases "i < 10")
    case False
    have "i div 10 < 10 ^ Suc k" using Suc.prems by (simp add: div_less_iff_less_mult)
    with False Suc.prems Suc.IH [of "i div 10"] show ?thesis by (simp add: dec.simps [of i])
  qed (simp add: dec.simps [of i])
qed

lemma length_dec_gt: "10 ^ k \<le> i \<Longrightarrow> k < length (dec i)"
proof (induction k arbitrary: i)
  case 0
  then show ?case by (simp add: dec.simps [of i])
next
  case (Suc k)
  then have "10 ^ k \<le> i div 10" by (simp add: zdiv_mono1 [of "10 * 10 ^ k" i 10, simplified])
  moreover have "\<not> i < 10"
  proof -
    have "(1 :: int) \<le> 10 ^ k" by simp
    with Suc.prems show ?thesis unfolding power_Suc by linarith
  qed
  ultimately show ?case using Suc.IH [of "i div 10"] by (simp add: dec.simps [of i])
qed

text \<open>
  \<open>Duration.String\<close>: \<open>fmt_frac\<close> is the fraction of \<open>v / 10^prec\<close> without trailing zeros, and the
  whole part; below a second the unit shrinks, from a second on it is hours, minutes and seconds.
\<close>

definition fmt_frac :: "int \<Rightarrow> nat \<Rightarrow> string \<times> int" where
  "fmt_frac v prec =
     (let ds = pad_zeros prec (dec (v mod 10 ^ prec));
          trimmed = rev (dropWhile (\<lambda>c. c = CHR ''0'') (rev ds))
      in (if trimmed = [] then [] else ''.'' @ trimmed, v div 10 ^ prec))"

definition duration_String :: "duration \<Rightarrow> string" where
  "duration_String d =
     (let u = \<bar>sint d\<bar>; sign = (if sint d < 0 then ''-'' else []) in
      if u < 1000000000 then
        (if u = 0 then ''0s''
         else
           let (prec, unit) = (if u < 1000 then (0, ''ns'') else if u < 1000000 then (3, [CHR 0xC2, CHR 0xB5, CHR ''s''])
                               else (6, ''ms''));
               (frac, w) = fmt_frac u prec
           in sign @ dec w @ frac @ unit)
      else
        let (frac, w) = fmt_frac u 9;
            secs = dec (w mod 60) @ frac @ ''s'';
            mins = w div 60
        in sign @
           (if mins = 0 then secs
            else if mins div 60 = 0 then dec (mins mod 60) @ ''m'' @ secs
            else dec (mins div 60) @ ''h'' @ dec (mins mod 60) @ ''m'' @ secs))"

section \<open>Heap cells and calls that return an error\<close>

text \<open>
  A \<open>*Task\<close> is a reference; the tasks live in one store that every component shares, so a task
  changed through one component's pointer is changed for all of them.
\<close>

type_synonym ref = nat

text \<open>
  A method that returns an \<open>error\<close> and leaves its receiver alone in that case is a sum: \<open>Inl\<close> the
  error, \<open>Inr\<close> the new receiver. A caller that drops the error goes on with \<open>ignore_err\<close>.
\<close>

definition ignore_err :: "'a \<Rightarrow> 'e + 'a \<Rightarrow> 'a" where
  "ignore_err x r = (case r of Inl _ \<Rightarrow> x | Inr y \<Rightarrow> y)"

lemma ignore_err_simps [simp]:
  "ignore_err x (Inl e) = x"
  "ignore_err x (Inr y) = y"
  by (simp_all add: ignore_err_def)

text \<open>\<open>if err := f(); err != nil { return err }\<close>, then the rest.\<close>

definition bind_err :: "'e + 'a \<Rightarrow> ('a \<Rightarrow> 'e + 'b) \<Rightarrow> 'e + 'b" where
  "bind_err r f = (case r of Inl e \<Rightarrow> Inl e | Inr x \<Rightarrow> f x)"

lemma bind_err_simps [simp]:
  "bind_err (Inl e) f = Inl e"
  "bind_err (Inr x) f = f x"
  by (simp_all add: bind_err_def)

lemma bind_err_Inr: "bind_err r f = Inr y \<longleftrightarrow> (\<exists>x. r = Inr x \<and> f x = Inr y)"
  by (cases r) auto

section \<open>Go maps\<close>

text \<open>
  A Go map is an association list without duplicate keys. \<open>for k, v := range m\<close> visits the entries
  in an order the runtime picks, so a loop over a map takes that order, a list of keys, as an
  argument; \<open>range_ok\<close> says that it visits every key once.
\<close>

type_synonym ('k, 'v) gomap = "('k \<times> 'v) list"

definition gm_keys :: "('k, 'v) gomap \<Rightarrow> 'k set" where
  "gm_keys m = fst ` set m"

definition gm_ran :: "('k, 'v) gomap \<Rightarrow> 'v set" where
  "gm_ran m = snd ` set m"

definition gm_ok :: "('k, 'v) gomap \<Rightarrow> bool" where
  "gm_ok m \<longleftrightarrow> distinct (map fst m)"

definition gm_get :: "('k, 'v) gomap \<Rightarrow> 'k \<Rightarrow> 'v option" where
  "gm_get m k = map_of m k"

definition gm_put :: "'k \<Rightarrow> 'v \<Rightarrow> ('k, 'v) gomap \<Rightarrow> ('k, 'v) gomap" where
  "gm_put k v m = AList.update k v m"

definition gm_del :: "'k \<Rightarrow> ('k, 'v) gomap \<Rightarrow> ('k, 'v) gomap" where
  "gm_del k m = AList.delete k m"

definition range_ok :: "'k list \<Rightarrow> ('k, 'v) gomap \<Rightarrow> bool" where
  "range_ok ks m \<longleftrightarrow> distinct ks \<and> set ks = gm_keys m"

definition gm_range :: "'k list \<Rightarrow> ('k, 'v) gomap \<Rightarrow> ('k \<times> 'v) list" where
  "gm_range ks m = List.map_filter (\<lambda>k. map_option (Pair k) (gm_get m k)) ks"

lemma gm_get_put [simp, go_map_simps]:
  "gm_get (gm_put k v m) k' = (if k' = k then Some v else gm_get m k')"
  by (simp add: gm_get_def gm_put_def update_conv')

lemma gm_get_del [simp, go_map_simps]:
  "gm_get (gm_del k m) k' = (if k' = k then None else gm_get m k')"
  by (simp add: gm_get_def gm_del_def delete_conv')

lemma gm_get_Nil [simp]: "gm_get [] k = None"
  by (simp add: gm_get_def)

lemma gm_ok_Nil [simp]: "gm_ok []"
  by (simp add: gm_ok_def)

lemma gm_ok_put [simp, intro]: "gm_ok m \<Longrightarrow> gm_ok (gm_put k v m)"
  by (simp add: gm_ok_def gm_put_def distinct_update)

lemma gm_ok_del [simp, intro]: "gm_ok m \<Longrightarrow> gm_ok (gm_del k m)"
  by (simp add: gm_ok_def gm_del_def distinct_delete)

lemma gm_keys_Nil [simp]: "gm_keys [] = {}"
  by (simp add: gm_keys_def)

lemma gm_keys_put [simp, go_map_simps]: "gm_keys (gm_put k v m) = insert k (gm_keys m)"
  by (simp add: gm_keys_def gm_put_def dom_update)

lemma gm_keys_del [simp, go_map_simps]: "gm_keys (gm_del k m) = gm_keys m - {k}"
proof -
  have "gm_keys (gm_del k m) = dom (map_of (AList.delete k m))"
    by (simp add: gm_keys_def gm_del_def dom_map_of_conv_image_fst)
  then show ?thesis by (simp add: gm_keys_def delete_conv' dom_map_of_conv_image_fst)
qed

lemma gm_get_None_iff: "gm_get m k = None \<longleftrightarrow> k \<notin> gm_keys m"
  by (simp add: gm_get_def gm_keys_def map_of_eq_None_iff)

lemma gm_get_Some_key: "gm_get m k = Some v \<Longrightarrow> k \<in> gm_keys m"
  using gm_get_None_iff [of m k] by auto

lemma gm_get_in_set: "gm_get m k = Some v \<Longrightarrow> (k, v) \<in> set m"
  by (simp add: gm_get_def map_of_SomeD)

lemma gm_get_ran: "gm_get m k = Some v \<Longrightarrow> v \<in> gm_ran m"
  by (force simp: gm_ran_def dest: gm_get_in_set)

lemma gm_get_iff_mem: "gm_ok m \<Longrightarrow> gm_get m k = Some v \<longleftrightarrow> (k, v) \<in> set m"
  by (simp add: gm_get_def gm_ok_def)

lemma gm_ran_iff: "gm_ok m \<Longrightarrow> v \<in> gm_ran m \<longleftrightarrow> (\<exists>k. gm_get m k = Some v)"
  by (force simp: gm_ran_def gm_get_iff_mem)

lemma length_gm_del:
  "gm_ok m \<Longrightarrow> length (gm_del k m) = (if k \<in> gm_keys m then length m - 1 else length m)"
proof -
  assume ok: "gm_ok m"
  have "length n = card (gm_keys n)" if "gm_ok n" for n :: "('a, 'b) gomap"
    using distinct_card [of "map fst n"] that by (simp add: gm_ok_def gm_keys_def)
  from this [OF ok] this [OF gm_ok_del [OF ok]] show ?thesis
    by (simp add: card_Diff_singleton)
qed

lemma gm_put_fresh: "k \<notin> gm_keys m \<Longrightarrow> gm_put k v m = m @ [(k, v)]"
  by (induction m) (auto simp: gm_put_def gm_keys_def)

lemma gm_range_Nil [simp]: "gm_range [] m = []"
  by (simp add: gm_range_def)

lemma gm_range_Cons [simp]:
  "gm_range (k # ks) m =
     (case gm_get m k of None \<Rightarrow> gm_range ks m | Some v \<Rightarrow> (k, v) # gm_range ks m)"
  by (simp add: gm_range_def split: option.split)

lemma gm_range_mem:
  assumes "range_ok ks m"
  shows "(k, v) \<in> set (gm_range ks m) \<longleftrightarrow> gm_get m k = Some v"
proof -
  have "(k, v) \<in> set (gm_range ls m) \<longleftrightarrow> k \<in> set ls \<and> gm_get m k = Some v" for ls
    by (induction ls) (auto split: option.split)
  with assms show ?thesis by (auto simp: range_ok_def dest: gm_get_Some_key)
qed

lemma gm_range_keys: "range_ok ks m \<Longrightarrow> map fst (gm_range ks m) = ks"
proof -
  assume ok: "range_ok ks m"
  have "map fst (gm_range ls m) = ls" if "set ls \<subseteq> gm_keys m" for ls
    using that
  proof (induction ls)
    case (Cons l ls)
    then obtain v where "gm_get m l = Some v"
      using gm_get_None_iff [of m l] by (cases "gm_get m l") auto
    with Cons show ?case by simp
  qed simp
  with ok show ?thesis by (simp add: range_ok_def)
qed

lemma gm_range_mset:
  assumes ok: "range_ok ks m" and m: "gm_ok m"
  shows "mset (gm_range ks m) = mset m"
proof -
  have d1: "distinct (gm_range ks m)"
    using gm_range_keys [OF ok] ok distinct_map [of fst "gm_range ks m"] by (simp add: range_ok_def)
  have d2: "distinct m"
    using m by (simp add: gm_ok_def distinct_map)
  have "set (gm_range ks m) = set m"
    using gm_range_mem [OF ok] gm_get_iff_mem [OF m] by auto
  with d1 d2 show ?thesis by (simp add: set_eq_iff_mset_eq_distinct)
qed

lemma range_ok_Nil [simp]: "range_ok [] []"
  by (simp add: range_ok_def)

lemma range_ok_exists: "gm_ok m \<Longrightarrow> range_ok (map fst m) m"
  by (simp add: range_ok_def gm_ok_def gm_keys_def)

lemma filter_neq_middle:
  "distinct (xs @ x # ys) \<Longrightarrow> filter (\<lambda>y. y \<noteq> x) (xs @ x # ys) = xs @ ys"
proof -
  assume d: "distinct (xs @ x # ys)"
  have "filter (\<lambda>y. y \<noteq> x) xs = xs" by (rule filter_True) (use d in auto)
  moreover have "filter (\<lambda>y. y \<noteq> x) ys = ys" by (rule filter_True) (use d in auto)
  ultimately show ?thesis by simp
qed

section \<open>Systems that step, and their invariants\<close>

text \<open>
  A component under any interleaving of its operations: initial states and a step relation. A
  predicate that holds initially and that every step keeps holds in every reachable state.
\<close>

inductive reach :: "('s \<Rightarrow> bool) \<Rightarrow> ('s \<Rightarrow> 's \<Rightarrow> bool) \<Rightarrow> 's \<Rightarrow> bool" for init step where
  reach_init: "init s \<Longrightarrow> reach init step s"
| reach_step: "reach init step s \<Longrightarrow> step s s' \<Longrightarrow> reach init step s'"

locale inv_system =
  fixes init :: "'s \<Rightarrow> bool" and step :: "'s \<Rightarrow> 's \<Rightarrow> bool" and inv :: "'s \<Rightarrow> bool"
  assumes inv_init: "init s \<Longrightarrow> inv s"
    and inv_step: "inv s \<Longrightarrow> step s s' \<Longrightarrow> inv s'"
begin

lemma reach_inv: "reach init step s \<Longrightarrow> inv s"
  by (induction rule: reach.induct) (auto intro: inv_init inv_step)

end

text \<open>
  A component as a ledger: operations that are enabled in some states, what each takes in and what
  it hands out, and a pool that balances them. Over any run of enabled operations nothing is lost
  and nothing is made up.
\<close>

fun run_ok :: "('o \<Rightarrow> 's \<Rightarrow> bool) \<Rightarrow> ('o \<Rightarrow> 's \<Rightarrow> 's) \<Rightarrow> 'o list \<Rightarrow> 's \<Rightarrow> bool" where
  "run_ok enabled exec [] s = True"
| "run_ok enabled exec (a # as) s = (enabled a s \<and> run_ok enabled exec as (exec a s))"

fun tally :: "('o \<Rightarrow> 's \<Rightarrow> 'a multiset) \<Rightarrow> ('o \<Rightarrow> 's \<Rightarrow> 's) \<Rightarrow> 'o list \<Rightarrow> 's \<Rightarrow> 'a multiset" where
  "tally flow exec [] s = {#}"
| "tally flow exec (a # as) s = flow a s + tally flow exec as (exec a s)"

locale ledger =
  fixes enabled :: "'o \<Rightarrow> 's \<Rightarrow> bool" and exec :: "'o \<Rightarrow> 's \<Rightarrow> 's" and inv :: "'s \<Rightarrow> bool"
    and pool :: "'s \<Rightarrow> 'a multiset" and inflow outflow :: "'o \<Rightarrow> 's \<Rightarrow> 'a multiset"
  assumes exec_inv: "inv s \<Longrightarrow> enabled a s \<Longrightarrow> inv (exec a s)"
    and exec_balance: "inv s \<Longrightarrow> enabled a s \<Longrightarrow> pool (exec a s) + outflow a s = pool s + inflow a s"
begin

lemma run_inv: "inv s \<Longrightarrow> run_ok enabled exec as s \<Longrightarrow> inv (fold exec as s)"
  by (induction as arbitrary: s) (simp_all add: exec_inv)

lemma run_balance:
  "inv s \<Longrightarrow> run_ok enabled exec as s \<Longrightarrow>
     pool (fold exec as s) + tally outflow exec as s = pool s + tally inflow exec as s"
proof (induction as arbitrary: s)
  case (Cons a as)
  let ?s = "exec a s"
  have "pool (fold exec as ?s) + tally outflow exec as ?s = pool ?s + tally inflow exec as ?s"
    using Cons by (simp add: exec_inv)
  then have "pool (fold exec as ?s) + tally outflow exec (a # as) s =
      pool ?s + outflow a s + tally inflow exec as ?s"
    by (simp add: algebra_simps)
  also have "\<dots> = pool s + inflow a s + tally inflow exec as ?s"
    using Cons.prems by (simp add: exec_balance)
  finally show ?case by (simp add: algebra_simps)
qed simp

end

text \<open>Such a component, started in a state that satisfies its invariant, never leaves it.\<close>

sublocale ledger \<subseteq> ops: inv_system inv "\<lambda>s s'. \<exists>a. enabled a s \<and> s' = exec a s" inv
  by unfold_locales (auto simp: exec_inv)

end
