(* ===== verification/GoHeap.thy ===== *)
theory GoHeap
  imports Prelude
begin

text \<open>
  The heap the scheduler keeps its queue in. \<open>src/internal/task/scheduler.go\<close> implements
  \<open>heap.Interface\<close> on a slice (\<open>Swap\<close>, \<open>Push\<close>, \<open>Pop\<close>; \<open>Less\<close> comes with the scheduler) and calls
  \<open>Init\<close>, \<open>Push\<close> and \<open>Pop\<close> of the standard library's \<open>container/heap\<close>, whose \<open>up\<close> and \<open>down\<close> loops
  are modelled here over any comparison. The locale \<open>weak_order\<close> is what the library asks of the
  comparison, \<open>priority_queue\<close> what it gives its client; the \<^theory_text>\<open>sublocale\<close> shows
  that the loops meet that contract.
\<close>

section \<open>The slice behind the heap\<close>

definition pq_Swap :: "nat \<Rightarrow> nat \<Rightarrow> 'a list \<Rightarrow> 'a list" where
  "pq_Swap i j q = q[i := q ! j, j := q ! i]"

definition pq_Push :: "'a \<Rightarrow> 'a list \<Rightarrow> 'a list" where
  "pq_Push x q = q @ [x]"

definition pq_Pop :: "'a list \<Rightarrow> 'a \<times> 'a list" where
  "pq_Pop q = (q ! (length q - 1), take (length q - 1) q)"

section \<open>container/heap\<close>

function heap_up :: "('a \<Rightarrow> 'a \<Rightarrow> bool) \<Rightarrow> 'a list \<Rightarrow> nat \<Rightarrow> 'a list" where
  "heap_up lt h j =
     (let i = (j - 1) div 2 in
      if i = j \<or> \<not> lt (h ! j) (h ! i) then h
      else heap_up lt (pq_Swap i j h) i)"
  by pat_completeness auto
termination
  by (relation "measure (\<lambda>(lt, h, j). j)") auto

function heap_down :: "('a \<Rightarrow> 'a \<Rightarrow> bool) \<Rightarrow> 'a list \<Rightarrow> nat \<Rightarrow> nat \<Rightarrow> 'a list" where
  "heap_down lt h i n =
     (let j1 = 2 * i + 1 in
      if n \<le> j1 then h
      else
        let j = (if j1 + 1 < n \<and> lt (h ! (j1 + 1)) (h ! j1) then j1 + 1 else j1) in
        if \<not> lt (h ! j) (h ! i) then h
        else heap_down lt (pq_Swap i j h) j n)"
  by pat_completeness auto
termination
  by (relation "measure (\<lambda>(lt, h, i, n). n - i)") (auto simp: Let_def)

declare heap_up.simps [simp del] heap_down.simps [simp del]

definition heap_Init :: "('a \<Rightarrow> 'a \<Rightarrow> bool) \<Rightarrow> 'a list \<Rightarrow> 'a list" where
  "heap_Init lt h =
     fold (\<lambda>i g. heap_down lt g i (length g)) (rev [0..<length h div 2]) h"

definition heap_Push :: "('a \<Rightarrow> 'a \<Rightarrow> bool) \<Rightarrow> 'a \<Rightarrow> 'a list \<Rightarrow> 'a list" where
  "heap_Push lt x h = (let h' = pq_Push x h in heap_up lt h' (length h' - 1))"

text \<open>On an empty slice the library's \<open>Pop\<close> swaps out of range and panics: \<open>None\<close>.\<close>

definition heap_Pop :: "('a \<Rightarrow> 'a \<Rightarrow> bool) \<Rightarrow> 'a list \<Rightarrow> ('a \<times> 'a list) option" where
  "heap_Pop lt h =
     (if h = [] then None
      else let n = length h - 1 in Some (pq_Pop (heap_down lt (pq_Swap 0 n h) 0 n)))"

section \<open>Heap order\<close>

definition parent :: "nat \<Rightarrow> nat" where
  "parent i = (i - 1) div 2"


definition heap_upto :: "('a \<Rightarrow> 'a \<Rightarrow> bool) \<Rightarrow> 'a list \<Rightarrow> nat \<Rightarrow> bool" where
  "heap_upto lt h n \<longleftrightarrow> (\<forall>i \<in> set [1..<n]. \<not> lt (h ! i) (h ! (parent i)))"

abbreviation heap_ordered :: "('a \<Rightarrow> 'a \<Rightarrow> bool) \<Rightarrow> 'a list \<Rightarrow> bool" where
  "heap_ordered lt h \<equiv> heap_upto lt h (length h)"

text \<open>One defect, at \<open>j\<close> towards its parent: what \<open>up\<close> repairs.\<close>

definition up_defect :: "('a \<Rightarrow> 'a \<Rightarrow> bool) \<Rightarrow> 'a list \<Rightarrow> nat \<Rightarrow> bool" where
  "up_defect lt h j \<longleftrightarrow>
     (\<forall>i. 0 < i \<longrightarrow> i < length h \<longrightarrow>
       (i \<noteq> j \<longrightarrow> \<not> lt (h ! i) (h ! (parent i))) \<and>
       (parent i = j \<longrightarrow> 0 < j \<longrightarrow> \<not> lt (h ! i) (h ! (parent j))))"

text \<open>One defect, at \<open>k\<close> towards its children below \<open>n\<close>: what \<open>down\<close> repairs.\<close>

definition down_defect :: "('a \<Rightarrow> 'a \<Rightarrow> bool) \<Rightarrow> 'a list \<Rightarrow> nat \<Rightarrow> nat \<Rightarrow> bool" where
  "down_defect lt h k n \<longleftrightarrow>
     (\<forall>i. 0 < i \<longrightarrow> i < n \<longrightarrow>
       (parent i \<noteq> k \<longrightarrow> \<not> lt (h ! i) (h ! (parent i))) \<and>
       (parent i = k \<longrightarrow> 0 < k \<longrightarrow> \<not> lt (h ! i) (h ! (parent k))))"

lemma parent_less: "0 < i \<Longrightarrow> parent i < i"
  by (auto simp: parent_def)

lemma parent_eq_iff: "0 < i \<Longrightarrow> parent i = k \<longleftrightarrow> i = 2 * k + 1 \<or> i = 2 * k + 2"
  by (auto simp: parent_def)

lemma parent_0 [simp]: "parent 0 = 0"
  by (simp add: parent_def)

lemma parent_self_iff [simp]: "parent i = i \<longleftrightarrow> i = 0"
  using parent_less [of i] by (cases "i = 0") auto

lemma heap_up_unfold:
  "heap_up lt h j =
     (if j = 0 \<or> \<not> lt (h ! j) (h ! parent j) then h
      else heap_up lt (pq_Swap (parent j) j h) (parent j))"
  by (subst heap_up.simps, unfold Let_def parent_def [symmetric]) simp

lemma heap_uptoI:
  "(\<And>i. 0 < i \<Longrightarrow> i < n \<Longrightarrow> \<not> lt (h ! i) (h ! (parent i))) \<Longrightarrow> heap_upto lt h n"
  by (simp add: heap_upto_def)

lemma heap_upto_0 [simp]: "heap_upto lt h 0"
  by (simp add: heap_upto_def)

lemma heap_uptoD:
  "heap_upto lt h n \<Longrightarrow> 0 < i \<Longrightarrow> i < n \<Longrightarrow> \<not> lt (h ! i) (h ! (parent i))"
  by (simp add: heap_upto_def)

section \<open>The slice operations\<close>

lemma length_pq_Swap [simp]: "length (pq_Swap i j q) = length q"
  by (simp add: pq_Swap_def)

lemma nth_pq_Swap:
  "i < length q \<Longrightarrow> j < length q \<Longrightarrow>
   pq_Swap i j q ! k = (if k = j then q ! i else if k = i then q ! j else q ! k)"
  by (simp add: pq_Swap_def nth_list_update)

lemma mset_pq_Swap [simp]:
  "i < length q \<Longrightarrow> j < length q \<Longrightarrow> mset (pq_Swap i j q) = mset q"
  by (simp add: pq_Swap_def mset_swap)

lemma length_heap_up [simp]: "length (heap_up lt h j) = length h"
  by (induction lt h j rule: heap_up.induct) (subst heap_up.simps, simp add: Let_def)

lemma length_heap_down [simp]: "length (heap_down lt h i n) = length h"
  by (induction lt h i n rule: heap_down.induct) (subst heap_down.simps, simp add: Let_def)

lemma mset_heap_up: "j < length h \<Longrightarrow> mset (heap_up lt h j) = mset h"
proof (induction j arbitrary: h rule: less_induct)
  case (less j)
  show ?case
  proof (cases "j = 0 \<or> \<not> lt (h ! j) (h ! parent j)")
    case False
    with less parent_less [of j] show ?thesis by (subst heap_up_unfold) auto
  qed (subst heap_up_unfold, simp)
qed

text \<open>The child \<open>down\<close> compares with, and the unfolding of one turn of its loop.\<close>

definition down_child :: "('a \<Rightarrow> 'a \<Rightarrow> bool) \<Rightarrow> 'a list \<Rightarrow> nat \<Rightarrow> nat \<Rightarrow> nat" where
  "down_child lt h i n =
     (if 2 * i + 2 < n \<and> lt (h ! (2 * i + 2)) (h ! (2 * i + 1)) then 2 * i + 2 else 2 * i + 1)"

lemma heap_down_unfold:
  "heap_down lt h i n =
     (if n \<le> 2 * i + 1 \<or> \<not> lt (h ! down_child lt h i n) (h ! i) then h
      else heap_down lt (pq_Swap i (down_child lt h i n) h) (down_child lt h i n) n)"
  by (subst heap_down.simps) (simp add: Let_def down_child_def)

lemma down_child_bounds:
  "2 * i + 1 < n \<Longrightarrow> i < down_child lt h i n \<and> down_child lt h i n < n"
  by (simp add: down_child_def)

lemma heap_down_induct [case_names step]:
  assumes "\<And>h i. (2 * i + 1 < n \<Longrightarrow> lt (h ! down_child lt h i n) (h ! i) \<Longrightarrow>
      P (pq_Swap i (down_child lt h i n) h) (down_child lt h i n)) \<Longrightarrow> P h i"
  shows "P h i"
proof (induction "n - i" arbitrary: h i rule: less_induct)
  case less
  show ?case
  proof (rule assms)
    assume "2 * i + 1 < n"
    with down_child_bounds [OF this, of lt h] have "n - down_child lt h i n < n - i" by linarith
    then show "P (pq_Swap i (down_child lt h i n) h) (down_child lt h i n)" by (rule less)
  qed
qed

lemma mset_heap_down: "n \<le> length h \<Longrightarrow> mset (heap_down lt h i n) = mset h"
proof (induction h i rule: heap_down_induct [where n = n and lt = lt])
  case (step h i)
  show ?case
  proof (cases "n \<le> 2 * i + 1 \<or> \<not> lt (h ! down_child lt h i n) (h ! i)")
    case False
    then have "i < length h" "down_child lt h i n < length h"
      using down_child_bounds [of i n lt h] step.prems by auto
    with False step show ?thesis by (subst heap_down_unfold) simp
  qed (subst heap_down_unfold, simp)
qed

text \<open>\<open>down\<close> leaves the slice from \<open>n\<close> on alone.\<close>

lemma heap_down_nth_ge:
  "n \<le> length h \<Longrightarrow> n \<le> k \<Longrightarrow> heap_down lt h i n ! k = h ! k"
proof (induction h i rule: heap_down_induct [where n = n and lt = lt])
  case (step h i)
  show ?case
  proof (cases "n \<le> 2 * i + 1 \<or> \<not> lt (h ! down_child lt h i n) (h ! i)")
    case False
    then have "i < n" "down_child lt h i n < n"
      using down_child_bounds [of i n lt h] by auto
    with False step show ?thesis by (subst heap_down_unfold) (simp add: nth_pq_Swap)
  qed (subst heap_down_unfold, simp)
qed

section \<open>Interfaces\<close>

text \<open>
  What \<open>container/heap\<close> needs of \<open>Less\<close>: a strict weak order. Two elements neither of which is less
  than the other (equal priority, equal creation time) are interchangeable.
\<close>

locale weak_order =
  fixes lt :: "'a \<Rightarrow> 'a \<Rightarrow> bool"
  assumes lt_asym: "lt x y \<Longrightarrow> \<not> lt y x"
    and not_lt_trans: "\<not> lt x y \<Longrightarrow> \<not> lt y z \<Longrightarrow> \<not> lt x z"
begin

lemma lt_irrefl: "\<not> lt x x"
  using lt_asym by blast

lemma lt_not_lt_trans: "lt x y \<Longrightarrow> \<not> lt z y \<Longrightarrow> lt x z"
  using not_lt_trans lt_asym by blast

text \<open>\<open>up\<close>: swapping the defect with its parent moves the defect to the parent.\<close>

lemma up_defect_swap:
  assumes d: "up_defect lt h j" and j: "0 < j" "j < length h"
    and lt: "lt (h ! j) (h ! (parent j))"
  shows "up_defect lt (pq_Swap (parent j) j h) (parent j)"
proof -
  let ?p = "parent j"
  have p: "?p < j" using j by (simp add: parent_less)
  have ord: "\<not> lt (h ! i) (h ! (parent i))" if "0 < i" "i < length h" "i \<noteq> j" for i
    using d that by (auto simp: up_defect_def)
  have kid: "\<not> lt (h ! i) (h ! ?p)" if "0 < i" "i < length h" "parent i = j" for i
    using d that j by (auto simp: up_defect_def)
  have gp: "\<not> lt (h ! ?p) (h ! (parent ?p))" if "0 < ?p"
    using ord [of ?p] that p j by auto
  have sib: "\<not> lt (h ! i) (h ! j)" if "\<not> lt (h ! i) (h ! ?p)" for i
    using that lt lt_asym not_lt_trans by blast
  have nth: "pq_Swap ?p j h ! k = (if k = j then h ! ?p else if k = ?p then h ! j else h ! k)" for k
    using p j by (simp add: nth_pq_Swap)
  show ?thesis
    unfolding up_defect_def
  proof (intro allI impI conjI)
    fix i assume i: "0 < i" "i < length (pq_Swap ?p j h)" "i \<noteq> ?p"
    show "\<not> lt (pq_Swap ?p j h ! i) (pq_Swap ?p j h ! (parent i))"
      using i p ord [of i] kid [of i] sib [of i] lt_asym [OF lt] by (auto simp: nth)
  next
    fix i assume i: "0 < i" "i < length (pq_Swap ?p j h)" "parent i = ?p" "0 < ?p"
    have "parent ?p < ?p" using i(4) by (simp add: parent_less)
    moreover have "\<not> lt (h ! i) (h ! parent ?p)" if "i \<noteq> j"
      using ord [of i] gp not_lt_trans i that by auto
    ultimately show "\<not> lt (pq_Swap ?p j h ! i) (pq_Swap ?p j h ! (parent ?p))"
      using i p gp by (auto simp: nth)
  qed
qed

lemma heap_up_ordered: "j < length h \<Longrightarrow> up_defect lt h j \<Longrightarrow> heap_ordered lt (heap_up lt h j)"
proof (induction j arbitrary: h rule: less_induct)
  case (less j)
  show ?case
  proof (cases "j = 0 \<or> \<not> lt (h ! j) (h ! parent j)")
    case True
    then have "heap_up lt h j = h" by (subst heap_up_unfold) simp
    moreover have "\<not> lt (h ! i) (h ! parent i)" if "0 < i" "i < length h" for i
      using that True less.prems(2) by (cases "i = j") (auto simp: up_defect_def)
    ultimately show ?thesis by (simp add: heap_uptoI)
  next
    case False
    then have j: "0 < j" "parent j < j" by (simp_all add: parent_less)
    with False less.prems have "heap_ordered lt (heap_up lt (pq_Swap (parent j) j h) (parent j))"
      by (intro less.IH up_defect_swap) simp_all
    with False show ?thesis by (subst heap_up_unfold) simp
  qed
qed

text \<open>\<open>down\<close>: swapping the defect with its smaller child moves the defect to that child.\<close>

lemma down_child_least:
  assumes "2 * k + 1 < n" and "i < n" and "0 < i" and "parent i = k"
  shows "\<not> lt (h ! i) (h ! down_child lt h k n)"
proof -
  from assms(3,4) have "i = 2 * k + 1 \<or> i = 2 * k + 2" by (simp add: parent_eq_iff)
  with assms(2) show ?thesis by (auto simp: down_child_def lt_irrefl dest: lt_asym)
qed

lemma down_defect_swap:
  assumes d: "down_defect lt h k n" and n: "n \<le> length h" "2 * k + 1 < n"
    and lt: "lt (h ! down_child lt h k n) (h ! k)"
  shows "down_defect lt (pq_Swap k (down_child lt h k n) h) (down_child lt h k n) n"
proof -
  let ?c = "down_child lt h k n"
  have c: "k < ?c" "?c < n" "parent ?c = k"
    using n down_child_bounds [of k n lt h] by (auto simp: down_child_def parent_eq_iff)
  have ord: "\<not> lt (h ! i) (h ! (parent i))" if "0 < i" "i < n" "parent i \<noteq> k" for i
    using d that by (auto simp: down_defect_def)
  have up: "\<not> lt (h ! i) (h ! (parent k))" if "0 < i" "i < n" "parent i = k" "0 < k" for i
    using d that by (auto simp: down_defect_def)
  have least: "\<not> lt (h ! i) (h ! ?c)" if "0 < i" "i < n" "parent i = k" for i
    using down_child_least that n by blast
  have nth: "pq_Swap k ?c h ! i = (if i = ?c then h ! k else if i = k then h ! ?c else h ! i)" for i
    using c n by (simp add: nth_pq_Swap)
  show ?thesis
    unfolding down_defect_def
  proof (intro allI impI conjI)
    fix i assume i: "0 < i" "i < n" "parent i \<noteq> ?c"
    have up_c: "0 < k \<Longrightarrow> \<not> lt (h ! ?c) (h ! (parent k))" using up [of ?c] c by auto
    show "\<not> lt (pq_Swap k ?c h ! i) (pq_Swap k ?c h ! (parent i))"
      using i c ord [of i] least [of i] up_c lt_asym [OF lt] by (auto simp: nth)
  next
    fix i assume i: "0 < i" "i < n" "parent i = ?c" "0 < ?c"
    then have "i \<noteq> ?c" "i \<noteq> k" using c parent_less [of i] by auto
    then show "\<not> lt (pq_Swap k ?c h ! i) (pq_Swap k ?c h ! (parent ?c))"
      using i c ord [of i] by (auto simp: nth)
  qed
qed

lemma heap_down_ordered:
  "n \<le> length h \<Longrightarrow> down_defect lt h k n \<Longrightarrow> heap_upto lt (heap_down lt h k n) n"
proof (induction h k rule: heap_down_induct [where n = n and lt = lt])
  case (step h k)
  show ?case
  proof (cases "n \<le> 2 * k + 1 \<or> \<not> lt (h ! down_child lt h k n) (h ! k)")
    case True
    then have "heap_down lt h k n = h" by (subst heap_down_unfold) simp
    moreover have "\<not> lt (h ! i) (h ! (parent i))" if i: "0 < i" "i < n" for i
    proof (cases "parent i = k")
      case kid: True
      with i have k: "2 * k + 1 < n" by (auto simp: parent_eq_iff)
      with True have "\<not> lt (h ! down_child lt h k n) (h ! k)" by auto
      with down_child_least [OF k i(2,1) kid] not_lt_trans kid show ?thesis by blast
    next
      case False
      with i step.prems(2) show ?thesis by (auto simp: down_defect_def)
    qed
    ultimately show ?thesis by (simp add: heap_uptoI)
  next
    case False
    then have k: "2 * k + 1 < n" "lt (h ! down_child lt h k n) (h ! k)" by auto
    have "heap_upto lt (heap_down lt (pq_Swap k (down_child lt h k n) h) (down_child lt h k n) n) n"
      using step.prems k by (intro step.IH down_defect_swap) simp_all
    with False show ?thesis by (subst heap_down_unfold) simp
  qed
qed

lemma heap_root_least:
  "heap_upto lt h n \<Longrightarrow> i < n \<Longrightarrow> \<not> lt (h ! i) (h ! 0)"
proof (induction i rule: less_induct)
  case (less i)
  show ?case
  proof (cases "i = 0")
    case False
    with less parent_less [of i] have "\<not> lt (h ! parent i) (h ! 0)" by auto
    moreover have "\<not> lt (h ! i) (h ! parent i)" using less.prems False by (simp add: heap_uptoD)
    ultimately show ?thesis using not_lt_trans by blast
  qed (simp add: lt_irrefl)
qed

lemma heap_Push_ordered: "heap_ordered lt h \<Longrightarrow> heap_ordered lt (heap_Push lt x h)"
proof -
  assume h: "heap_ordered lt h"
  have "up_defect lt (h @ [x]) (length h)"
    unfolding up_defect_def
  proof (intro allI impI conjI)
    fix i assume i: "0 < i" "i < length (h @ [x])" "i \<noteq> length h"
    then have "i < length h" "parent i < length h" using parent_less [of i] by auto
    then show "\<not> lt ((h @ [x]) ! i) ((h @ [x]) ! (parent i))"
      using heap_uptoD [OF h, of i] i by (simp add: nth_append)
  next
    fix i assume "0 < i" "i < length (h @ [x])" "parent i = length h"
    then have False using parent_less [of i] by simp
    then show "\<not> lt ((h @ [x]) ! i) ((h @ [x]) ! parent (length h))" ..
  qed
  then have "heap_ordered lt (heap_up lt (h @ [x]) (length h))" by (intro heap_up_ordered) simp_all
  then show ?thesis by (simp add: heap_Push_def pq_Push_def)
qed

lemma heap_Pop_facts:
  assumes h: "heap_ordered lt h" and ne: "h \<noteq> []"
  obtains h' where "heap_Pop lt h = Some (h ! 0, h')" "heap_ordered lt h'"
    "mset h = add_mset (h ! 0) (mset h')"
proof -
  define n where "n = length h - 1"
  define g where "g = heap_down lt (pq_Swap 0 n h) 0 n"
  have n: "n < length h" "length h = Suc n" using ne by (auto simp: n_def)
  have nth: "pq_Swap 0 n h ! k = (if k = n then h ! 0 else if k = 0 then h ! n else h ! k)" for k
    using n ne by (simp add: nth_pq_Swap)
  have "down_defect lt (pq_Swap 0 n h) 0 n"
    unfolding down_defect_def
  proof (intro allI impI conjI)
    fix i assume "0 < i" "i < n" "parent i \<noteq> 0"
    then show "\<not> lt (pq_Swap 0 n h ! i) (pq_Swap 0 n h ! parent i)"
      using heap_uptoD [OF h, of i] parent_less [of i] n by (auto simp: nth)
  qed simp
  then have ord: "heap_upto lt g n" using n by (simp add: g_def heap_down_ordered)
  have len: "length g = Suc n" using n by (simp add: g_def)
  have last: "g ! n = h ! 0" using n by (simp add: g_def heap_down_nth_ge nth)
  have "mset g = mset (take n g @ [h ! 0])"
    using take_Suc_conv_app_nth [of n g] len last by simp
  moreover have "mset g = mset h" using n by (simp add: g_def mset_heap_down)
  ultimately have "mset h = add_mset (h ! 0) (mset (take n g))" by simp
  moreover have "heap_ordered lt (take n g)"
  proof (rule heap_uptoI)
    fix i assume "0 < i" "i < length (take n g)"
    then show "\<not> lt (take n g ! i) (take n g ! parent i)"
      using heap_uptoD [OF ord, of i] parent_less [of i] by simp
  qed
  moreover have "heap_Pop lt h = Some (h ! 0, take n g)"
    using ne last len by (simp add: heap_Pop_def pq_Pop_def Let_def g_def n_def)
  ultimately show thesis using that by blast
qed

end

lemma mset_heap_Push: "mset (heap_Push lt x h) = add_mset x (mset h)"
  by (simp add: heap_Push_def pq_Push_def mset_heap_up)

lemma length_heap_Push [simp]: "length (heap_Push lt x h) = Suc (length h)"
  by (simp add: heap_Push_def pq_Push_def Let_def)

lemma set_heap_Push [simp]: "set (heap_Push lt x h) = insert x (set h)"
  by (metis mset_heap_Push set_mset_add_mset_insert set_mset_mset)

lemma heap_Push_nonempty [simp]: "heap_Push lt x h \<noteq> []"
  using length_heap_Push [of lt x h] by (cases "heap_Push lt x h") simp_all

lemma heap_Pop_Nil [simp]: "heap_Pop lt [] = None"
  by (simp add: heap_Pop_def)

lemma heap_Init_Nil [simp]: "heap_Init lt [] = []"
  by (simp add: heap_Init_def)

text \<open>Whatever the comparison, \<open>Pop\<close> takes one element out and loses none.\<close>

lemma heap_Pop_mset:
  assumes "heap_Pop lt h = Some (x, h')"
  shows "mset h = add_mset x (mset h')"
proof -
  define n where "n = length h - 1"
  define g where "g = heap_down lt (pq_Swap 0 n h) 0 n"
  from assms have ne: "h \<noteq> []" by auto
  with assms have "x = g ! n" "h' = take n g"
    by (simp_all add: heap_Pop_def pq_Pop_def Let_def g_def n_def)
  moreover from ne have n: "n < length h" "length h = Suc n" by (auto simp: n_def)
  moreover have "mset g = mset h" "length g = Suc n" using n ne by (simp_all add: g_def mset_heap_down)
  moreover have "g = take n g @ [g ! n]"
    using take_Suc_conv_app_nth [of n g] \<open>length g = Suc n\<close> by simp
  then have "mset g = mset (take n g @ [g ! n])" by (rule arg_cong)
  ultimately show ?thesis by simp
qed

lemma heap_Pop_None_iff [simp]: "heap_Pop lt h = None \<longleftrightarrow> h = []"
  by (simp add: heap_Pop_def Let_def)

text \<open>
  A heap is only as good as its order: two comparisons that agree on the elements present agree on
  whether the slice is a heap. A change to a task that its position does not depend on keeps it.
\<close>

lemma heap_upto_cong:
  assumes "\<And>x y. x \<in> set h \<Longrightarrow> y \<in> set h \<Longrightarrow> lt x y = lt' x y" and "n \<le> length h"
  shows "heap_upto lt h n = heap_upto lt' h n"
proof -
  have "lt (h ! i) (h ! parent i) = lt' (h ! i) (h ! parent i)" if i: "0 < i" "i < n" for i
  proof (rule assms(1))
    show "h ! i \<in> set h" using i assms(2) by simp
    show "h ! parent i \<in> set h" using i assms(2) parent_less [of i] by simp
  qed
  then show ?thesis by (auto simp: heap_upto_def)
qed

section \<open>The contract of a priority queue\<close>

text \<open>\<open>pop_all pop n q\<close>: what \<open>n\<close> calls of \<open>pop\<close> return, in order.\<close>

primrec pop_all :: "('q \<Rightarrow> ('a \<times> 'q) option) \<Rightarrow> nat \<Rightarrow> 'q \<Rightarrow> 'a list" where
  "pop_all pop 0 q = []"
| "pop_all pop (Suc n) q =
     (case pop q of None \<Rightarrow> [] | Some (x, q') \<Rightarrow> x # pop_all pop n q')"

locale priority_queue = weak_order lt for lt :: "'a \<Rightarrow> 'a \<Rightarrow> bool" +
  fixes empty_q :: 'q and push :: "'a \<Rightarrow> 'q \<Rightarrow> 'q" and pop :: "'q \<Rightarrow> ('a \<times> 'q) option"
    and invar :: "'q \<Rightarrow> bool" and elems :: "'q \<Rightarrow> 'a multiset"
  assumes elems_empty: "elems empty_q = {#}"
    and invar_empty: "invar empty_q"
    and elems_push: "invar q \<Longrightarrow> elems (push x q) = add_mset x (elems q)"
    and invar_push: "invar q \<Longrightarrow> invar (push x q)"
    and pop_None: "invar q \<Longrightarrow> pop q = None \<longleftrightarrow> elems q = {#}"
    and elems_pop: "invar q \<Longrightarrow> pop q = Some (x, q') \<Longrightarrow> elems q = add_mset x (elems q')"
    and invar_pop: "invar q \<Longrightarrow> pop q = Some (x, q') \<Longrightarrow> invar q'"
    and pop_least: "invar q \<Longrightarrow> pop q = Some (x, q') \<Longrightarrow> y \<in># elems q \<Longrightarrow> \<not> lt y x"
begin

lemma pop_all_elems:
  "invar q \<Longrightarrow> size (elems q) \<le> n \<Longrightarrow> mset (pop_all pop n q) = elems q"
proof (induction n arbitrary: q)
  case (Suc n)
  show ?case
  proof (cases "pop q")
    case (Some r)
    obtain x q' where r: "r = (x, q')" by force
    with Some Suc.prems have "elems q = add_mset x (elems q')" "invar q'"
      by (auto intro: elems_pop invar_pop)
    with Some r Suc show ?thesis by simp
  next
    case None
    with Suc.prems pop_None [of q] show ?thesis by simp
  qed
qed simp

lemma pop_all_subset: "invar q \<Longrightarrow> y \<in> set (pop_all pop n q) \<Longrightarrow> y \<in># elems q"
proof (induction n arbitrary: q)
  case (Suc n)
  then obtain x q' where pop: "pop q = Some (x, q')" and y: "y = x \<or> y \<in> set (pop_all pop n q')"
    by (cases "pop q") auto
  with Suc.prems have "elems q = add_mset x (elems q')" "invar q'"
    by (auto intro: elems_pop invar_pop)
  with y Suc.IH show ?case by auto
qed simp

lemma pop_all_sorted: "invar q \<Longrightarrow> sorted_wrt (\<lambda>x y. \<not> lt y x) (pop_all pop n q)"
proof (induction n arbitrary: q)
  case (Suc n)
  show ?case
  proof (cases "pop q")
    case (Some r)
    obtain x q' where r: "r = (x, q')" by force
    have "\<not> lt y x" if "y \<in> set (pop_all pop n q')" for y
    proof -
      from that Some r Suc.prems have "y \<in># elems q'" by (blast intro: pop_all_subset invar_pop)
      with Some r Suc.prems elems_pop [of q x q'] have "y \<in># elems q" by simp
      with Some r Suc.prems show ?thesis by (blast dest: pop_least)
    qed
    with Some r Suc show ?thesis by (auto intro: invar_pop)
  qed simp
qed simp

end

text \<open>The binary heap meets the contract, for every weak order.\<close>

sublocale weak_order \<subseteq> hq: priority_queue lt "[]" "heap_Push lt" "heap_Pop lt" "heap_ordered lt" mset
proof unfold_locales
  fix q q' x y
  assume q: "heap_ordered lt q" and pop: "heap_Pop lt q = Some (x, q')"
  then have "q \<noteq> []" by auto
  then obtain h' where h': "heap_Pop lt q = Some (q ! 0, h')" "heap_ordered lt h'"
    using heap_Pop_facts [OF q] by metis
  with pop show "heap_ordered lt q'" by simp
  show "mset q = add_mset x (mset q')" using pop by (rule heap_Pop_mset)
  assume "y \<in># mset q"
  then obtain i where "i < length q" "y = q ! i" by (auto simp: in_set_conv_nth)
  then show "\<not> lt y x" using heap_root_least [OF q] h' pop by auto
qed (simp_all add: heap_upto_def mset_heap_Push heap_Push_ordered [unfolded heap_upto_def])

end
