(* ===== verification/Task.thy ===== *)
theory Task
  imports Prelude
begin

text \<open>
  The task domain model, \<open>src/internal/task/task.go\<close>: the lifecycle states with the table of allowed
  transitions, the \<open>Task\<close> struct, its constructors and its methods. A method that returns an error
  leaves the task alone, so it is a sum (\<open>Inl\<close> the error, \<open>Inr\<close> the changed task). The values the
  runtime supplies (the clock, \<open>rand.Int63n\<close>, the result of a float to integer conversion that is
  out of range) are arguments.
\<close>

section \<open>States, priorities, types\<close>

text \<open>
  \<open>State\<close>, \<open>TaskType\<close> and \<open>Priority\<close> are integers in the code; the last constructor of the two enums
  stands for every other value, which the \<open>default\<close> branches handle.
\<close>

datatype state =
    StateQueued | StateAssigned | StateRunning | StateCompleted
  | StateFailed | StateRetrying | StateDead | StateOther int

fun state_String :: "state \<Rightarrow> string" where
  "state_String StateQueued = ''QUEUED''"
| "state_String StateAssigned = ''ASSIGNED''"
| "state_String StateRunning = ''RUNNING''"
| "state_String StateCompleted = ''COMPLETED''"
| "state_String StateFailed = ''FAILED''"
| "state_String StateRetrying = ''RETRYING''"
| "state_String StateDead = ''DEAD''"
| "state_String (StateOther _) = ''UNKNOWN''"

definition IsTerminal :: "state \<Rightarrow> bool" where
  "IsTerminal s \<longleftrightarrow> s = StateCompleted \<or> s = StateDead"

type_synonym priority = int64

definition PriorityLow :: priority where "PriorityLow = 0"

definition PriorityNormal :: priority where "PriorityNormal = 1"

definition PriorityHigh :: priority where "PriorityHigh = 2"

text \<open>A state that is not a key of the map has no successor: the zero value of the slice type.\<close>

fun validTransitions :: "state \<Rightarrow> state list" where
  "validTransitions StateQueued = [StateAssigned]"
| "validTransitions StateAssigned = [StateRunning, StateQueued]"
| "validTransitions StateRunning = [StateCompleted, StateFailed]"
| "validTransitions StateFailed = [StateRetrying, StateDead]"
| "validTransitions StateRetrying = [StateQueued]"
| "validTransitions StateCompleted = []"
| "validTransitions StateDead = [StateQueued]"
| "validTransitions (StateOther _) = []"

datatype task_type = TaskTypeScriptPath | TaskTypeInline | TaskTypeArchive | TaskTypeOther int

fun task_type_String :: "task_type \<Rightarrow> string" where
  "task_type_String TaskTypeScriptPath = ''SCRIPT_PATH''"
| "task_type_String TaskTypeInline = ''INLINE''"
| "task_type_String TaskTypeArchive = ''ARCHIVE''"
| "task_type_String (TaskTypeOther _) = ''UNKNOWN''"

section \<open>The task\<close>

record task =
  tID :: string
  tScript :: string
  tState :: state
  tPriority :: priority
  tAttempt :: int32
  tMaxRetries :: int32
  tWorkerID :: string
  tOutput :: string
  tError :: string
  tExitCode :: int32
  tType :: task_type
  tContent :: string
  tLanguage :: string
  tEntrypoint :: string
  tCreatedAt :: time
  tAssignedAt :: time
  tStartedAt :: time
  tCompletedAt :: time
  tNextRetryAt :: time
  tTimeoutSec :: int64

definition New :: "time \<Rightarrow> string \<Rightarrow> string \<Rightarrow> task" where
  "New now taskid script =
     \<lparr>tID = taskid, tScript = script, tState = StateQueued, tPriority = PriorityNormal,
      tAttempt = 0, tMaxRetries = 3, tWorkerID = [], tOutput = [], tError = [], tExitCode = 0,
      tType = TaskTypeScriptPath, tContent = [], tLanguage = [], tEntrypoint = [],
      tCreatedAt = now, tAssignedAt = zero_time, tStartedAt = zero_time,
      tCompletedAt = zero_time, tNextRetryAt = zero_time, tTimeoutSec = 300\<rparr>"

definition NewInline :: "time \<Rightarrow> string \<Rightarrow> string \<Rightarrow> string \<Rightarrow> task" where
  "NewInline now taskid content language =
     (New now taskid [])\<lparr>tType := TaskTypeInline, tContent := content, tLanguage := language\<rparr>"

definition NewArchive :: "time \<Rightarrow> string \<Rightarrow> string \<Rightarrow> string \<Rightarrow> string \<Rightarrow> task" where
  "NewArchive now taskid content entrypoint language =
     (New now taskid [])\<lparr>tType := TaskTypeArchive, tContent := content,
       tEntrypoint := entrypoint, tLanguage := language\<rparr>"

text \<open>The store of tasks that the components share pointers into.\<close>

type_synonym tasks = "ref \<Rightarrow> task"

section \<open>The methods\<close>

datatype task_error = InvalidTransition state state string

fun transition_loop :: "state list \<Rightarrow> state \<Rightarrow> task \<Rightarrow> task_error + task" where
  "transition_loop [] to t = Inl (InvalidTransition (tState t) to (tID t))"
| "transition_loop (s # allowed) to t =
     (if s = to then Inr (t\<lparr>tState := to\<rparr>) else transition_loop allowed to t)"

definition task_Transition :: "state \<Rightarrow> task \<Rightarrow> task_error + task" where
  "task_Transition to t = transition_loop (validTransitions (tState t)) to t"

definition task_Assign :: "time \<Rightarrow> string \<Rightarrow> task \<Rightarrow> task_error + task" where
  "task_Assign now workerID t =
     bind_err (task_Transition StateAssigned t)
       (\<lambda>t. Inr (t\<lparr>tWorkerID := workerID, tAssignedAt := now, tAttempt := tAttempt t + 1\<rparr>))"

definition task_Start :: "time \<Rightarrow> task \<Rightarrow> task_error + task" where
  "task_Start now t =
     bind_err (task_Transition StateRunning t)
       (\<lambda>t. Inr (t\<lparr>tStartedAt := now\<rparr>))"

definition task_Complete :: "time \<Rightarrow> string \<Rightarrow> int32 \<Rightarrow> task \<Rightarrow> task_error + task" where
  "task_Complete now output exitCode t =
     bind_err (task_Transition StateCompleted t)
       (\<lambda>t. Inr (t\<lparr>tOutput := output, tExitCode := exitCode, tCompletedAt := now\<rparr>))"

definition task_Fail :: "time \<Rightarrow> string \<Rightarrow> int32 \<Rightarrow> task \<Rightarrow> task_error + task" where
  "task_Fail now errMsg exitCode t =
     bind_err (task_Transition StateFailed t)
       (\<lambda>t. Inr (t\<lparr>tError := errMsg, tExitCode := exitCode, tCompletedAt := now\<rparr>))"

text \<open>
  What \<open>ScheduleRetry\<close> takes from the runtime: the clock, the random jitter below one second, and
  the value of the float to integer conversion for a float outside the range of \<open>int64\<close>, which
  the language leaves to the implementation.
\<close>

record rt_env =
  rt_now :: time
  rt_jitter :: int64
  rt_f2i :: int64

text \<open>
  \<open>time.Duration(math.Pow(2, float64(t.Attempt)))\<close>: a power of two is exact in a \<open>float64\<close>, the
  conversion truncates a negative power to 0, and the powers from \<open>2^63\<close> on are out of range.
\<close>

definition pow2_duration :: "rt_env \<Rightarrow> int32 \<Rightarrow> duration" where
  "pow2_duration rt a =
     (if sint a < 0 then 0 else if sint a < 63 then 2 ^ nat (sint a) else rt_f2i rt)"

definition retry_delay :: "rt_env \<Rightarrow> int32 \<Rightarrow> duration" where
  "retry_delay rt a = (let backoff = pow2_duration rt a * Second; jitter = rt_jitter rt
     in backoff + jitter)"

definition task_ScheduleRetry :: "rt_env \<Rightarrow> task \<Rightarrow> task_error + task" where
  "task_ScheduleRetry rt t =
     (if tMaxRetries t \<le>s tAttempt t then task_Transition StateDead t
      else bind_err (task_Transition StateRetrying t)
        (\<lambda>t. Inr (t\<lparr>tNextRetryAt := time_Add (rt_now rt) (retry_delay rt (tAttempt t))\<rparr>)))"

definition task_Requeue :: "task \<Rightarrow> task_error + task" where
  "task_Requeue t = task_Transition StateQueued t"

definition task_RetryFromDLQ :: "task \<Rightarrow> task_error + task" where
  "task_RetryFromDLQ t =
     bind_err (task_Transition StateQueued t)
       (\<lambda>t. Inr (t\<lparr>tAttempt := 0, tError := []\<rparr>))"

definition task_Duration :: "task \<Rightarrow> duration" where
  "task_Duration t =
     (if IsZero (tStartedAt t) \<or> IsZero (tCompletedAt t) then 0
      else time_Sub (tCompletedAt t) (tStartedAt t))"

text \<open>
  One execution that fails, as the master drives it: assigned, started, reported as failed, and
  the retry scheduled; then the rest of the executions, each after the task was put back in the
  queue.
\<close>

record attempt_in =
  ai_assign :: time
  ai_start :: time
  ai_fail :: time
  ai_rt :: rt_env
  ai_worker :: string
  ai_error :: string
  ai_code :: int32

definition failing_attempt :: "attempt_in \<Rightarrow> task \<Rightarrow> task_error + task" where
  "failing_attempt i t =
     bind_err (task_Assign (ai_assign i) (ai_worker i) t) (\<lambda>t.
     bind_err (task_Start (ai_start i) t) (\<lambda>t.
     bind_err (task_Fail (ai_fail i) (ai_error i) (ai_code i) t)
       (task_ScheduleRetry (ai_rt i))))"

fun failing_attempts :: "attempt_in list \<Rightarrow> task \<Rightarrow> task_error + task" where
  "failing_attempts [] t = Inr t"
| "failing_attempts [i] t = failing_attempt i t"
| "failing_attempts (i # is) t =
     bind_err (failing_attempt i t) (\<lambda>t. bind_err (task_Requeue t) (failing_attempts is))"

section \<open>A call's result\<close>

lemma task_Transition_eq:
  "task_Transition to t =
     (if to \<in> set (validTransitions (tState t)) then Inr (t\<lparr>tState := to\<rparr>)
      else Inl (InvalidTransition (tState t) to (tID t)))"
proof -
  have "transition_loop allowed to t =
     (if to \<in> set allowed then Inr (t\<lparr>tState := to\<rparr>)
      else Inl (InvalidTransition (tState t) to (tID t)))" for allowed
    by (induction allowed) auto
  then show ?thesis by (simp add: task_Transition_def)
qed

text \<open>The states a transition can come from, by its target.\<close>

lemma transition_sources:
  "StateAssigned \<in> set (validTransitions s) \<longleftrightarrow> s = StateQueued"
  "StateRunning \<in> set (validTransitions s) \<longleftrightarrow> s = StateAssigned"
  "StateCompleted \<in> set (validTransitions s) \<longleftrightarrow> s = StateRunning"
  "StateFailed \<in> set (validTransitions s) \<longleftrightarrow> s = StateRunning"
  "StateRetrying \<in> set (validTransitions s) \<longleftrightarrow> s = StateFailed"
  "StateDead \<in> set (validTransitions s) \<longleftrightarrow> s = StateFailed"
  "StateQueued \<in> set (validTransitions s) \<longleftrightarrow>
     s = StateAssigned \<or> s = StateRetrying \<or> s = StateDead"
  by (cases s; simp)+

lemma task_Assign_eq:
  "task_Assign now w t =
     (if tState t = StateQueued
      then Inr (t\<lparr>tState := StateAssigned, tWorkerID := w, tAssignedAt := now,
                  tAttempt := tAttempt t + 1\<rparr>)
      else Inl (InvalidTransition (tState t) StateAssigned (tID t)))"
  by (simp add: task_Assign_def task_Transition_eq transition_sources)

lemma task_Start_eq:
  "task_Start now t =
     (if tState t = StateAssigned then Inr (t\<lparr>tState := StateRunning, tStartedAt := now\<rparr>)
      else Inl (InvalidTransition (tState t) StateRunning (tID t)))"
  by (simp add: task_Start_def task_Transition_eq transition_sources)

lemma task_Complete_eq:
  "task_Complete now out code t =
     (if tState t = StateRunning
      then Inr (t\<lparr>tState := StateCompleted, tOutput := out, tExitCode := code,
                  tCompletedAt := now\<rparr>)
      else Inl (InvalidTransition (tState t) StateCompleted (tID t)))"
  by (simp add: task_Complete_def task_Transition_eq transition_sources)

lemma task_Fail_eq:
  "task_Fail now msg code t =
     (if tState t = StateRunning
      then Inr (t\<lparr>tState := StateFailed, tError := msg, tExitCode := code, tCompletedAt := now\<rparr>)
      else Inl (InvalidTransition (tState t) StateFailed (tID t)))"
  by (simp add: task_Fail_def task_Transition_eq transition_sources)

lemma task_ScheduleRetry_eq:
  "task_ScheduleRetry rt t =
     (if tMaxRetries t \<le>s tAttempt t
      then if tState t = StateFailed then Inr (t\<lparr>tState := StateDead\<rparr>)
        else Inl (InvalidTransition (tState t) StateDead (tID t))
      else if tState t = StateFailed
        then Inr (t\<lparr>tState := StateRetrying,
               tNextRetryAt := time_Add (rt_now rt) (retry_delay rt (tAttempt t))\<rparr>)
        else Inl (InvalidTransition (tState t) StateRetrying (tID t)))"
  by (simp add: task_ScheduleRetry_def task_Transition_eq transition_sources)

lemma task_Requeue_eq:
  "task_Requeue t =
     (if tState t \<in> {StateAssigned, StateRetrying, StateDead} then Inr (t\<lparr>tState := StateQueued\<rparr>)
      else Inl (InvalidTransition (tState t) StateQueued (tID t)))"
  by (simp add: task_Requeue_def task_Transition_eq transition_sources)

lemma task_RetryFromDLQ_eq:
  "task_RetryFromDLQ t =
     (if tState t \<in> {StateAssigned, StateRetrying, StateDead}
      then Inr (t\<lparr>tState := StateQueued, tAttempt := 0, tError := []\<rparr>)
      else Inl (InvalidTransition (tState t) StateQueued (tID t)))"
  by (simp add: task_RetryFromDLQ_def task_Transition_eq transition_sources)

lemmas task_method_eqs =
  task_Assign_eq task_Start_eq task_Complete_eq task_Fail_eq task_ScheduleRetry_eq
  task_Requeue_eq task_RetryFromDLQ_eq

text \<open>
  What the queue and the in-flight map key a task on, its identity, priority and creation time,
  no method changes, whether it succeeds or not.
\<close>

definition task_key :: "task \<Rightarrow> string \<times> priority \<times> time" where
  "task_key t = (tID t, tPriority t, tCreatedAt t)"

lemma task_key_methods [simp]:
  "task_key (ignore_err t (task_Assign now w t)) = task_key t"
  "task_key (ignore_err t (task_Start now t)) = task_key t"
  "task_key (ignore_err t (task_Complete now out code t)) = task_key t"
  "task_key (ignore_err t (task_Fail now msg code t)) = task_key t"
  "task_key (ignore_err t (task_ScheduleRetry rt t)) = task_key t"
  "task_key (ignore_err t (task_Requeue t)) = task_key t"
  "task_key (ignore_err t (task_RetryFromDLQ t)) = task_key t"
  by (simp_all add: task_method_eqs task_key_def)

lemma task_key_upd [simp]:
  "task_key (t\<lparr>tState := st\<rparr>) = task_key t"
  "task_key (t\<lparr>tWorkerID := w\<rparr>) = task_key t"
  by (simp_all add: task_key_def)

section \<open>The lifecycle as a state machine\<close>

text \<open>One successful method call; any goroutine may make it.\<close>

inductive task_step :: "task \<Rightarrow> task \<Rightarrow> bool" where
  assign: "task_Assign now w t = Inr t' \<Longrightarrow> task_step t t'"
| start: "task_Start now t = Inr t' \<Longrightarrow> task_step t t'"
| complete: "task_Complete now out code t = Inr t' \<Longrightarrow> task_step t t'"
| fail: "task_Fail now msg code t = Inr t' \<Longrightarrow> task_step t t'"
| schedule_retry: "task_ScheduleRetry rt t = Inr t' \<Longrightarrow> task_step t t'"
| requeue: "task_Requeue t = Inr t' \<Longrightarrow> task_step t t'"
| retry_from_dlq: "task_RetryFromDLQ t = Inr t' \<Longrightarrow> task_step t t'"

inductive task_created :: "task \<Rightarrow> bool" where
  created: "task_created (New now taskid script)"
| created_inline: "task_created (NewInline now taskid content language)"
| created_archive: "task_created (NewArchive now taskid content entrypoint language)"

abbreviation task_reachable :: "task \<Rightarrow> bool" where
  "task_reachable \<equiv> reach task_created task_step"

text \<open>A task awaiting a retry has attempts left, a dead one has none.\<close>

definition lifecycle_inv :: "task \<Rightarrow> bool" where
  "lifecycle_inv t \<longleftrightarrow>
     tMaxRetries t = 3 \<and>
     (tState t = StateRetrying \<longrightarrow> tAttempt t <s tMaxRetries t) \<and>
     (tState t = StateDead \<longrightarrow> tMaxRetries t \<le>s tAttempt t) \<and>
     (\<forall>n. tState t \<noteq> StateOther n)"

lemma not_sle_sless: "\<not> x \<le>s y \<longleftrightarrow> y <s (x :: 'a :: len word)"
  by (simp add: word_sless_alt word_sle_eq not_le)

lemma task_step_transition:
  "task_step t t' \<Longrightarrow> tState t' \<in> set (validTransitions (tState t))"
  by (induction rule: task_step.induct)
    (auto simp: task_method_eqs transition_sources split: if_splits)

lemma task_step_lifecycle: "task_step t t' \<Longrightarrow> lifecycle_inv t \<Longrightarrow> lifecycle_inv t'"
  by (induction rule: task_step.induct)
    (auto simp: task_method_eqs lifecycle_inv_def not_sle_sless split: if_splits)

interpretation task_life: inv_system task_created task_step lifecycle_inv
proof
  show "task_created t \<Longrightarrow> lifecycle_inv t" for t
    by (induction rule: task_created.induct)
      (simp_all add: lifecycle_inv_def New_def NewInline_def NewArchive_def)
  show "lifecycle_inv t \<Longrightarrow> task_step t t' \<Longrightarrow> lifecycle_inv t'" for t t'
    by (rule task_step_lifecycle)
qed

section \<open>Retry delays\<close>

lemma pow2_duration_exact:
  assumes "0 \<le> sint a" and "sint a \<le> 33"
  shows "pow2_duration rt a * Second = word_of_int (2 ^ nat (sint a) * 1000000000)"
  using assms by (simp add: pow2_duration_def Second_def)

lemma pow2_le_2_33: "sint a \<le> 33 \<Longrightarrow> (2 :: int) ^ nat (sint a) \<le> 2 ^ 33"
  by (rule power_increasing) simp_all

lemma sint_retry_delay:
  assumes a: "0 \<le> sint a" "sint a \<le> 33"
    and j: "0 \<le> sint (rt_jitter rt)" "sint (rt_jitter rt) < 1000000000"
  shows "sint (retry_delay rt a) = 2 ^ nat (sint a) * 1000000000 + sint (rt_jitter rt)"
proof -
  have "retry_delay rt a = word_of_int (2 ^ nat (sint a) * 1000000000) + rt_jitter rt"
    by (simp add: retry_delay_def pow2_duration_exact [OF a])
  also have "\<dots> = word_of_int (2 ^ nat (sint a) * 1000000000 + sint (rt_jitter rt))"
    by simp
  finally have "sint (retry_delay rt a) = sint (word_of_int
    (2 ^ nat (sint a) * 1000000000 + sint (rt_jitter rt)) :: int64)" by (rule arg_cong)
  also have "\<dots> = 2 ^ nat (sint a) * 1000000000 + sint (rt_jitter rt)"
  proof (rule sint_of_int64)
    have "(0 :: int) \<le> 2 ^ nat (sint a)" by simp
    then show "- 9223372036854775808 \<le> 2 ^ nat (sint a) * 1000000000 + sint (rt_jitter rt)"
      using j by linarith
    show "2 ^ nat (sint a) * 1000000000 + sint (rt_jitter rt) \<le> 9223372036854775807"
      using pow2_le_2_33 [OF a(2)] j by simp
  qed
  finally show ?thesis .
qed

section \<open>Properties of the task model\<close>

text \<open>
  C16: from its creation on, whatever methods are called on it, a task only makes the moves of
  the transition table; it is dead-lettered only once its attempts have reached \<open>MaxRetries\<close> and
  waits for a retry only while they have not.
\<close>

theorem task_lifecycle_sound:
  assumes "task_reachable t" and "task_step t t'"
  shows "tState t' \<in> set (validTransitions (tState t)) \<and>
    (tState t' = StateDead \<longrightarrow> tMaxRetries t' \<le>s tAttempt t') \<and>
    (tState t' = StateRetrying \<longrightarrow> tAttempt t' <s tMaxRetries t')"
  using task_step_transition [OF assms(2)]
    task_step_lifecycle [OF assms(2) task_life.reach_inv [OF assms(1)]]
  unfolding lifecycle_inv_def by blast

theorem task_lifecycle_sound_witness:
  "\<exists>t'. task_step (New 5 ''a'' ''a.sh'') t' \<and> tState t' = StateAssigned \<and>
     tState t' \<in> set (validTransitions StateQueued)"
proof -
  let ?t = "New 5 ''a'' ''a.sh''"
  obtain t' where t': "task_Assign 6 ''w1'' ?t = Inr t'" "tState t' = StateAssigned"
    by (simp add: task_Assign_eq New_def)
  then have "task_step ?t t'" by (blast intro: task_step.assign)
  with task_lifecycle_sound [OF reach_init this] task_created.created t' show ?thesis
    by (auto simp: New_def)
qed

text \<open>
  C23: a failed task with attempts left is scheduled no earlier than \<open>2^attempt\<close> seconds from
  now and less than one second after that, for every attempt count up to 33, the largest whose
  backoff fits in a \<open>time.Duration\<close>.
\<close>

theorem retry_window:
  assumes "tState t = StateFailed" and "tAttempt t <s tMaxRetries t"
    and "0 \<le> sint (tAttempt t)" "sint (tAttempt t) \<le> 33"
    and "0 \<le> sint (rt_jitter rt)" "sint (rt_jitter rt) < 1000000000"
  shows "\<exists>t'. task_ScheduleRetry rt t = Inr t' \<and> tState t' = StateRetrying \<and>
    rt_now rt + 2 ^ nat (sint (tAttempt t)) * 1000000000 \<le> tNextRetryAt t' \<and>
    tNextRetryAt t' < rt_now rt + (2 ^ nat (sint (tAttempt t)) + 1) * 1000000000"
  using assms sint_retry_delay [of "tAttempt t" rt]
  by (simp add: task_ScheduleRetry_eq time_Add_def not_sle_sless [symmetric] algebra_simps)

theorem retry_window_witness:
  "\<exists>t'. task_ScheduleRetry \<lparr>rt_now = 100, rt_jitter = 7, rt_f2i = 0\<rparr>
       ((New 5 ''a'' ''a.sh'')\<lparr>tState := StateFailed, tAttempt := 2\<rparr>) = Inr t' \<and>
     tNextRetryAt t' = 4000000107"
proof -
  let ?rt = "\<lparr>rt_now = 100, rt_jitter = 7, rt_f2i = 0\<rparr>"
  let ?t = "(New 5 ''a'' ''a.sh'')\<lparr>tState := StateFailed, tAttempt := 2\<rparr>"
  have "\<exists>t'. task_ScheduleRetry ?rt ?t = Inr t' \<and> tState t' = StateRetrying \<and>
    rt_now ?rt + 2 ^ nat (sint (tAttempt ?t)) * 1000000000 \<le> tNextRetryAt t' \<and>
    tNextRetryAt t' < rt_now ?rt + (2 ^ nat (sint (tAttempt ?t)) + 1) * 1000000000"
    by (rule retry_window) (simp_all add: New_def word_sless_alt)
  then show ?thesis
    by (auto simp: task_ScheduleRetry_eq New_def word_sle_eq time_Add_def retry_delay_def
        pow2_duration_def Second_def)
qed

lemma failing_attempt_eq:
  assumes "tState t = StateQueued"
  shows "\<exists>t'. failing_attempt i t = Inr t' \<and> tAttempt t' = tAttempt t + 1 \<and>
    tMaxRetries t' = tMaxRetries t \<and>
    tState t' = (if tMaxRetries t \<le>s tAttempt t + 1 then StateDead else StateRetrying)"
  using assms by (simp add: failing_attempt_def task_method_eqs)

lemma failing_attempts_count:
  assumes "is \<noteq> []" and "tState t = StateQueued"
    and "sint (tAttempt t) + int (length is) \<le> sint (tMaxRetries t)"
  shows "\<exists>t'. failing_attempts is t = Inr t' \<and>
    sint (tAttempt t') = sint (tAttempt t) + int (length is) \<and>
    tState t' = (if sint (tAttempt t) + int (length is) = sint (tMaxRetries t)
                 then StateDead else StateRetrying)"
  using assms
proof (induction "is" t rule: failing_attempts.induct)
  case (2 i t)
  then have "tAttempt t <s tMaxRetries t" by (simp add: word_sless_alt)
  with 2 sint_Suc [OF this] failing_attempt_eq [OF "2.prems"(2), of i] show ?case
    by (auto simp: word_sle_eq)
next
  case (3 i j "is" t)
  then have "tAttempt t <s tMaxRetries t" by (simp add: word_sless_alt)
  note suc = sint_Suc [OF this]
  obtain t' where t': "failing_attempt i t = Inr t'" "tAttempt t' = tAttempt t + 1"
      "tMaxRetries t' = tMaxRetries t" "tState t' = StateRetrying"
    using failing_attempt_eq [OF "3.prems"(2), of i] suc "3.prems"(3) by (auto simp: word_sle_eq)
  then have rq: "task_Requeue t' = Inr (t'\<lparr>tState := StateQueued\<rparr>)" by (simp add: task_Requeue_eq)
  have "\<exists>t''. failing_attempts (j # is) (t'\<lparr>tState := StateQueued\<rparr>) = Inr t'' \<and>
    sint (tAttempt t'') = sint (tAttempt t') + int (length (j # is)) \<and>
    tState t'' = (if sint (tAttempt t') + int (length (j # is)) = sint (tMaxRetries t')
                  then StateDead else StateRetrying)"
    using "3.IH" [of "t'\<lparr>tState := StateQueued\<rparr>"] t' suc "3.prems"(3) by simp
  with t' rq suc show ?case by (auto simp: algebra_simps)
qed simp

text \<open>
  \<open>MaxRetries\<close> counts executions, not retries. A queued task that fails every time is
  waiting for its next retry after each of the first \<open>MaxRetries - 1\<close> executions and is dead after
  exactly \<open>MaxRetries\<close> of them.
\<close>

theorem failing_attempts_exhaust:
  assumes "is \<noteq> []" and "tState t = StateQueued" and "tAttempt t = 0"
    and "int (length is) \<le> sint (tMaxRetries t)"
  shows "\<exists>t'. failing_attempts is t = Inr t' \<and> sint (tAttempt t') = int (length is) \<and>
    tState t' = (if int (length is) = sint (tMaxRetries t) then StateDead else StateRetrying)"
  using failing_attempts_count [OF assms(1,2)] assms(3,4) by simp

theorem failing_attempts_exhaust_witness:
  "\<forall>i. \<exists>t'. failing_attempts [i, i, i] (New 5 ''a'' ''a.sh'') = Inr t' \<and> tState t' = StateDead"
proof
  fix i
  have "\<exists>t'. failing_attempts [i, i, i] (New 5 ''a'' ''a.sh'') = Inr t' \<and>
    sint (tAttempt t') = int (length [i, i, i]) \<and>
    tState t' = (if int (length [i, i, i]) = sint (tMaxRetries (New 5 ''a'' ''a.sh''))
      then StateDead else StateRetrying)"
    by (rule failing_attempts_exhaust) (simp_all add: New_def)
  moreover have "sint (tMaxRetries (New 5 ''a'' ''a.sh'')) = 3" by (simp add: New_def)
  ultimately show "\<exists>t'. failing_attempts [i, i, i] (New 5 ''a'' ''a.sh'') = Inr t' \<and> tState t' = StateDead"
    by (auto simp del: failing_attempts.simps)
qed

end
