(* ===== verification/Scheduler.thy ===== *)
theory Scheduler
  imports GoHeap Task
begin

text \<open>
  The scheduler, \<open>src/internal/task/scheduler.go\<close>: the priority queue, the in-flight map, the retry
  queue, the dead letter queue and the window of completed tasks, with one definition per method.
  The struct holds pointers to tasks, so the model's fields hold references into the shared store
  \<open>m :: tasks\<close>, which the methods that change a task take and return. Every method that touches the
  struct holds \<open>s.mu\<close> from its first line to its return and is one atomic operation here.
\<close>

section \<open>State\<close>

text \<open>\<open>notify\<close> is a channel of capacity one: \<open>True\<close> when it holds a signal.\<close>

record scheduler =
  queue :: "ref list"
  retryQueue :: "ref list"
  deadLetter :: "ref list"
  inFlight :: "(string, ref) gomap"
  completed :: "ref list"
  taskTimeout :: duration
  totalCompleted :: int64
  totalFailed :: int64
  notify :: bool

definition maxCompleted :: nat where "maxCompleted = 100"

definition maxQueuedInDash :: nat where "maxQueuedInDash = 200"

text \<open>\<open>Less\<close>, on the two tasks it compares: higher priority first, then earlier creation.\<close>

definition pq_Less :: "tasks \<Rightarrow> ref \<Rightarrow> ref \<Rightarrow> bool" where
  "pq_Less m p q =
     (if tPriority (m p) \<noteq> tPriority (m q) then tPriority (m q) <s tPriority (m p)
      else time_Before (tCreatedAt (m p)) (tCreatedAt (m q)))"

section \<open>Methods\<close>

definition NewScheduler :: "tasks \<Rightarrow> duration \<Rightarrow> scheduler" where
  "NewScheduler m timeout =
     \<lparr>queue = heap_Init (pq_Less m) [], retryQueue = [], deadLetter = [], inFlight = [],
      completed = [], taskTimeout = timeout, totalCompleted = 0, totalFailed = 0, notify = False\<rparr>"

text \<open>The non-blocking send: a signal that is already there is enough.\<close>

definition Notify :: "scheduler \<Rightarrow> scheduler" where
  "Notify s = s\<lparr>notify := True\<rparr>"

definition push_queue :: "tasks \<Rightarrow> ref \<Rightarrow> scheduler \<Rightarrow> scheduler" where
  "push_queue m p s = s\<lparr>queue := heap_Push (pq_Less m) p (queue s)\<rparr>"

definition Enqueue :: "tasks \<Rightarrow> ref \<Rightarrow> scheduler \<Rightarrow> scheduler" where
  "Enqueue m p s = Notify (push_queue m p s)"

text \<open>\<open>heap_Pop\<close> is \<open>None\<close> exactly on the empty queue, where the code returns \<open>nil\<close> before it pops.\<close>

definition Dequeue :: "tasks \<Rightarrow> scheduler \<Rightarrow> ref option \<times> scheduler" where
  "Dequeue m s =
     (case heap_Pop (pq_Less m) (queue s) of
        None \<Rightarrow> (None, s)
      | Some (p, q) \<Rightarrow>
          let s = s\<lparr>queue := q, inFlight := gm_put (tID (m p)) p (inFlight s)\<rparr>
          in (Some p, if 0 < length (queue s) then Notify s else s))"

definition cap_completed :: "ref list \<Rightarrow> ref list" where
  "cap_completed ps = (if maxCompleted < length ps then drop (length ps - maxCompleted) ps else ps)"

definition sched_Complete ::
    "time \<Rightarrow> string \<Rightarrow> string \<Rightarrow> int32 \<Rightarrow> tasks \<times> scheduler \<Rightarrow> ref option \<times> tasks \<times> scheduler" where
  "sched_Complete now taskID output exitCode =
     (\<lambda>(m, s). case gm_get (inFlight s) taskID of
        None \<Rightarrow> (None, m, s)
      | Some p \<Rightarrow>
          (Some p,
           m(p := ignore_err (m p) (task_Complete now output exitCode (m p))),
           s\<lparr>inFlight := gm_del taskID (inFlight s),
             totalCompleted := totalCompleted s + 1,
             completed := cap_completed (completed s @ [p])\<rparr>))"

text \<open>What \<open>Fail\<close> and \<open>CheckTimeouts\<close> both do with a task they have just failed.\<close>

definition retry_or_dead :: "rt_env \<Rightarrow> ref \<Rightarrow> tasks \<times> scheduler \<Rightarrow> tasks \<times> scheduler" where
  "retry_or_dead rt p =
     (\<lambda>(m, s). let m = m(p := ignore_err (m p) (task_ScheduleRetry rt (m p))) in
        if tState (m p) = StateDead then (m, s\<lparr>deadLetter := deadLetter s @ [p]\<rparr>)
        else (m, s\<lparr>retryQueue := retryQueue s @ [p]\<rparr>))"

definition sched_Fail ::
    "time \<Rightarrow> rt_env \<Rightarrow> string \<Rightarrow> string \<Rightarrow> int32 \<Rightarrow> tasks \<times> scheduler \<Rightarrow> ref option \<times> tasks \<times> scheduler"
where
  "sched_Fail now rt taskID errMsg exitCode =
     (\<lambda>(m, s). case gm_get (inFlight s) taskID of
        None \<Rightarrow> (None, m, s)
      | Some p \<Rightarrow>
          let m = m(p := ignore_err (m p) (task_Fail now errMsg exitCode (m p)));
              s = s\<lparr>inFlight := gm_del taskID (inFlight s), totalFailed := totalFailed s + 1\<rparr>
          in (Some p, retry_or_dead rt p (m, s)))"

text \<open>
  The range over \<open>inFlight\<close> deletes the entry it stands on and no other, so it visits exactly the
  entries the map had at the start, in the order \<open>ks\<close> the runtime picks.
\<close>

definition requeue_body ::
    "string \<Rightarrow> string \<times> ref \<Rightarrow> nat \<times> tasks \<times> scheduler \<Rightarrow> nat \<times> tasks \<times> scheduler" where
  "requeue_body workerID =
     (\<lambda>(k, p) (cnt, m, s).
        if tWorkerID (m p) = workerID then
          let m = m(p := (m p)\<lparr>tState := StateQueued, tWorkerID := []\<rparr>)
          in (cnt + 1, m, push_queue m p (s\<lparr>inFlight := gm_del k (inFlight s)\<rparr>))
        else (cnt, m, s))"

definition RequeueFromWorker ::
    "string list \<Rightarrow> string \<Rightarrow> tasks \<times> scheduler \<Rightarrow> nat \<times> tasks \<times> scheduler" where
  "RequeueFromWorker ks workerID =
     (\<lambda>(m, s). case fold (requeue_body workerID) (gm_range ks (inFlight s)) (0, m, s) of
        (cnt, m, s) \<Rightarrow> (cnt, m, if 0 < cnt then Notify s else s))"

definition retries_body ::
    "time \<Rightarrow> ref \<Rightarrow> nat \<times> ref list \<times> tasks \<times> scheduler \<Rightarrow> nat \<times> ref list \<times> tasks \<times> scheduler"
where
  "retries_body now p =
     (\<lambda>(cnt, remaining, m, s).
        if time_After now (tNextRetryAt (m p)) then
          let m = m(p := ignore_err (m p) (task_Requeue (m p)))
          in (cnt + 1, remaining, m, push_queue m p s)
        else (cnt, remaining @ [p], m, s))"

definition ProcessRetries :: "time \<Rightarrow> tasks \<times> scheduler \<Rightarrow> nat \<times> tasks \<times> scheduler" where
  "ProcessRetries now =
     (\<lambda>(m, s). case fold (retries_body now) (retryQueue s) (0, [], m, s) of
        (cnt, remaining, m, s) \<Rightarrow>
          let s = s\<lparr>retryQueue := remaining\<rparr>
          in (cnt, m, if 0 < cnt then Notify s else s))"

text \<open>\<open>time.Duration(t.TimeoutSec) * time.Second\<close> wraps like any \<open>int64\<close> product.\<close>

definition timed_out :: "time \<Rightarrow> task \<Rightarrow> bool" where
  "timed_out now t \<longleftrightarrow>
     tState t = StateRunning \<and> 0 <s tTimeoutSec t \<and>
     time_After now (time_Add (tStartedAt t) (tTimeoutSec t * Second))"

definition timeouts_body ::
    "(ref \<Rightarrow> time \<times> rt_env) \<Rightarrow> ref \<Rightarrow> nat \<times> tasks \<times> scheduler \<Rightarrow> nat \<times> tasks \<times> scheduler" where
  "timeouts_body env p =
     (\<lambda>(cnt, m, s).
        let s = s\<lparr>inFlight := gm_del (tID (m p)) (inFlight s)\<rparr>;
            m = m(p := ignore_err (m p) (task_Fail (fst (env p)) ''task execution timed out'' (- 1) (m p)))
        in (cnt + 1, retry_or_dead (snd (env p)) p (m, s)))"

definition CheckTimeouts ::
    "time \<Rightarrow> (ref \<Rightarrow> time \<times> rt_env) \<Rightarrow> string list \<Rightarrow> tasks \<times> scheduler \<Rightarrow> nat \<times> tasks \<times> scheduler"
where
  "CheckTimeouts now env ks =
     (\<lambda>(m, s).
        let timedOut = filter (\<lambda>p. timed_out now (m p)) (map snd (gm_range ks (inFlight s)))
        in fold (timeouts_body env) timedOut (0, m, s))"

definition DeadLetterQueue :: "scheduler \<Rightarrow> ref list" where
  "DeadLetterQueue s = deadLetter s"

text \<open>\<open>pre\<close> is \<open>s.deadLetter[:i]\<close>, the part of the slice the search has passed.\<close>

fun dlq_loop :: "string \<Rightarrow> ref list \<Rightarrow> ref list \<Rightarrow> tasks \<times> scheduler \<Rightarrow> bool \<times> tasks \<times> scheduler" where
  "dlq_loop taskID pre [] (m, s) = (False, m, s)"
| "dlq_loop taskID pre (p # ps) (m, s) =
     (if tID (m p) = taskID then
        let s = s\<lparr>deadLetter := pre @ ps\<rparr>;
            m = m(p := ignore_err (m p) (task_RetryFromDLQ (m p)))
        in (True, m, Notify (push_queue m p s))
      else dlq_loop taskID (pre @ [p]) ps (m, s))"

definition sched_RetryFromDLQ :: "string \<Rightarrow> tasks \<times> scheduler \<Rightarrow> bool \<times> tasks \<times> scheduler" where
  "sched_RetryFromDLQ taskID = (\<lambda>(m, s). dlq_loop taskID [] (deadLetter s) (m, s))"

record stats =
  QueueDepth :: nat
  InFlight :: nat
  RetryPending :: nat
  DeadLettered :: nat
  TotalCompleted :: int64
  TotalFailed :: int64

definition Stats :: "scheduler \<Rightarrow> stats" where
  "Stats s = \<lparr>QueueDepth = length (queue s), InFlight = length (inFlight s),
     RetryPending = length (retryQueue s), DeadLettered = length (deadLetter s),
     TotalCompleted = totalCompleted s, TotalFailed = totalFailed s\<rparr>"

definition InFlightTasks :: "string list \<Rightarrow> scheduler \<Rightarrow> ref list" where
  "InFlightTasks ks s = map snd (gm_range ks (inFlight s))"

definition AllTasks :: "string list \<Rightarrow> scheduler \<Rightarrow> ref list" where
  "AllTasks ks s =
     (let queueLimit = (if maxQueuedInDash < length (queue s) then maxQueuedInDash else length (queue s));
          start = (if 50 < length (completed s) then length (completed s) - 50 else 0)
      in map (\<lambda>i. queue s ! i) [0..<queueLimit] @ map snd (gm_range ks (inFlight s)) @
         retryQueue s @ deadLetter s @ drop start (completed s))"

text \<open>What a single dispatcher takes out when it keeps dequeuing and nothing else happens.\<close>

fun dequeue_n :: "tasks \<Rightarrow> nat \<Rightarrow> scheduler \<Rightarrow> ref list" where
  "dequeue_n m 0 s = []"
| "dequeue_n m (Suc n) s =
     (case Dequeue m s of (None, s) \<Rightarrow> [] | (Some p, s) \<Rightarrow> p # dequeue_n m n s)"

section \<open>The operations as one system\<close>

text \<open>
  The calls the rest of the program makes on the scheduler, in any order: a submitted task is a new
  cell, and \<open>Touch\<close> is a change a caller makes to a task it holds a pointer to (\<open>Assign\<close>, \<open>Start\<close>).
\<close>

datatype sched_op =
    Submit ref task
  | Take
  | Finish time string string int32
  | Failed time rt_env string string int32
  | WorkerGone "string list" string
  | Retries time
  | Timeouts time "ref \<Rightarrow> time \<times> rt_env" "string list"
  | Revive string
  | Touch ref task

fun exec_op :: "sched_op \<Rightarrow> tasks \<times> scheduler \<Rightarrow> tasks \<times> scheduler" where
  "exec_op (Submit p t) (m, s) = (m(p := t), Enqueue (m(p := t)) p s)"
| "exec_op Take (m, s) = (m, snd (Dequeue m s))"
| "exec_op (Finish now k out code) (m, s) = snd (sched_Complete now k out code (m, s))"
| "exec_op (Failed now rt k msg code) (m, s) = snd (sched_Fail now rt k msg code (m, s))"
| "exec_op (WorkerGone ks w) (m, s) = snd (RequeueFromWorker ks w (m, s))"
| "exec_op (Retries now) (m, s) = snd (ProcessRetries now (m, s))"
| "exec_op (Timeouts now env ks) (m, s) = snd (CheckTimeouts now env ks (m, s))"
| "exec_op (Revive k) (m, s) = snd (sched_RetryFromDLQ k (m, s))"
| "exec_op (Touch p t) (m, s) = (m(p := t), s)"

text \<open>The tasks the scheduler still answers for, wherever it keeps them.\<close>

definition live :: "scheduler \<Rightarrow> ref multiset" where
  "live s = mset (queue s) + mset (map snd (inFlight s)) + mset (retryQueue s) + mset (deadLetter s)"

definition live_ids :: "tasks \<Rightarrow> scheduler \<Rightarrow> string multiset" where
  "live_ids m s = image_mset (\<lambda>p. tID (m p)) (live s)"

text \<open>
  A new task has a cell and an identifier of its own (the HTTP handlers build it from the clock's
  nanoseconds), the runtime's map order visits each entry once, and callers leave identity, priority
  and creation time alone.
\<close>

fun op_enabled :: "sched_op \<Rightarrow> tasks \<times> scheduler \<Rightarrow> bool" where
  "op_enabled (Submit p t) (m, s) = (p \<notin># live s \<and> tID t \<notin># live_ids m s)"
| "op_enabled (WorkerGone ks w) (m, s) = range_ok ks (inFlight s)"
| "op_enabled (Timeouts now env ks) (m, s) = range_ok ks (inFlight s)"
| "op_enabled (Touch p t) (m, s) = (task_key t = task_key (m p))"
| "op_enabled _ _ = True"

fun op_in :: "sched_op \<Rightarrow> tasks \<times> scheduler \<Rightarrow> ref multiset" where
  "op_in (Submit p t) _ = {#p#}"
| "op_in _ _ = {#}"

fun op_out :: "sched_op \<Rightarrow> tasks \<times> scheduler \<Rightarrow> ref multiset" where
  "op_out (Finish now k out code) (m, s) =
     (case gm_get (inFlight s) k of None \<Rightarrow> {#} | Some p \<Rightarrow> {#p#})"
| "op_out _ _ = {#}"

section \<open>The order of the queue\<close>

lemma pq_Less_iff:
  "pq_Less m p q \<longleftrightarrow>
     sint (tPriority (m q)) < sint (tPriority (m p)) \<or>
     tPriority (m p) = tPriority (m q) \<and> tCreatedAt (m p) < tCreatedAt (m q)"
  by (auto simp: pq_Less_def word_sless_alt time_Before_def)

lemma not_pq_Less_iff:
  "\<not> pq_Less m q p \<longleftrightarrow>
     sint (tPriority (m q)) < sint (tPriority (m p)) \<or>
     tPriority (m q) = tPriority (m p) \<and> tCreatedAt (m p) \<le> tCreatedAt (m q)"
  using sint_eq_iff [of "tPriority (m q)" "tPriority (m p)"] by (auto simp: pq_Less_iff)

interpretation pq: weak_order "pq_Less m" for m
proof unfold_locales
  fix x y z
  show "pq_Less m x y \<Longrightarrow> \<not> pq_Less m y x" by (auto simp: pq_Less_iff)
  show "\<not> pq_Less m x y \<Longrightarrow> \<not> pq_Less m y z \<Longrightarrow> \<not> pq_Less m x z"
    by (auto simp: pq_Less_iff not_less) (metis order.antisym signed_word_eqI order.trans)+
qed

text \<open>The order looks at the priority and the creation time only.\<close>

definition same_keys :: "tasks \<Rightarrow> tasks \<Rightarrow> bool" where
  "same_keys m m' \<longleftrightarrow> (\<forall>p. task_key (m' p) = task_key (m p))"

lemma same_keys_refl [simp, intro]: "same_keys m m"
  by (simp add: same_keys_def)

lemma same_keys_trans [trans]: "same_keys m m' \<Longrightarrow> same_keys m' m'' \<Longrightarrow> same_keys m m''"
  by (simp add: same_keys_def)

lemma same_keys_upd [intro]: "task_key t = task_key (m p) \<Longrightarrow> same_keys m (m(p := t))"
  by (simp add: same_keys_def)

lemma same_keys_ID: "same_keys m m' \<Longrightarrow> tID (m' p) = tID (m p)"
  by (simp add: same_keys_def task_key_def)

lemma same_keys_pq_Less: "same_keys m m' \<Longrightarrow> pq_Less m' = pq_Less m"
  by (intro ext) (simp add: same_keys_def task_key_def pq_Less_def)

text \<open>Hence a change to a task that keeps its key changes no comparison.\<close>

lemma pq_Less_upd [simp]: "task_key t = task_key (m p) \<Longrightarrow> pq_Less (m(p := t)) = pq_Less m"
  by (rule same_keys_pq_Less) (rule same_keys_upd)

lemma push_queue_upd [simp]:
  "task_key t = task_key (m p) \<Longrightarrow> push_queue (m(p := t)) q s = push_queue m q s"
  by (simp add: push_queue_def)

lemma same_keys_upd_left [simp]:
  "task_key t = task_key (m p) \<Longrightarrow> same_keys (m(p := t)) m' = same_keys m m'"
  by (auto simp: same_keys_def)

section \<open>The representation invariant\<close>

definition keyed :: "tasks \<Rightarrow> (string, ref) gomap \<Rightarrow> bool" where
  "keyed m f \<longleftrightarrow> gm_ok f \<and> (\<forall>(k, p) \<in> set f. k = tID (m p))"

definition sched_inv :: "tasks \<Rightarrow> scheduler \<Rightarrow> bool" where
  "sched_inv m s \<longleftrightarrow>
     heap_ordered (pq_Less m) (queue s) \<and> keyed m (inFlight s) \<and>
     length (completed s) \<le> maxCompleted"

lemma keyed_same_keys: "same_keys m m' \<Longrightarrow> keyed m' f = keyed m f"
  by (auto simp: keyed_def same_keys_ID)

lemma keyed_del: "keyed m f \<Longrightarrow> keyed m (gm_del k f)"
  by (auto simp: keyed_def gm_get_iff_mem [symmetric] split: if_splits)

lemma keyed_put: "keyed m f \<Longrightarrow> keyed m (gm_put (tID (m p)) p f)"
  unfolding keyed_def
  by (auto simp: gm_get_iff_mem [symmetric] split: if_splits)

lemma keyed_get: "keyed m f \<Longrightarrow> gm_get f k = Some p \<Longrightarrow> tID (m p) = k"
  by (auto simp: keyed_def dest: gm_get_in_set)

lemma sched_inv_same_keys: "same_keys m m' \<Longrightarrow> sched_inv m' s = sched_inv m s"
  by (simp add: sched_inv_def keyed_same_keys same_keys_pq_Less)

lemma sched_inv_upd [simp]:
  "task_key t = task_key (m p) \<Longrightarrow> sched_inv (m(p := t)) s = sched_inv m s"
  by (rule sched_inv_same_keys) (rule same_keys_upd)

lemma sched_inv_Notify [simp]: "sched_inv m (Notify s) = sched_inv m s"
  by (simp add: sched_inv_def Notify_def)

lemma sched_inv_push [intro]: "sched_inv m s \<Longrightarrow> sched_inv m (push_queue m p s)"
  by (simp add: sched_inv_def push_queue_def pq.heap_Push_ordered del: length_heap_Push)

lemma sched_inv_del [intro]:
  "sched_inv m s \<Longrightarrow> sched_inv m (s\<lparr>inFlight := gm_del k (inFlight s)\<rparr>)"
  by (simp add: sched_inv_def keyed_del)

lemma length_cap_completed: "length (cap_completed ps) \<le> maxCompleted"
  by (simp add: cap_completed_def)

section \<open>Each method keeps the invariant\<close>

lemma sched_inv_Enqueue: "sched_inv m s \<Longrightarrow> sched_inv m (Enqueue m p s)"
  by (simp add: Enqueue_def sched_inv_push)

lemma sched_inv_Dequeue: "sched_inv m s \<Longrightarrow> sched_inv m (snd (Dequeue m s))"
proof -
  assume inv: "sched_inv m s"
  show ?thesis
  proof (cases "heap_Pop (pq_Less m) (queue s)")
    case (Some r)
    obtain p q where r: "r = (p, q)" by force
    with inv Some have "heap_ordered (pq_Less m) q"
      by (auto simp: sched_inv_def intro: pq.hq.invar_pop)
    with inv Some r show ?thesis
      by (simp add: Dequeue_def Let_def sched_inv_def keyed_put Notify_def)
  qed (use inv in \<open>simp add: Dequeue_def\<close>)
qed

lemma sched_Complete_keys:
  "sched_Complete now k out code (m, s) = (r, m', s') \<Longrightarrow> same_keys m m'"
  by (auto simp: sched_Complete_def split: option.splits)

lemma sched_inv_Complete:
  assumes "sched_inv m s" and c: "sched_Complete now k out code (m, s) = (r, m', s')"
  shows "sched_inv m' s'"
  using assms(1) c unfolding sched_inv_same_keys [OF sched_Complete_keys [OF c]]
  by (auto simp: sched_Complete_def sched_inv_def keyed_del length_cap_completed split: option.splits)

lemma retry_or_dead_keys: "retry_or_dead rt p (m, s) = (m', s') \<Longrightarrow> same_keys m m'"
  by (auto simp: retry_or_dead_def Let_def split: if_splits)

lemma retry_or_dead_frame:
  assumes "retry_or_dead rt p (m, s) = (m', s')"
  shows "queue s' = queue s \<and> inFlight s' = inFlight s \<and> completed s' = completed s \<and>
    totalFailed s' = totalFailed s \<and> totalCompleted s' = totalCompleted s \<and> notify s' = notify s \<and>
    (\<forall>q. q \<noteq> p \<longrightarrow> m' q = m q) \<and>
    (tState (m' p) = StateDead \<and> deadLetter s' = deadLetter s @ [p] \<and> retryQueue s' = retryQueue s \<or>
     tState (m' p) \<noteq> StateDead \<and> deadLetter s' = deadLetter s \<and> retryQueue s' = retryQueue s @ [p])"
  using assms by (auto simp: retry_or_dead_def Let_def split: if_splits)

lemma retry_or_dead_inv:
  assumes "sched_inv m s" and r: "retry_or_dead rt p (m, s) = (m', s')"
  shows "sched_inv m' s'"
  using assms(1) retry_or_dead_frame [OF r] unfolding sched_inv_same_keys [OF retry_or_dead_keys [OF r]]
  by (simp add: sched_inv_def)

lemma sched_Fail_cases:
  assumes "sched_Fail now rt k msg code (m, s) = (r, m', s')"
  obtains "gm_get (inFlight s) k = None" "r = None" "m' = m" "s' = s"
  | p where "gm_get (inFlight s) k = Some p" "r = Some p"
      "retry_or_dead rt p (m(p := ignore_err (m p) (task_Fail now msg code (m p))),
         s\<lparr>inFlight := gm_del k (inFlight s), totalFailed := totalFailed s + 1\<rparr>) = (m', s')"
  using assms by (auto simp: sched_Fail_def Let_def split: option.splits)

lemma sched_Fail_keys: "sched_Fail now rt k msg code (m, s) = (r, m', s') \<Longrightarrow> same_keys m m'"
  by (erule sched_Fail_cases) (auto dest: retry_or_dead_keys)

lemma sched_inv_Fail:
  assumes inv: "sched_inv m s" and f: "sched_Fail now rt k msg code (m, s) = (r, m', s')"
  shows "sched_inv m' s'"
  using f
proof (cases rule: sched_Fail_cases)
  case (2 p)
  let ?m = "m(p := ignore_err (m p) (task_Fail now msg code (m p)))"
  have "sched_inv ?m (s\<lparr>inFlight := gm_del k (inFlight s), totalFailed := totalFailed s + 1\<rparr>)"
    using inv keyed_same_keys [OF same_keys_upd [of _ m p]] by (simp add: sched_inv_def keyed_del)
  with 2(3) show ?thesis by (blast intro: retry_or_dead_inv)
qed (use inv in simp)

text \<open>
  The loops: a fact that each turn of the body keeps holds after the loop. \<open>kept m0 m s\<close> is what
  every turn keeps, the invariant and the tasks' keys since the loop began.
\<close>

definition kept :: "tasks \<Rightarrow> tasks \<Rightarrow> scheduler \<Rightarrow> bool" where
  "kept m0 m s \<longleftrightarrow> same_keys m0 m \<and> sched_inv m s"

lemma kept_upd:
  "kept m0 m s \<Longrightarrow> task_key t = task_key (m p) \<Longrightarrow> kept m0 (m(p := t)) s"
  by (auto simp: kept_def intro: same_keys_trans same_keys_upd)

lemma kept_push: "kept m0 m s \<Longrightarrow> kept m0 m (push_queue m p s)"
  by (simp add: kept_def sched_inv_push)

lemma kept_del: "kept m0 m s \<Longrightarrow> kept m0 m (s\<lparr>inFlight := gm_del k (inFlight s)\<rparr>)"
  by (simp add: kept_def sched_inv_del)

lemma kept_retry_or_dead:
  "kept m0 m s \<Longrightarrow> retry_or_dead rt p (m, s) = (m', s') \<Longrightarrow> kept m0 m' s'"
  unfolding kept_def by (blast intro: same_keys_trans retry_or_dead_inv retry_or_dead_keys)

lemma requeue_body_kept:
  "requeue_body w e (c, m, s) = (c', m', s') \<Longrightarrow> kept m0 m s \<Longrightarrow> kept m0 m' s'"
  by (auto simp: requeue_body_def Let_def intro!: kept_upd kept_push kept_del
      split: prod.splits if_splits simp del: push_queue_upd)

lemma retries_body_kept:
  "retries_body now p (c, rem, m, s) = (c', rem', m', s') \<Longrightarrow> kept m0 m s \<Longrightarrow> kept m0 m' s'"
  by (auto simp: retries_body_def Let_def intro!: kept_upd kept_push
      split: if_splits simp del: push_queue_upd)

lemma timeouts_body_kept:
  "timeouts_body env p (c, m, s) = (c', m', s') \<Longrightarrow> kept m0 m s \<Longrightarrow> kept m0 m' s'"
proof -
  assume b: "timeouts_body env p (c, m, s) = (c', m', s')" and k: "kept m0 m s"
  let ?m = "m(p := ignore_err (m p) (task_Fail (fst (env p)) ''task execution timed out'' (- 1) (m p)))"
  let ?s = "s\<lparr>inFlight := gm_del (tID (m p)) (inFlight s)\<rparr>"
  from k have "kept m0 ?m ?s" by (intro kept_upd kept_del) simp_all
  moreover from b have "retry_or_dead (snd (env p)) p (?m, ?s) = (m', s')"
    by (simp add: timeouts_body_def Let_def)
  ultimately show ?thesis by (rule kept_retry_or_dead)
qed

lemma fold_kept3:
  assumes "\<And>x c m s c' m' s'. f x (c, m, s) = (c', m', s') \<Longrightarrow> kept m0 m s \<Longrightarrow> kept m0 m' s'"
    and "fold f xs (c, m, s) = (c', m', s')" and "kept m0 m s"
  shows "kept m0 m' s'"
  using assms(2,3)
proof (induction xs arbitrary: c m s)
  case (Cons x xs)
  obtain c1 m1 s1 where f: "f x (c, m, s) = (c1, m1, s1)" by (metis prod_cases3)
  with Cons assms(1) [OF f] show ?case by simp
qed simp

lemma fold_kept4:
  assumes "\<And>x c r m s c' r' m' s'. f x (c, r, m, s) = (c', r', m', s') \<Longrightarrow> kept m0 m s \<Longrightarrow> kept m0 m' s'"
    and "fold f xs (c, r, m, s) = (c', r', m', s')" and "kept m0 m s"
  shows "kept m0 m' s'"
  using assms(2,3)
proof (induction xs arbitrary: c r m s)
  case (Cons x xs)
  obtain c1 r1 m1 s1 where f: "f x (c, r, m, s) = (c1, r1, m1, s1)" by (metis prod_cases4)
  with Cons assms(1) [OF f] show ?case by simp
qed simp

lemma kept_start: "sched_inv m s \<Longrightarrow> kept m m s"
  by (simp add: kept_def)

lemma RequeueFromWorker_fold:
  assumes "RequeueFromWorker ks w (m, s) = (c, m', s')"
  obtains s1 where "fold (requeue_body w) (gm_range ks (inFlight s)) (0, m, s) = (c, m', s1)"
    "s' = (if 0 < c then Notify s1 else s1)"
  using assms by (cases "fold (requeue_body w) (gm_range ks (inFlight s)) (0, m, s)")
    (auto simp: RequeueFromWorker_def)

lemma ProcessRetries_fold:
  assumes "ProcessRetries now (m, s) = (c, m', s')"
  obtains rem s1 where "fold (retries_body now) (retryQueue s) (0, [], m, s) = (c, rem, m', s1)"
    "s' = (if 0 < c then Notify (s1\<lparr>retryQueue := rem\<rparr>) else s1\<lparr>retryQueue := rem\<rparr>)"
  using assms by (cases "fold (retries_body now) (retryQueue s) (0, [], m, s)")
    (auto simp: ProcessRetries_def Let_def)

lemma kept_Notify [simp]: "kept m0 m (Notify s) = kept m0 m s"
  by (simp add: kept_def)

lemma kept_retryQueue [simp]: "kept m0 m (s\<lparr>retryQueue := ps\<rparr>) = kept m0 m s"
  by (simp add: kept_def sched_inv_def)

lemma kept_RequeueFromWorker:
  assumes "RequeueFromWorker ks w (m, s) = (c, m', s')" and inv: "sched_inv m s"
  shows "kept m m' s'"
proof -
  obtain s1 where f: "fold (requeue_body w) (gm_range ks (inFlight s)) (0, m, s) = (c, m', s1)"
    and s': "s' = (if 0 < c then Notify s1 else s1)"
    using assms(1) by (rule RequeueFromWorker_fold)
  have "kept m m' s1"
    by (rule fold_kept3 [OF _ f kept_start [OF inv]]) (rule requeue_body_kept)
  then show ?thesis by (simp add: s')
qed

lemma kept_ProcessRetries:
  assumes "ProcessRetries now (m, s) = (c, m', s')" and inv: "sched_inv m s"
  shows "kept m m' s'"
proof -
  obtain rem s1 where f: "fold (retries_body now) (retryQueue s) (0, [], m, s) = (c, rem, m', s1)"
    and s': "s' = (if 0 < c then Notify (s1\<lparr>retryQueue := rem\<rparr>) else s1\<lparr>retryQueue := rem\<rparr>)"
    using assms(1) by (rule ProcessRetries_fold)
  have "kept m m' s1"
    by (rule fold_kept4 [OF _ f kept_start [OF inv]]) (rule retries_body_kept)
  then show ?thesis by (simp add: s')
qed

lemma kept_CheckTimeouts:
  assumes "CheckTimeouts now env ks (m, s) = (c, m', s')" and inv: "sched_inv m s"
  shows "kept m m' s'"
proof -
  have f: "fold (timeouts_body env)
      (filter (\<lambda>p. timed_out now (m p)) (map snd (gm_range ks (inFlight s)))) (0, m, s) = (c, m', s')"
    using assms(1) by (simp add: CheckTimeouts_def)
  show ?thesis by (rule fold_kept3 [OF _ f kept_start [OF inv]]) (rule timeouts_body_kept)
qed

lemma dlq_loop_result:
  "dlq_loop k pre ps (m, s) =
     (case dropWhile (\<lambda>p. tID (m p) \<noteq> k) ps of
        [] \<Rightarrow> (False, m, s)
      | p # post \<Rightarrow>
          let m' = m(p := ignore_err (m p) (task_RetryFromDLQ (m p)))
          in (True, m', Notify (push_queue m' p
               (s\<lparr>deadLetter := pre @ takeWhile (\<lambda>p. tID (m p) \<noteq> k) ps @ post\<rparr>))))"
  by (induction ps arbitrary: pre)
    (auto simp: Let_def simp del: dropWhile_eq_Nil_conv split: list.split)

lemma kept_RetryFromDLQ:
  "sched_RetryFromDLQ k (m, s) = (b, m', s') \<Longrightarrow> sched_inv m s \<Longrightarrow> kept m m' s'"
  by (auto simp: sched_RetryFromDLQ_def dlq_loop_result Let_def kept_def sched_inv_def push_queue_def
      Notify_def keyed_same_keys [OF same_keys_upd] pq.heap_Push_ordered
      simp del: length_heap_Push split: list.splits)

section \<open>What the loops do, entry by entry\<close>

text \<open>The fields that a move between the queue and the in-flight map leaves alone.\<close>

definition same_rest :: "scheduler \<Rightarrow> scheduler \<Rightarrow> bool" where
  "same_rest s s' \<longleftrightarrow>
     retryQueue s' = retryQueue s \<and> deadLetter s' = deadLetter s \<and> completed s' = completed s \<and>
     taskTimeout s' = taskTimeout s \<and> totalCompleted s' = totalCompleted s \<and>
     totalFailed s' = totalFailed s"

text \<open>The state a requeued task is left in.\<close>

definition requeued :: "task \<Rightarrow> task" where
  "requeued t = t\<lparr>tState := StateQueued, tWorkerID := []\<rparr>"

lemma requeue_fold:
  assumes "distinct (map snd es)" and "fold (requeue_body w) es (c, m, s) = (c', m', s')"
    and "hit = filter (\<lambda>(k, p). tWorkerID (m p) = w) es"
  shows "c' = c + length hit \<and>
    m' = (\<lambda>p. if p \<in> snd ` set hit then requeued (m p) else m p) \<and>
    mset (queue s') = mset (queue s) + mset (map snd hit) \<and>
    inFlight s' = filter (\<lambda>(k, p). k \<notin> fst ` set hit) (inFlight s) \<and>
    notify s' = notify s \<and> same_rest s s'"
  using assms
proof (induction es arbitrary: c m s hit)
  case (Cons e es)
  obtain k p where e: "e = (k, p)" by force
  let ?hit = "filter (\<lambda>(k, p). tWorkerID (m p) = w) es"
  have same: "filter (\<lambda>(k, q). tWorkerID ((m(p := t)) q) = w) es = ?hit" for t
    using Cons.prems(1) e by (intro filter_cong) (auto simp: image_iff)
  have np: "p \<notin> snd ` set ?hit" using Cons.prems(1) e by auto
  show ?case
  proof (cases "tWorkerID (m p) = w")
    case True
    let ?m = "m(p := requeued (m p))"
    let ?s = "push_queue ?m p (s\<lparr>inFlight := gm_del k (inFlight s)\<rparr>)"
    have f: "fold (requeue_body w) es (c + 1, ?m, ?s) = (c', m', s')"
      using Cons.prems(2) True by (simp add: e requeue_body_def requeued_def Let_def)
    have hit: "hit = (k, p) # ?hit" using Cons.prems(3) True e by simp
    note IH = Cons.IH [OF _ f refl, unfolded same]
    show ?thesis
      using IH Cons.prems(1) np
      by (auto simp: hit e push_queue_def mset_heap_Push gm_del_def AList.delete_eq fun_eq_iff
          conj_commute same_rest_def intro!: filter_cong)
  next
    case False
    have f: "fold (requeue_body w) es (c, m, s) = (c', m', s')"
      using Cons.prems(2) False by (simp add: e requeue_body_def)
    have hit: "hit = ?hit" using Cons.prems(3) False e by simp
    have "distinct (map snd es)" using Cons.prems(1) by simp
    from Cons.IH [OF this f hit] show ?thesis .
  qed
qed (simp add: same_rest_def)

text \<open>The entries of a keyed map differ in their tasks, too.\<close>

lemma keyed_distinct_refs: "keyed m f \<Longrightarrow> distinct (map snd f)"
proof -
  assume k: "keyed m f"
  have "inj_on snd (set f)"
  proof (rule inj_onI)
    fix a b assume "a \<in> set f" "b \<in> set f" "snd a = snd b"
    with k have "fst a = tID (m (snd a))" "fst b = tID (m (snd b))" by (auto simp: keyed_def)
    with \<open>snd a = snd b\<close> show "a = b" by (simp add: prod_eq_iff)
  qed
  with k show ?thesis by (simp add: keyed_def gm_ok_def distinct_map)
qed

lemma range_distinct_refs:
  assumes "keyed m f" and "range_ok ks f"
  shows "distinct (map snd (gm_range ks f))"
proof -
  have "mset (map snd (gm_range ks f)) = mset (map snd f)"
    using gm_range_mset [OF assms(2)] assms(1) by (simp add: keyed_def)
  then show ?thesis
    using keyed_distinct_refs [OF assms(1)] by (metis mset_eq_imp_distinct_iff)
qed

lemma set_gm_range: "gm_ok f \<Longrightarrow> range_ok ks f \<Longrightarrow> set (gm_range ks f) = set f"
  by (metis gm_range_mset set_mset_mset)

lemma keyed_filter_keys:
  assumes "keyed m f" and "set g = {e \<in> set f. P (snd e)}"
  shows "filter (\<lambda>(k, p). k \<notin> fst ` set g) f = filter (\<lambda>(k, p). \<not> P p) f"
proof (rule filter_cong)
  fix e assume e: "e \<in> set f"
  obtain k p where [simp]: "e = (k, p)" by force
  have "k \<in> fst ` set g \<longleftrightarrow> P p"
  proof
    assume "k \<in> fst ` set g"
    then obtain q where "(k, q) \<in> set f" "P q" using assms(2) by auto
    with e assms(1) show "P p" by (auto simp: keyed_def gm_get_iff_mem [symmetric])
  qed (use e assms(2) in force)
  then show "(case e of (k, p) \<Rightarrow> k \<notin> fst ` set g) = (case e of (k, p) \<Rightarrow> \<not> P p)" by simp
qed simp

lemma RequeueFromWorker_exact:
  assumes inv: "sched_inv m s" and ok: "range_ok ks (inFlight s)"
    and rq: "RequeueFromWorker ks w (m, s) = (c, m', s')"
    and hit: "hit = filter (\<lambda>(k, p). tWorkerID (m p) = w) (inFlight s)"
  shows "c = length hit \<and>
    m' = (\<lambda>p. if p \<in> snd ` set hit then requeued (m p) else m p) \<and>
    mset (queue s') = mset (queue s) + mset (map snd hit) \<and>
    inFlight s' = filter (\<lambda>(k, p). tWorkerID (m p) \<noteq> w) (inFlight s) \<and>
    notify s' = (notify s \<or> hit \<noteq> []) \<and> same_rest s s'"
proof -
  obtain s1 where f: "fold (requeue_body w) (gm_range ks (inFlight s)) (0, m, s) = (c, m', s1)"
    and s': "s' = (if 0 < c then Notify s1 else s1)"
    using rq by (rule RequeueFromWorker_fold)
  have k: "keyed m (inFlight s)" using inv by (simp add: sched_inv_def)
  then have gk: "gm_ok (inFlight s)" by (simp add: keyed_def)
  let ?hit = "filter (\<lambda>(k, p). tWorkerID (m p) = w) (gm_range ks (inFlight s))"
  have mhit: "mset ?hit = mset hit" using gm_range_mset [OF ok gk] by (simp add: hit)
  have shit: "set ?hit = set hit" using mhit by (metis set_mset_mset)
  have sub: "set ?hit = {e \<in> set (inFlight s). tWorkerID (m (snd e)) = w}"
    using shit by (auto simp: hit)
  note F = requeue_fold [OF range_distinct_refs [OF k ok] f refl]
  have "length ?hit = length hit" using mhit by (metis size_mset)
  moreover have "mset (map snd ?hit) = mset (map snd hit)" using mhit by simp
  ultimately have c: "c = length hit" and q: "mset (queue s1) = mset (queue s) + mset (map snd hit)"
    using F by simp_all
  have i: "inFlight s1 = filter (\<lambda>(k, p). tWorkerID (m p) \<noteq> w) (inFlight s)"
    using F keyed_filter_keys [OF k sub] by simp
  have m': "m' = (\<lambda>p. if p \<in> snd ` set hit then requeued (m p) else m p)" using F shit by simp
  have "notify s1 = notify s" "same_rest s s1" using F by blast+
  with c q i m' show ?thesis by (auto simp: s' Notify_def same_rest_def)
qed

text \<open>\<open>Requeue\<close> of a task that is already queued is refused, so requeuing twice is requeuing once.\<close>

definition retried :: "task \<Rightarrow> task" where
  "retried t = ignore_err t (task_Requeue t)"

lemma retried_simps [simp]:
  "retried (retried t) = retried t"
  "tNextRetryAt (retried t) = tNextRetryAt t"
  "task_key (retried t) = task_key t"
  by (simp_all add: retried_def task_Requeue_eq task_key_def)

lemma retries_body_simps:
  "time_After now (tNextRetryAt (m p)) \<Longrightarrow> retries_body now p (c, rem, m, s) =
     (c + 1, rem, m(p := retried (m p)), push_queue (m(p := retried (m p))) p s)"
  "\<not> time_After now (tNextRetryAt (m p)) \<Longrightarrow> retries_body now p (c, rem, m, s) = (c, rem @ [p], m, s)"
  by (simp_all add: retries_body_def retried_def Let_def)

lemma retries_fold:
  assumes "fold (retries_body now) ps (c, rem, m, s) = (c', rem', m', s')"
    and "due = filter (\<lambda>p. time_After now (tNextRetryAt (m p))) ps"
  shows "c' = c + length due \<and>
    rem' = rem @ filter (\<lambda>p. \<not> time_After now (tNextRetryAt (m p))) ps \<and>
    m' = (\<lambda>p. if p \<in> set due then retried (m p) else m p) \<and>
    mset (queue s') = mset (queue s) + mset due \<and>
    inFlight s' = inFlight s \<and> notify s' = notify s \<and> same_rest s s'"
  using assms
proof (induction ps arbitrary: c rem m s due)
  case (Cons p ps)
  show ?case
  proof (cases "time_After now (tNextRetryAt (m p))")
    case True
    let ?m = "m(p := retried (m p))"
    have f: "fold (retries_body now) ps (c + 1, rem, ?m, push_queue ?m p s) = (c', rem', m', s')"
      using Cons.prems(1) True by (simp add: retries_body_simps)
    have same: "time_After now (tNextRetryAt (?m q)) = time_After now (tNextRetryAt (m q))" for q
      by simp
    show ?thesis
      using Cons.IH [OF f refl, unfolded same] Cons.prems(2) True
      by (auto simp: fun_eq_iff push_queue_def mset_heap_Push same_rest_def)
  next
    case False
    then have f: "fold (retries_body now) ps (c, rem @ [p], m, s) = (c', rem', m', s')"
      using Cons.prems(1) by (simp add: retries_body_simps)
    show ?thesis using Cons.IH [OF f] Cons.prems(2) False by auto
  qed
qed (simp add: same_rest_def)

lemma ProcessRetries_exact:
  assumes "ProcessRetries now (m, s) = (c, m', s')"
    and due: "due = filter (\<lambda>p. time_After now (tNextRetryAt (m p))) (retryQueue s)"
  shows "c = length due \<and>
    m' = (\<lambda>p. if p \<in> set due then retried (m p) else m p) \<and>
    mset (queue s') = mset (queue s) + mset due \<and>
    retryQueue s' = filter (\<lambda>p. \<not> time_After now (tNextRetryAt (m p))) (retryQueue s) \<and>
    notify s' = (notify s \<or> due \<noteq> []) \<and>
    inFlight s' = inFlight s \<and> deadLetter s' = deadLetter s \<and> completed s' = completed s \<and>
    totalCompleted s' = totalCompleted s \<and> totalFailed s' = totalFailed s"
proof -
  obtain rem s1 where f: "fold (retries_body now) (retryQueue s) (0, [], m, s) = (c, rem, m', s1)"
    and s': "s' = (if 0 < c then Notify (s1\<lparr>retryQueue := rem\<rparr>) else s1\<lparr>retryQueue := rem\<rparr>)"
    using assms(1) by (rule ProcessRetries_fold)
  show ?thesis using retries_fold [OF f due] by (auto simp: s' Notify_def same_rest_def)
qed

text \<open>A task that timed out: failed, then put on the path \<open>ScheduleRetry\<close> picks.\<close>

definition expired :: "time \<times> rt_env \<Rightarrow> task \<Rightarrow> task" where
  "expired e t =
     (let t = ignore_err t (task_Fail (fst e) ''task execution timed out'' (- 1) t)
      in ignore_err t (task_ScheduleRetry (snd e) t))"

lemma timeouts_fold:
  assumes "distinct ps" and "fold (timeouts_body env) ps (c, m, s) = (c', m', s')"
  shows "c' = c + length ps \<and>
    m' = (\<lambda>p. if p \<in> set ps then expired (env p) (m p) else m p) \<and>
    inFlight s' = filter (\<lambda>(k, p). k \<notin> (\<lambda>p. tID (m p)) ` set ps) (inFlight s) \<and>
    deadLetter s' = deadLetter s @ filter (\<lambda>p. tState (expired (env p) (m p)) = StateDead) ps \<and>
    retryQueue s' = retryQueue s @ filter (\<lambda>p. tState (expired (env p) (m p)) \<noteq> StateDead) ps \<and>
    queue s' = queue s \<and> completed s' = completed s \<and> notify s' = notify s \<and>
    totalCompleted s' = totalCompleted s \<and> totalFailed s' = totalFailed s"
  using assms
proof (induction ps arbitrary: c m s)
  case (Cons p ps)
  obtain m1 s1 where b: "timeouts_body env p (c, m, s) = (c + 1, m1, s1)"
    by (cases "retry_or_dead (snd (env p)) p (m(p := ignore_err (m p) (task_Fail (fst (env p))
       ''task execution timed out'' (- 1) (m p))), s\<lparr>inFlight := gm_del (tID (m p)) (inFlight s)\<rparr>)")
      (simp add: timeouts_body_def)
  then have m1: "m1 = m(p := expired (env p) (m p))"
    by (auto simp: timeouts_body_def retry_or_dead_def expired_def Let_def split: if_splits)
  have s1: "queue s1 = queue s \<and> completed s1 = completed s \<and> notify s1 = notify s \<and>
    totalCompleted s1 = totalCompleted s \<and> totalFailed s1 = totalFailed s \<and>
    inFlight s1 = gm_del (tID (m p)) (inFlight s) \<and>
    deadLetter s1 = deadLetter s @ filter (\<lambda>p. tState (expired (env p) (m p)) = StateDead) [p] \<and>
    retryQueue s1 = retryQueue s @ filter (\<lambda>p. tState (expired (env p) (m p)) \<noteq> StateDead) [p]"
    using b by (auto simp: timeouts_body_def retry_or_dead_def expired_def Let_def split: if_splits)
  have f: "fold (timeouts_body env) ps (c + 1, m1, s1) = (c', m', s')"
    using Cons.prems(2) b by simp
  have p: "p \<notin> set ps" using Cons.prems(1) by simp
  have same: "\<And>P. filter (\<lambda>q. P (env q) (m1 q)) ps = filter (\<lambda>q. P (env q) (m q)) ps"
    "(\<lambda>q. tID (m1 q)) ` set ps = (\<lambda>q. tID (m q)) ` set ps"
    using p by (auto simp: m1 intro!: filter_cong)
  have "distinct ps" using Cons.prems(1) by simp
  from Cons.IH [OF this f, unfolded same(2) same(1) [of "\<lambda>e t. tState (expired e t) = StateDead"]
      same(1) [of "\<lambda>e t. tState (expired e t) \<noteq> StateDead"]]
  show ?case
    using s1 p by (auto simp: m1 fun_eq_iff gm_del_def AList.delete_eq intro!: filter_cong)
qed simp

lemma CheckTimeouts_exact:
  assumes inv: "sched_inv m s" and ok: "range_ok ks (inFlight s)"
    and ct: "CheckTimeouts now env ks (m, s) = (c, m', s')"
  shows "\<exists>out. set out = {p \<in> gm_ran (inFlight s). timed_out now (m p)} \<and> distinct out \<and>
    c = length out \<and>
    m' = (\<lambda>p. if p \<in> set out then expired (env p) (m p) else m p) \<and>
    inFlight s' = filter (\<lambda>(k, p). \<not> timed_out now (m p)) (inFlight s) \<and>
    deadLetter s' = deadLetter s @ filter (\<lambda>p. tState (m' p) = StateDead) out \<and>
    retryQueue s' = retryQueue s @ filter (\<lambda>p. tState (m' p) \<noteq> StateDead) out \<and>
    queue s' = queue s \<and> completed s' = completed s \<and> notify s' = notify s \<and>
    totalCompleted s' = totalCompleted s \<and> totalFailed s' = totalFailed s"
proof -
  define out where "out = filter (\<lambda>p. timed_out now (m p)) (map snd (gm_range ks (inFlight s)))"
  have f: "fold (timeouts_body env) out (0, m, s) = (c, m', s')"
    using ct by (simp add: CheckTimeouts_def out_def)
  have k: "keyed m (inFlight s)" using inv by (simp add: sched_inv_def)
  have d: "distinct out" using range_distinct_refs [OF k ok] by (simp add: out_def)
  have sout: "set out = {p \<in> gm_ran (inFlight s). timed_out now (m p)}"
    using set_gm_range [OF _ ok] k by (auto simp: keyed_def gm_ran_def out_def)
  note F = timeouts_fold [OF d f]
  let ?g = "filter (\<lambda>e. timed_out now (m (snd e))) (inFlight s)"
  have "(\<lambda>p. tID (m p)) ` set out = fst ` set ?g"
    unfolding sout using k by (force simp: keyed_def gm_ran_def)
  then have e1: "filter (\<lambda>(k, p). k \<notin> (\<lambda>p. tID (m p)) ` set out) (inFlight s) =
      filter (\<lambda>(k, p). \<not> timed_out now (m p)) (inFlight s)"
    using keyed_filter_keys [OF k, of ?g "\<lambda>p. timed_out now (m p)"] by simp
  have e2: "filter (\<lambda>p. tState (expired (env p) (m p)) = StateDead) out =
      filter (\<lambda>p. tState (m' p) = StateDead) out"
    "filter (\<lambda>p. tState (expired (env p) (m p)) \<noteq> StateDead) out =
      filter (\<lambda>p. tState (m' p) \<noteq> StateDead) out"
    using F by (auto intro: filter_cong)
  show ?thesis using sout d F [unfolded e1 e2 add_0] by blast
qed

section \<open>No task is lost, and none is duplicated\<close>

definition pool_inv :: "tasks \<times> scheduler \<Rightarrow> bool" where
  "pool_inv = (\<lambda>(m, s). sched_inv m s \<and> (\<forall>k. count (live_ids m s) k \<le> 1))"

lemma mset_del:
  assumes "gm_ok f" and "gm_get f k = Some p"
  shows "mset (map snd f) = add_mset p (mset (map snd (gm_del k f)))"
  using assms
proof (induction f)
  case (Cons e f)
  obtain l q where e: "e = (l, q)" by force
  show ?case
  proof (cases "l = k")
    case True
    then have "AList.delete k f = f"
      using Cons.prems(1) e by (intro AList.delete_id) (simp add: gm_ok_def)
    with True Cons.prems e show ?thesis by (simp add: gm_del_def gm_get_def)
  next
    case False
    with Cons e show ?thesis by (simp add: gm_del_def gm_get_def gm_ok_def)
  qed
qed simp

lemma live_Enqueue: "live (Enqueue m p s) = add_mset p (live s)"
  by (simp add: live_def Enqueue_def push_queue_def Notify_def mset_heap_Push)

lemma live_Complete:
  assumes "sched_inv m s" and "sched_Complete now k out code (m, s) = (r, m', s')"
  shows "live s = live s' + (case r of None \<Rightarrow> {#} | Some p \<Rightarrow> {#p#}) \<and> r = gm_get (inFlight s) k"
  using assms mset_del [of "inFlight s" k]
  by (auto simp: sched_Complete_def live_def sched_inv_def keyed_def split: option.splits)

lemma live_retry_or_dead:
  "retry_or_dead rt p (m, s) = (m', s') \<Longrightarrow> live s' = add_mset p (live s)"
  by (drule retry_or_dead_frame) (auto simp: live_def)

lemma live_Fail:
  assumes "sched_inv m s" and f: "sched_Fail now rt k msg code (m, s) = (r, m', s')"
  shows "live s' = live s"
  using f
proof (cases rule: sched_Fail_cases)
  case (2 p)
  with assms(1) mset_del [of "inFlight s" k p] live_retry_or_dead [OF 2(3)] show ?thesis
    by (auto simp: live_def sched_inv_def keyed_def)
qed simp

lemma mset_filter_split:
  "mset (map g (filter P xs)) + mset (map g (filter (\<lambda>x. \<not> P x) xs)) = mset (map g xs)"
  by (induction xs) auto

lemma live_Requeue:
  assumes "sched_inv m s" and "range_ok ks (inFlight s)"
    and "RequeueFromWorker ks w (m, s) = (c, m', s')"
  shows "live s' = live s"
  using RequeueFromWorker_exact [OF assms refl]
    mset_filter_split [of snd "\<lambda>(k, p). tWorkerID (m p) = w" "inFlight s"]
  by (auto simp: live_def same_rest_def case_prod_unfold)

lemma live_Retries:
  assumes "ProcessRetries now (m, s) = (c, m', s')"
  shows "live s' = live s"
  using ProcessRetries_exact [OF assms refl]
    mset_filter_split [of "\<lambda>p. p" "\<lambda>p. time_After now (tNextRetryAt (m p))" "retryQueue s"]
  by (simp add: live_def)

lemma live_Timeouts:
  assumes inv: "sched_inv m s" and "range_ok ks (inFlight s)"
    and "CheckTimeouts now env ks (m, s) = (c, m', s')"
  shows "live s' = live s"
proof -
  obtain out where o: "set out = {p \<in> gm_ran (inFlight s). timed_out now (m p)}" "distinct out"
    "inFlight s' = filter (\<lambda>(k, p). \<not> timed_out now (m p)) (inFlight s)"
    "deadLetter s' = deadLetter s @ filter (\<lambda>p. tState (m' p) = StateDead) out"
    "retryQueue s' = retryQueue s @ filter (\<lambda>p. tState (m' p) \<noteq> StateDead) out"
    "queue s' = queue s"
    using CheckTimeouts_exact [OF assms] by blast
  let ?hit = "map snd (filter (\<lambda>(k, p). timed_out now (m p)) (inFlight s))"
  have "keyed m (inFlight s)" using inv by (simp add: sched_inv_def)
  from keyed_distinct_refs [OF this] have "distinct ?hit" by (rule distinct_map_filter)
  moreover have "set ?hit = set out" using o(1) by (force simp: gm_ran_def)
  ultimately have "mset out = mset ?hit" using o(2) by (metis set_eq_iff_mset_eq_distinct)
  then show ?thesis
    using o mset_filter_split [of snd "\<lambda>(k, p). timed_out now (m p)" "inFlight s"]
      mset_filter_split [of "\<lambda>p. p" "\<lambda>p. tState (m' p) = StateDead" out]
    by (simp add: live_def case_prod_unfold algebra_simps)
qed

lemma live_RetryFromDLQ:
  assumes "sched_RetryFromDLQ k (m, s) = (b, m', s')"
  shows "live s' = live s"
proof (cases "dropWhile (\<lambda>p. tID (m p) \<noteq> k) (deadLetter s)")
  case (Cons p post)
  have "mset (deadLetter s) = mset (takeWhile (\<lambda>p. tID (m p) \<noteq> k) (deadLetter s)) + mset (p # post)"
    by (metis Cons mset_append takeWhile_dropWhile_id)
  with assms Cons show ?thesis
    by (auto simp: sched_RetryFromDLQ_def dlq_loop_result Let_def live_def push_queue_def Notify_def
        mset_heap_Push)
qed (use assms in \<open>simp add: sched_RetryFromDLQ_def dlq_loop_result del: dropWhile_eq_Nil_conv\<close>)

lemma uniq_fresh:
  assumes "keyed m (inFlight s)" and "\<forall>k. count (live_ids m s) k \<le> 1" and "p \<in> set (queue s)"
  shows "tID (m p) \<notin> gm_keys (inFlight s)"
proof
  assume "tID (m p) \<in> gm_keys (inFlight s)"
  then obtain q where q: "(tID (m p), q) \<in> set (inFlight s)" by (auto simp: gm_keys_def)
  with assms(1) have "tID (m q) = tID (m p)" by (auto simp: keyed_def)
  moreover have "q \<in> set (map snd (inFlight s))" using q by force
  ultimately have "tID (m p) \<in># image_mset (\<lambda>p. tID (m p)) (mset (map snd (inFlight s)))"
    unfolding set_image_mset set_mset_mset by (metis image_eqI)
  moreover have "tID (m p) \<in># image_mset (\<lambda>p. tID (m p)) (mset (queue s))"
    unfolding set_image_mset set_mset_mset using assms(3) by (rule imageI)
  moreover have "count (live_ids m s) (tID (m p)) \<ge>
      count (image_mset (\<lambda>p. tID (m p)) (mset (queue s))) (tID (m p)) +
      count (image_mset (\<lambda>p. tID (m p)) (mset (map snd (inFlight s)))) (tID (m p))"
    unfolding live_ids_def live_def image_mset_union count_union by simp
  ultimately have "2 \<le> count (live_ids m s) (tID (m p))"
    unfolding count_greater_zero_iff [symmetric] by linarith
  with assms(2) show False by (metis Suc_1 not_less_eq_eq)
qed

lemma Dequeue_cases:
  assumes "Dequeue m s = (r, s')"
  obtains "queue s = []" "r = None" "s' = s"
  | p q where "heap_Pop (pq_Less m) (queue s) = Some (p, q)" "r = Some p" "queue s' = q"
      "inFlight s' = gm_put (tID (m p)) p (inFlight s)" "notify s' = (notify s \<or> q \<noteq> [])"
      "same_rest s s'"
proof (cases "heap_Pop (pq_Less m) (queue s)")
  case None
  then show ?thesis using assms by (intro that(1)) (auto simp: Dequeue_def)
next
  case (Some pq)
  obtain p q where pq: "pq = (p, q)" by force
  show ?thesis
    using assms Some
    by (intro that(2) [of p q]) (auto simp: pq Dequeue_def Let_def Notify_def same_rest_def)
qed

lemma live_Dequeue:
  assumes "pool_inv (m, s)" and d: "Dequeue m s = (r, s')"
  shows "live s' = live s"
  using d
proof (cases rule: Dequeue_cases)
  case (2 p q)
  note pop = heap_Pop_mset [OF 2(1)]
  have "p \<in> set (queue s)" using pop by (metis set_mset_mset union_single_eq_member)
  then have "tID (m p) \<notin> gm_keys (inFlight s)"
    using assms(1) by (intro uniq_fresh) (simp_all add: pool_inv_def sched_inv_def)
  with 2 pop show ?thesis by (simp add: live_def gm_put_fresh same_rest_def)
qed simp

text \<open>
  What an operation other than \<open>Submit\<close> does to the invariant and the books. The keys of the tasks
  stay, so the identifiers of the live tasks can only become fewer.
\<close>

lemma live_ids_same_keys: "same_keys m m' \<Longrightarrow> live_ids m' s = live_ids m s"
  by (simp add: live_ids_def same_keys_ID)

lemma exec_op_live:
  assumes inv: "sched_inv m s" and en: "op_enabled a (m, s)" and "a \<noteq> Take"
  shows "live (snd (exec_op a (m, s))) + op_out a (m, s) = live s + op_in a (m, s)"
proof (cases a)
  case (Finish now k out code)
  obtain r m' s' where c: "sched_Complete now k out code (m, s) = (r, m', s')" by (metis prod_cases3)
  with live_Complete [OF inv c] Finish show ?thesis by auto
next
  case (Failed now rt k msg code)
  obtain r m' s' where c: "sched_Fail now rt k msg code (m, s) = (r, m', s')" by (metis prod_cases3)
  with live_Fail [OF inv c] Failed show ?thesis by simp
next
  case (WorkerGone ks w)
  obtain c m' s' where r: "RequeueFromWorker ks w (m, s) = (c, m', s')" by (metis prod_cases3)
  with live_Requeue [OF inv _ r] en WorkerGone show ?thesis by simp
next
  case (Retries now)
  obtain c m' s' where r: "ProcessRetries now (m, s) = (c, m', s')" by (metis prod_cases3)
  with live_Retries [OF r] Retries show ?thesis by simp
next
  case (Timeouts now env ks)
  obtain c m' s' where r: "CheckTimeouts now env ks (m, s) = (c, m', s')" by (metis prod_cases3)
  with live_Timeouts [OF inv _ r] en Timeouts show ?thesis by simp
next
  case (Revive k)
  obtain b m' s' where r: "sched_RetryFromDLQ k (m, s) = (b, m', s')" by (metis prod_cases3)
  with live_RetryFromDLQ [OF r] Revive show ?thesis by simp
qed (use assms(3) in \<open>simp_all add: live_Enqueue\<close>)

lemma exec_op_balance:
  assumes inv: "pool_inv (m, s)" and en: "op_enabled a (m, s)"
  shows "live (snd (exec_op a (m, s))) + op_out a (m, s) = live s + op_in a (m, s)"
proof (cases "a = Take")
  case True
  with inv show ?thesis by (cases "Dequeue m s") (simp add: live_Dequeue)
next
  case False
  with inv en show ?thesis by (simp add: exec_op_live pool_inv_def)
qed

lemma exec_op_kept:
  assumes inv: "sched_inv m s" and en: "op_enabled a (m, s)" and a: "\<forall>p t. a \<noteq> Submit p t"
    and ex: "exec_op a (m, s) = (m', s')"
  shows "kept m m' s'"
proof (cases a)
  case Take
  with inv ex show ?thesis by (auto simp: kept_def sched_inv_Dequeue)
next
  case (Finish now k out code)
  then obtain r where "sched_Complete now k out code (m, s) = (r, m', s')"
    using ex by (metis exec_op.simps(3) prod.collapse)
  with inv show ?thesis by (simp add: kept_def sched_inv_Complete sched_Complete_keys)
next
  case (Failed now rt k msg code)
  then obtain r where "sched_Fail now rt k msg code (m, s) = (r, m', s')"
    using ex by (metis exec_op.simps(4) prod.collapse)
  with inv show ?thesis by (simp add: kept_def sched_inv_Fail sched_Fail_keys)
next
  case (WorkerGone ks w)
  then obtain c where "RequeueFromWorker ks w (m, s) = (c, m', s')"
    using ex by (metis exec_op.simps(5) prod.collapse)
  from kept_RequeueFromWorker [OF this inv] show ?thesis .
next
  case (Retries now)
  then obtain c where "ProcessRetries now (m, s) = (c, m', s')"
    using ex by (metis exec_op.simps(6) prod.collapse)
  from kept_ProcessRetries [OF this inv] show ?thesis .
next
  case (Timeouts now env ks)
  then obtain c where "CheckTimeouts now env ks (m, s) = (c, m', s')"
    using ex by (metis exec_op.simps(7) prod.collapse)
  from kept_CheckTimeouts [OF this inv] show ?thesis .
next
  case (Revive k)
  then obtain b where "sched_RetryFromDLQ k (m, s) = (b, m', s')"
    using ex by (metis exec_op.simps(8) prod.collapse)
  from kept_RetryFromDLQ [OF this inv] show ?thesis .
qed (use assms in \<open>auto intro: kept_upd kept_start\<close>)

text \<open>A new cell is in no comparison and under no key yet.\<close>

lemma sched_inv_fresh:
  assumes "sched_inv m s" and "p \<notin># live s"
  shows "sched_inv (m(p := t)) s"
proof -
  have "p \<notin> set (queue s)" "p \<notin> snd ` set (inFlight s)" using assms(2) by (auto simp: live_def)
  moreover from this(1) have "heap_ordered (pq_Less (m(p := t))) (queue s) = heap_ordered (pq_Less m) (queue s)"
    by (intro heap_upto_cong) (auto simp: pq_Less_def)
  moreover from calculation(2) have "keyed (m(p := t)) (inFlight s) = keyed m (inFlight s)"
    by (auto simp: keyed_def image_iff Ball_def)
  ultimately show ?thesis using assms(1) by (simp add: sched_inv_def)
qed

lemma pool_inv_exec:
  assumes inv: "pool_inv (m, s)" and en: "op_enabled a (m, s)"
  shows "pool_inv (exec_op a (m, s))"
proof (cases "\<exists>p t. a = Submit p t")
  case True
  then obtain p t where a: "a = Submit p t" by blast
  have p: "p \<notin># live s" and k: "tID t \<notin># live_ids m s" using en a by simp_all
  let ?m = "m(p := t)"
  have "sched_inv ?m (Enqueue ?m p s)"
    using inv p by (intro sched_inv_Enqueue sched_inv_fresh) (simp_all add: pool_inv_def)
  moreover have "live_ids ?m s = live_ids m s"
    using p unfolding live_ids_def by (intro image_mset_cong) auto
  then have "live_ids ?m (Enqueue ?m p s) = add_mset (tID t) (live_ids m s)"
    by (simp add: live_ids_def live_Enqueue)
  ultimately show ?thesis
    using inv k by (auto simp: a pool_inv_def not_in_iff)
next
  case False
  obtain m' s' where e: "exec_op a (m, s) = (m', s')" by force
  have "kept m m' s'"
    using exec_op_kept [OF _ en _ e] inv False by (simp add: pool_inv_def)
  moreover have "op_in a (m, s) = {#}" using False by (cases a) auto
  then have "live s' \<subseteq># live s"
    using exec_op_balance [OF inv en] e by (metis add.right_neutral mset_subset_eq_add_left snd_conv)
  then have "live_ids m s' \<subseteq># live_ids m s" unfolding live_ids_def by (rule image_mset_subseteq_mono)
  then have "count (live_ids m s') k \<le> 1" for k
    using inv mset_subset_eq_count [of _ _ k] by (fastforce simp: pool_inv_def intro: order_trans)
  ultimately show ?thesis by (auto simp: e pool_inv_def kept_def live_ids_same_keys)
qed

interpretation sched: ledger op_enabled exec_op pool_inv "\<lambda>(m, s). live s" op_in op_out
proof
  fix st a
  assume inv: "pool_inv st" and en: "op_enabled a st"
  obtain m s where st: "st = (m, s)" by force
  show "pool_inv (exec_op a st)" using pool_inv_exec inv en by (simp add: st)
  show "(case exec_op a st of (m, s) \<Rightarrow> live s) + op_out a st = (case st of (m, s) \<Rightarrow> live s) + op_in a st"
    using exec_op_balance inv en by (simp add: st case_prod_unfold)
qed

lemma pool_inv_New: "pool_inv (m, NewScheduler m timeout)"
  by (simp add: pool_inv_def NewScheduler_def sched_inv_def keyed_def live_ids_def live_def)

lemma live_New: "live (NewScheduler m timeout) = {#}"
  by (simp add: NewScheduler_def live_def)

section \<open>The signal\<close>

text \<open>The dispatcher sleeps on the signal, so a queue with work in it must have one pending.\<close>

definition armed :: "scheduler \<Rightarrow> bool" where
  "armed s \<longleftrightarrow> (queue s \<noteq> [] \<longrightarrow> notify s)"

lemma armed_exec_op:
  assumes "sched_inv m s" and "op_enabled a (m, s)" and "armed s"
  shows "armed (snd (exec_op a (m, s)))"
proof (cases a)
  case Take
  obtain r s' where d: "Dequeue m s = (r, s')" by force
  then show ?thesis
    by (rule Dequeue_cases) (use assms(3) Take d in \<open>auto simp: armed_def\<close>)
next
  case (Failed now rt k msg code)
  obtain r m' s' where f: "sched_Fail now rt k msg code (m, s) = (r, m', s')" by (metis prod_cases3)
  then show ?thesis
    by (rule sched_Fail_cases)
      (use assms(3) Failed f in \<open>auto simp: armed_def dest: retry_or_dead_frame\<close>)
next
  case (WorkerGone ks w)
  obtain c m' s' where r: "RequeueFromWorker ks w (m, s) = (c, m', s')" by (metis prod_cases3)
  have "sched_inv m s" "range_ok ks (inFlight s)" using assms(1,2) WorkerGone by simp_all
  moreover define hit where "hit = filter (\<lambda>(k, p). tWorkerID (m p) = w) (inFlight s)"
  ultimately have "mset (queue s') = mset (queue s) + mset (map snd hit)" "notify s' = (notify s \<or> hit \<noteq> [])"
    using RequeueFromWorker_exact [OF _ _ r] by blast+
  with assms(3) WorkerGone r show ?thesis by (auto simp: armed_def)
next
  case (Retries now)
  obtain c m' s' where r: "ProcessRetries now (m, s) = (c, m', s')" by (metis prod_cases3)
  define due where "due = filter (\<lambda>p. time_After now (tNextRetryAt (m p))) (retryQueue s)"
  have "mset (queue s') = mset (queue s) + mset due" "notify s' = (notify s \<or> due \<noteq> [])"
    using ProcessRetries_exact [OF r due_def] by blast+
  with assms(3) Retries r show ?thesis by (auto simp: armed_def)
next
  case (Timeouts now env ks)
  obtain c m' s' where r: "CheckTimeouts now env ks (m, s) = (c, m', s')" by (metis prod_cases3)
  have "sched_inv m s" "range_ok ks (inFlight s)" using assms(1,2) Timeouts by simp_all
  from CheckTimeouts_exact [OF this r] assms(3) Timeouts r show ?thesis by (auto simp: armed_def)
qed (use assms(3) in \<open>auto simp: armed_def Enqueue_def Notify_def sched_Complete_def
    sched_RetryFromDLQ_def dlq_loop_result Let_def split: option.split list.split\<close>)

section \<open>Properties of the scheduler\<close>


text \<open>
  C18: the scheduler's data structures stay well formed under every sequence of calls: the queue is a
  heap for the tasks' priorities and creation times, every in-flight entry is filed under its own
  task's identifier, and at most a hundred completed tasks are remembered.
\<close>

theorem scheduler_well_formed:
  assumes "run_ok op_enabled exec_op ops (m0, NewScheduler m0 timeout)"
    and "fold exec_op ops (m0, NewScheduler m0 timeout) = (m, s)"
  shows "heap_ordered (pq_Less m) (queue s) \<and>
    (\<forall>k p. gm_get (inFlight s) k = Some p \<longrightarrow> tID (m p) = k) \<and>
    length (completed s) \<le> maxCompleted"
  using sched.run_inv [OF pool_inv_New assms(1)] assms(2)
  by (auto simp: pool_inv_def sched_inv_def dest: keyed_get)

theorem scheduler_well_formed_witness:
  "let m0 = (\<lambda>_. New 0 [] []); a = New 5 ''a'' ''a.sh''; b = (New 6 ''b'' ''b.sh'')\<lparr>tPriority := PriorityHigh\<rparr>;
       ops = [Submit 0 a, Submit 1 b, Take]
   in case fold exec_op ops (m0, NewScheduler m0 0) of
        (m, s) \<Rightarrow> heap_ordered (pq_Less m) (queue s) \<and> gm_get (inFlight s) ''b'' = Some 1"
proof -
  let ?m0 = "\<lambda>_ :: nat. New 0 [] []"
  let ?ops = "[Submit 0 (New 5 ''a'' ''a.sh''),
    Submit 1 ((New 6 ''b'' ''b.sh'')\<lparr>tPriority := PriorityHigh\<rparr>), Take]"
  obtain m s where ms: "fold exec_op ?ops (?m0, NewScheduler ?m0 0) = (m, s)" by force
  have ok: "run_ok op_enabled exec_op ?ops (?m0, NewScheduler ?m0 0)" by code_simp
  have "gm_get (inFlight (snd (fold exec_op ?ops (?m0, NewScheduler ?m0 0)))) ''b'' = Some 1"
    by code_simp
  then show ?thesis
    using scheduler_well_formed [OF ok ms] unfolding Let_def ms by simp
qed

text \<open>
  \<open>Dequeue\<close> returns nothing exactly when the queue is empty; otherwise it returns a task that no
  queued task precedes (none has a higher priority, none of the same priority was created earlier),
  files it as in flight under its identifier, keeps the rest of the queue, and leaves a signal
  behind when there is more to dispatch.
\<close>

theorem dequeue_takes_first:
  assumes "sched_inv m s" and "Dequeue m s = (r, s')"
  shows "(r = None \<longleftrightarrow> queue s = []) \<and> (r = None \<longrightarrow> s' = s) \<and>
    (\<forall>p. r = Some p \<longrightarrow>
       (\<forall>q \<in> set (queue s). sint (tPriority (m q)) < sint (tPriority (m p)) \<or>
          tPriority (m q) = tPriority (m p) \<and> tCreatedAt (m p) \<le> tCreatedAt (m q)) \<and>
       mset (queue s) = add_mset p (mset (queue s')) \<and>
       inFlight s' = gm_put (tID (m p)) p (inFlight s) \<and>
       (queue s' \<noteq> [] \<longrightarrow> notify s'))"
  using assms(2)
proof (cases rule: Dequeue_cases)
  case (2 p q)
  have h: "heap_ordered (pq_Less m) (queue s)" using assms(1) by (simp add: sched_inv_def)
  have "\<not> pq_Less m x p" if "x \<in> set (queue s)" for x
    using pq.hq.pop_least [OF h 2(1)] that by simp
  then have "\<forall>x \<in> set (queue s). sint (tPriority (m x)) < sint (tPriority (m p)) \<or>
      tPriority (m x) = tPriority (m p) \<and> tCreatedAt (m p) \<le> tCreatedAt (m x)"
    by (simp add: not_pq_Less_iff)
  with 2 heap_Pop_mset [OF 2(1)] show ?thesis by auto
qed simp

theorem dequeue_takes_first_witness:
  "let m = (\<lambda>p. if p = 0 then New 5 ''a'' ''a.sh''
             else if p = 1 then (New 6 ''b'' ''b.sh'')\<lparr>tPriority := PriorityHigh\<rparr> else New 4 ''c'' ''c.sh'');
       s = Enqueue m 2 (Enqueue m 1 (Enqueue m 0 (NewScheduler m 0)))
   in fst (Dequeue m s) = Some 1 \<and>
      (\<forall>q \<in> set (queue s). sint (tPriority (m q)) < sint (tPriority (m 1)) \<or>
          tPriority (m q) = tPriority (m 1) \<and> tCreatedAt (m 1) \<le> tCreatedAt (m q))"
proof -
  let ?m = "(\<lambda>p :: nat. if p = 0 then New 5 ''a'' ''a.sh''
             else if p = 1 then (New 6 ''b'' ''b.sh'')\<lparr>tPriority := PriorityHigh\<rparr> else New 4 ''c'' ''c.sh'')"
  let ?s = "Enqueue ?m 2 (Enqueue ?m 1 (Enqueue ?m 0 (NewScheduler ?m 0)))"
  have inv: "sched_inv ?m ?s"
    by (intro sched_inv_Enqueue) (use pool_inv_New in \<open>simp add: pool_inv_def\<close>)
  have d: "fst (Dequeue ?m ?s) = Some 1" by code_simp
  then have "Dequeue ?m ?s = (Some 1, snd (Dequeue ?m ?s))" by (simp add: prod_eq_iff)
  from dequeue_takes_first [OF inv this] d show ?thesis unfolding Let_def by blast
qed

lemma dequeue_n_pop_all: "dequeue_n m n s = pop_all (heap_Pop (pq_Less m)) n (queue s)"
proof (induction n arbitrary: s)
  case (Suc n)
  show ?case
  proof (cases "heap_Pop (pq_Less m) (queue s)")
    case (Some r)
    obtain p q where "r = (p, q)" by force
    with Some Suc show ?thesis by (simp add: Dequeue_def Let_def Notify_def)
  qed (simp add: Dequeue_def)
qed simp

text \<open>
  Dequeuing until the queue is empty hands out every queued task exactly once, highest priority
  first and, within a priority, in the order of creation.
\<close>

theorem drain_in_order:
  assumes "sched_inv m s"
  shows "mset (dequeue_n m (length (queue s)) s) = mset (queue s) \<and>
    sorted_wrt (\<lambda>p q. sint (tPriority (m q)) < sint (tPriority (m p)) \<or>
        tPriority (m q) = tPriority (m p) \<and> tCreatedAt (m p) \<le> tCreatedAt (m q))
      (dequeue_n m (length (queue s)) s)"
proof -
  have h: "heap_ordered (pq_Less m) (queue s)" using assms by (simp add: sched_inv_def)
  show ?thesis
    unfolding dequeue_n_pop_all not_pq_Less_iff [symmetric]
    using pq.hq.pop_all_elems [OF h] pq.hq.pop_all_sorted [OF h] by simp
qed

theorem drain_in_order_witness:
  "let m = (\<lambda>p. if p = 0 then New 5 ''a'' ''a.sh''
             else if p = 1 then (New 6 ''b'' ''b.sh'')\<lparr>tPriority := PriorityHigh\<rparr> else New 4 ''c'' ''c.sh'');
       s = Enqueue m 2 (Enqueue m 1 (Enqueue m 0 (NewScheduler m 0)))
   in dequeue_n m 3 s = [1, 2, 0] \<and> mset (dequeue_n m (length (queue s)) s) = mset (queue s)"
proof -
  let ?m = "(\<lambda>p :: nat. if p = 0 then New 5 ''a'' ''a.sh''
             else if p = 1 then (New 6 ''b'' ''b.sh'')\<lparr>tPriority := PriorityHigh\<rparr> else New 4 ''c'' ''c.sh'')"
  let ?s = "Enqueue ?m 2 (Enqueue ?m 1 (Enqueue ?m 0 (NewScheduler ?m 0)))"
  have inv: "sched_inv ?m ?s"
    by (intro sched_inv_Enqueue) (use pool_inv_New in \<open>simp add: pool_inv_def\<close>)
  have "dequeue_n ?m 3 ?s = [1, 2, 0]" by code_simp
  with drain_in_order [OF inv] show ?thesis unfolding Let_def by blast
qed

text \<open>
  No call on the scheduler puts work in the queue, or leaves work in the queue, without a pending
  signal: if the queue was empty or signalled before the call, it is so after it. Only a receive
  from the channel takes the signal away.
\<close>

theorem every_call_keeps_signal:
  assumes "pool_inv (m, s)" and "op_enabled a (m, s)" and "armed s"
  shows "armed (snd (exec_op a (m, s)))"
  using assms by (simp add: pool_inv_def armed_exec_op)

theorem every_call_keeps_signal_witness:
  "let m = (\<lambda>p. if p = 0 then New 5 ''a'' ''a.sh'' else New 4 ''c'' ''c.sh'');
       s = Enqueue m 1 (NewScheduler m 0)
   in armed (snd (exec_op (Submit 0 (New 5 ''a'' ''a.sh'')) (m, s))) \<and>
      queue (snd (exec_op (Submit 0 (New 5 ''a'' ''a.sh'')) (m, s))) = [1, 0]"
proof -
  let ?m = "(\<lambda>p :: nat. if p = 0 then New 5 ''a'' ''a.sh'' else New 4 ''c'' ''c.sh'')"
  let ?s = "Enqueue ?m 1 (NewScheduler ?m 0)"
  have s: "?s = snd (exec_op (Submit 1 (?m 1)) (?m, NewScheduler ?m 0))" by (simp add: fun_upd_idem)
  have "pool_inv (exec_op (Submit 1 (?m 1)) (?m, NewScheduler ?m 0))"
    by (rule pool_inv_exec [OF pool_inv_New]) code_simp
  then have inv: "pool_inv (?m, ?s)" by (simp add: fun_upd_idem)
  have ar: "armed ?s" by (simp add: armed_def Enqueue_def Notify_def)
  have "armed (snd (exec_op (Submit 0 (New 5 ''a'' ''a.sh'')) (?m, ?s)))"
    by (rule every_call_keeps_signal [OF inv _ ar]) code_simp
  moreover have "queue (snd (exec_op (Submit 0 (New 5 ''a'' ''a.sh'')) (?m, ?s))) = [1, 0]" by code_simp
  ultimately show ?thesis unfolding Let_def by blast
qed

text \<open>
  When a worker goes away, exactly the in-flight tasks assigned to it go back to the queue, each
  once, as queued tasks that belong to no worker; every other in-flight task stays where it is, no
  other task changes, the count that is returned is theirs and the dispatchers are woken when there
  was one.
\<close>

theorem worker_loss_requeues_its_tasks:
  assumes "sched_inv m s" and "range_ok ks (inFlight s)"
    and "RequeueFromWorker ks w (m, s) = (c, m', s')"
  shows "c = length (filter (\<lambda>(k, p). tWorkerID (m p) = w) (inFlight s)) \<and>
    mset (queue s') = mset (queue s) +
      mset (map snd (filter (\<lambda>(k, p). tWorkerID (m p) = w) (inFlight s))) \<and>
    inFlight s' = filter (\<lambda>(k, p). tWorkerID (m p) \<noteq> w) (inFlight s) \<and>
    (\<forall>p. m' p = (if p \<in> gm_ran (inFlight s) \<and> tWorkerID (m p) = w
               then (m p)\<lparr>tState := StateQueued, tWorkerID := []\<rparr> else m p)) \<and>
    (0 < c \<longrightarrow> notify s') \<and> sched_inv m' s'"
proof -
  define hit where "hit = filter (\<lambda>(k, p). tWorkerID (m p) = w) (inFlight s)"
  have "p \<in> snd ` set hit \<longleftrightarrow> p \<in> gm_ran (inFlight s) \<and> tWorkerID (m p) = w" for p
    by (force simp: hit_def gm_ran_def)
  moreover have "sched_inv m' s'"
    using kept_RequeueFromWorker [OF assms(3,1)] by (simp add: kept_def)
  ultimately show ?thesis
    using RequeueFromWorker_exact [OF assms hit_def] unfolding hit_def [symmetric] requeued_def by auto
qed

theorem worker_loss_requeues_its_tasks_witness:
  "let m = (\<lambda>p. if p = 0 then (New 5 ''a'' ''a.sh'')\<lparr>tState := StateRunning, tWorkerID := ''w1''\<rparr>
             else (New 4 ''c'' ''c.sh'')\<lparr>tState := StateRunning, tWorkerID := ''w2''\<rparr>);
       s = (NewScheduler m 0)\<lparr>inFlight := [(''c'', 1), (''a'', 0)]\<rparr>
   in case RequeueFromWorker [''a'', ''c''] ''w1'' (m, s) of
        (c, m', s') \<Rightarrow> c = 1 \<and> queue s' = [0] \<and> inFlight s' = [(''c'', 1)] \<and> notify s' \<and> sched_inv m' s'"
proof -
  let ?m = "(\<lambda>p :: nat. if p = 0 then (New 5 ''a'' ''a.sh'')\<lparr>tState := StateRunning, tWorkerID := ''w1''\<rparr>
             else (New 4 ''c'' ''c.sh'')\<lparr>tState := StateRunning, tWorkerID := ''w2''\<rparr>)"
  let ?s = "(NewScheduler ?m 0)\<lparr>inFlight := [(''c'', 1), (''a'', 0)]\<rparr>"
  obtain c m' s' where r: "RequeueFromWorker [''a'', ''c''] ''w1'' (?m, ?s) = (c, m', s')"
    by (metis prod_cases3)
  have inv: "sched_inv ?m ?s" by (simp add: sched_inv_def keyed_def gm_ok_def NewScheduler_def New_def)
  have ok: "range_ok [''a'', ''c''] (inFlight ?s)" by (auto simp: range_ok_def gm_keys_def)
  have f: "filter (\<lambda>(k, p). tWorkerID (?m p) = ''w1'') (inFlight ?s) = [(''a'', 0)]"
    "filter (\<lambda>(k, p). tWorkerID (?m p) \<noteq> ''w1'') (inFlight ?s) = [(''c'', 1)]"
    by (simp_all add: NewScheduler_def New_def)
  have "c = 1 \<and> queue s' = [0] \<and> inFlight s' = [(''c'', 1)] \<and> notify s' \<and> sched_inv m' s'"
    using worker_loss_requeues_its_tasks [OF inv ok r, unfolded f] by (simp add: NewScheduler_def)
  then show ?thesis unfolding Let_def r prod.case .
qed

text \<open>
  \<open>ProcessRetries\<close> moves to the queue exactly the tasks whose retry time has passed, in the
  state \<open>QUEUED\<close> if they were waiting for a retry, and keeps the others waiting in their order.
\<close>

theorem due_retries_move:
  assumes "ProcessRetries now (m, s) = (c, m', s')"
  shows "c = length (filter (\<lambda>p. tNextRetryAt (m p) < now) (retryQueue s)) \<and>
    mset (queue s') = mset (queue s) + mset (filter (\<lambda>p. tNextRetryAt (m p) < now) (retryQueue s)) \<and>
    retryQueue s' = filter (\<lambda>p. now \<le> tNextRetryAt (m p)) (retryQueue s) \<and>
    (\<forall>p. tState (m p) = StateRetrying \<longrightarrow> m' p =
       (if p \<in> set (retryQueue s) \<and> tNextRetryAt (m p) < now then (m p)\<lparr>tState := StateQueued\<rparr> else m p)) \<and>
    inFlight s' = inFlight s \<and> deadLetter s' = deadLetter s \<and> (0 < c \<longrightarrow> notify s')"
  using ProcessRetries_exact [OF assms refl]
  by (auto simp: time_After_def retried_def task_Requeue_eq not_less)

theorem due_retries_move_witness:
  "let m = (\<lambda>p. (New 5 ''a'' ''a.sh'')\<lparr>tState := StateRetrying, tNextRetryAt := int p * 10\<rparr>);
       s = (NewScheduler m 0)\<lparr>retryQueue := [3, 1, 2]\<rparr>
   in case ProcessRetries 21 (m, s) of
        (c, m', s') \<Rightarrow> c = 2 \<and> mset (queue s') = {#1, 2#} \<and> retryQueue s' = [3] \<and>
          tState (m' 1) = StateQueued \<and> m' 3 = m 3"
proof -
  let ?m = "(\<lambda>p :: nat. (New 5 ''a'' ''a.sh'')\<lparr>tState := StateRetrying, tNextRetryAt := int p * 10\<rparr>)"
  let ?s = "(NewScheduler ?m 0)\<lparr>retryQueue := [3, 1, 2]\<rparr>"
  obtain c m' s' where r: "ProcessRetries 21 (?m, ?s) = (c, m', s')" by (metis prod_cases3)
  have "c = 2 \<and> mset (queue s') = {#1, 2#} \<and> retryQueue s' = [3] \<and>
      tState (m' 1) = StateQueued \<and> m' 3 = ?m 3"
    using due_retries_move [OF r] by (simp add: NewScheduler_def)
  then show ?thesis unfolding Let_def r prod.case .
qed

text \<open>
  \<open>Fail\<close> of a running in-flight task takes it out of flight, counts the failure and, exactly by
  whether its attempts have reached \<open>MaxRetries\<close>, either appends it to the dead letter queue as
  \<open>DEAD\<close> or to the retry queue as \<open>RETRYING\<close>; \<open>Fail\<close> of an unknown identifier changes nothing.
\<close>

theorem fail_retries_or_buries:
  assumes "sched_Fail now rt k msg code (m, s) = (r, m', s')"
  shows "(gm_get (inFlight s) k = None \<longrightarrow> r = None \<and> m' = m \<and> s' = s) \<and>
    (\<forall>p. gm_get (inFlight s) k = Some p \<and> tState (m p) = StateRunning \<longrightarrow>
       r = Some p \<and> inFlight s' = gm_del k (inFlight s) \<and> queue s' = queue s \<and>
       totalFailed s' = totalFailed s + 1 \<and> tError (m' p) = msg \<and> tExitCode (m' p) = code \<and>
       (\<forall>q. q \<noteq> p \<longrightarrow> m' q = m q) \<and>
       (if tMaxRetries (m p) \<le>s tAttempt (m p)
        then tState (m' p) = StateDead \<and> deadLetter s' = deadLetter s @ [p] \<and> retryQueue s' = retryQueue s
        else tState (m' p) = StateRetrying \<and> retryQueue s' = retryQueue s @ [p] \<and>
          deadLetter s' = deadLetter s))"
  using assms
  by (auto simp: sched_Fail_def retry_or_dead_def Let_def task_Fail_eq task_ScheduleRetry_eq
      split: option.splits if_splits)

theorem fail_retries_or_buries_witness:
  "let t = (New 5 ''a'' ''a.sh'')\<lparr>tState := StateRunning, tAttempt := 3\<rparr>; m = (\<lambda>p. t);
       s = (NewScheduler m 0)\<lparr>inFlight := [(''a'', 0)]\<rparr>; rt = \<lparr>rt_now = 9, rt_jitter = 0, rt_f2i = 0\<rparr>
   in case sched_Fail 9 rt ''a'' ''boom'' 1 (m, s) of
        (r, m', s') \<Rightarrow> tState (m' 0) = StateDead \<and> deadLetter s' = [0] \<and> inFlight s' = []"
proof -
  let ?m = "\<lambda>p :: nat. (New 5 ''a'' ''a.sh'')\<lparr>tState := StateRunning, tAttempt := 3\<rparr>"
  let ?s = "(NewScheduler ?m 0)\<lparr>inFlight := [(''a'', 0)]\<rparr>"
  let ?rt = "\<lparr>rt_now = 9, rt_jitter = 0, rt_f2i = 0\<rparr>"
  obtain r m' s' where f: "sched_Fail 9 ?rt ''a'' ''boom'' 1 (?m, ?s) = (r, m', s')"
    by (metis prod_cases3)
  have "tMaxRetries (?m 0) \<le>s tAttempt (?m 0)" by (simp add: New_def)
  moreover have "gm_get (inFlight ?s) ''a'' = Some 0" by (simp add: gm_get_def)
  ultimately have "tState (m' 0) = StateDead \<and> deadLetter s' = [0] \<and> inFlight s' = []"
    using fail_retries_or_buries [OF f] by (simp add: NewScheduler_def gm_del_def)
  then show ?thesis unfolding Let_def f prod.case .
qed

text \<open>
  \<open>CheckTimeouts\<close> takes out of flight exactly the running tasks whose own limit has passed, none
  twice, and hands each to the retry queue or, its attempts used up, to the dead letter queue with
  the timeout as its error. It does not count them: \<open>totalFailed\<close> stays what it was.
\<close>

theorem timeouts_fail_expired_tasks:
  assumes "sched_inv m s" and "range_ok ks (inFlight s)"
    and "CheckTimeouts now env ks (m, s) = (c, m', s')"
  shows "c = card {p \<in> gm_ran (inFlight s). timed_out now (m p)} \<and>
    inFlight s' = filter (\<lambda>(k, p). \<not> timed_out now (m p)) (inFlight s) \<and>
    (\<forall>p \<in> gm_ran (inFlight s). timed_out now (m p) \<longrightarrow>
       tError (m' p) = ''task execution timed out'' \<and>
       (if tMaxRetries (m p) \<le>s tAttempt (m p)
        then tState (m' p) = StateDead \<and> p \<in> set (deadLetter s')
        else tState (m' p) = StateRetrying \<and> p \<in> set (retryQueue s'))) \<and>
    (\<forall>p. \<not> (p \<in> gm_ran (inFlight s) \<and> timed_out now (m p)) \<longrightarrow> m' p = m p) \<and>
    live s' = live s \<and> totalFailed s' = totalFailed s"
proof -
  obtain out where o: "set out = {p \<in> gm_ran (inFlight s). timed_out now (m p)}" "distinct out"
    "c = length out" "m' = (\<lambda>p. if p \<in> set out then expired (env p) (m p) else m p)"
    "inFlight s' = filter (\<lambda>(k, p). \<not> timed_out now (m p)) (inFlight s)"
    "deadLetter s' = deadLetter s @ filter (\<lambda>p. tState (m' p) = StateDead) out"
    "retryQueue s' = retryQueue s @ filter (\<lambda>p. tState (m' p) \<noteq> StateDead) out"
    "totalFailed s' = totalFailed s"
    using CheckTimeouts_exact [OF assms] by blast
  have ex: "tError (expired e t) = ''task execution timed out'' \<and>
      tState (expired e t) = (if tMaxRetries t \<le>s tAttempt t then StateDead else StateRetrying)"
    if "timed_out now t" for e t
    using that by (simp add: expired_def timed_out_def Let_def task_Fail_eq task_ScheduleRetry_eq)
  have "m' p = expired (env p) (m p) \<and> (tState (m' p) = StateDead \<longrightarrow> p \<in> set (deadLetter s')) \<and>
      (tState (m' p) \<noteq> StateDead \<longrightarrow> p \<in> set (retryQueue s'))"
    if "p \<in> gm_ran (inFlight s)" "timed_out now (m p)" for p
    using that o by simp
  then have "\<forall>p \<in> gm_ran (inFlight s). timed_out now (m p) \<longrightarrow>
       tError (m' p) = ''task execution timed out'' \<and>
       (if tMaxRetries (m p) \<le>s tAttempt (m p)
        then tState (m' p) = StateDead \<and> p \<in> set (deadLetter s')
        else tState (m' p) = StateRetrying \<and> p \<in> set (retryQueue s'))"
    using ex by simp
  moreover have "c = card {p \<in> gm_ran (inFlight s). timed_out now (m p)}"
    using o(1-3) distinct_card by metis
  ultimately show ?thesis using o live_Timeouts [OF assms] by auto
qed

theorem timeouts_fail_expired_tasks_witness:
  "let t = (New 5 ''a'' ''a.sh'')\<lparr>tState := StateRunning, tAttempt := 1, tStartedAt := 10, tTimeoutSec := 2\<rparr>;
       m = (\<lambda>p. t); s = (NewScheduler m 0)\<lparr>inFlight := [(''a'', 0)]\<rparr>;
       env = (\<lambda>p. (2000000012, \<lparr>rt_now = 2000000013, rt_jitter = 0, rt_f2i = 0\<rparr>))
   in case CheckTimeouts 2000000011 env [''a''] (m, s) of
        (c, m', s') \<Rightarrow> inFlight s' = [] \<and> tState (m' 0) = StateRetrying \<and> totalFailed s' = 0"
proof -
  let ?m = "\<lambda>p :: nat. (New 5 ''a'' ''a.sh'')\<lparr>tState := StateRunning, tAttempt := 1,
    tStartedAt := 10, tTimeoutSec := 2\<rparr>"
  let ?s = "(NewScheduler ?m 0)\<lparr>inFlight := [(''a'', 0)]\<rparr>"
  let ?env = "\<lambda>p :: nat. (2000000012 :: int, \<lparr>rt_now = 2000000013, rt_jitter = 0, rt_f2i = 0\<rparr>)"
  obtain c m' s' where r: "CheckTimeouts 2000000011 ?env [''a''] (?m, ?s) = (c, m', s')"
    by (metis prod_cases3)
  have inv: "sched_inv ?m ?s" by (simp add: sched_inv_def keyed_def gm_ok_def NewScheduler_def New_def)
  have ok: "range_ok [''a''] (inFlight ?s)" by (simp add: range_ok_def gm_keys_def)
  have t: "timed_out 2000000011 (?m 0)"
    by (simp add: timed_out_def time_After_def time_Add_def Second_def word_sless_alt)
  moreover have "0 \<in> gm_ran (inFlight ?s)" by (simp add: gm_ran_def)
  moreover have "\<not> tMaxRetries (?m 0) \<le>s tAttempt (?m 0)" by (simp add: New_def word_sle_eq)
  ultimately have "inFlight s' = [] \<and> tState (m' 0) = StateRetrying \<and> totalFailed s' = 0"
    using timeouts_fail_expired_tasks [OF inv ok r] by (simp add: NewScheduler_def)
  then show ?thesis unfolding Let_def r prod.case .
qed

text \<open>
  A task revived from the dead letter queue leaves it, alone, for the queue, with its attempts
  reset, so that it has \<open>MaxRetries\<close> executions again; an identifier that is not there is reported.
\<close>

theorem dlq_revival:
  assumes "sched_RetryFromDLQ k (m, s) = (b, m', s')"
    and "distinct (map (\<lambda>p. tID (m p)) (deadLetter s))"
  shows "(b \<longleftrightarrow> (\<exists>p \<in> set (deadLetter s). tID (m p) = k)) \<and> (\<not> b \<longrightarrow> m' = m \<and> s' = s) \<and>
    (\<forall>p \<in> set (deadLetter s). tID (m p) = k \<and> tState (m p) = StateDead \<longrightarrow>
       m' = m(p := (m p)\<lparr>tState := StateQueued, tAttempt := 0, tError := []\<rparr>) \<and>
       deadLetter s' = filter (\<lambda>q. q \<noteq> p) (deadLetter s) \<and>
       mset (queue s') = add_mset p (mset (queue s)) \<and> notify s')"
proof (cases "dropWhile (\<lambda>p. tID (m p) \<noteq> k) (deadLetter s)")
  case Nil
  then have no: "\<forall>p \<in> set (deadLetter s). tID (m p) \<noteq> k" by simp
  then show ?thesis
    using assms(1) Nil by (auto simp: sched_RetryFromDLQ_def dlq_loop_result simp del: dropWhile_eq_Nil_conv)
next
  case (Cons p post)
  let ?pre = "takeWhile (\<lambda>p. tID (m p) \<noteq> k) (deadLetter s)"
  have dl: "deadLetter s = ?pre @ p # post" by (metis Cons takeWhile_dropWhile_id)
  have k: "tID (m p) = k" using hd_dropWhile [of "\<lambda>p. tID (m p) \<noteq> k" "deadLetter s"] Cons by simp
  have only: "q = p" if "q \<in> set (deadLetter s)" "tID (m q) = k" for q
    using assms(2) that k dl by (metis (no_types, lifting) distinct_map inj_onD in_set_conv_decomp)
  have "distinct (deadLetter s)" using assms(2) by (simp add: distinct_map)
  then have f: "filter (\<lambda>q. q \<noteq> p) (deadLetter s) = ?pre @ post"
    using filter_neq_middle [of ?pre p post] dl by metis
  have p: "p \<in> set (deadLetter s)" by (subst dl) simp
  have r: "b \<and> m' = m(p := ignore_err (m p) (task_RetryFromDLQ (m p))) \<and> deadLetter s' = ?pre @ post \<and>
      mset (queue s') = add_mset p (mset (queue s)) \<and> notify s'"
    using assms(1) Cons by (auto simp: sched_RetryFromDLQ_def dlq_loop_result Let_def push_queue_def
        Notify_def mset_heap_Push)
  have "\<forall>q \<in> set (deadLetter s). tID (m q) = k \<and> tState (m q) = StateDead \<longrightarrow>
      m' = m(q := (m q)\<lparr>tState := StateQueued, tAttempt := 0, tError := []\<rparr>) \<and>
      deadLetter s' = filter (\<lambda>x. x \<noteq> q) (deadLetter s) \<and>
      mset (queue s') = add_mset q (mset (queue s)) \<and> notify s'"
  proof (intro ballI impI)
    fix q assume "q \<in> set (deadLetter s)" and q: "tID (m q) = k \<and> tState (m q) = StateDead"
    then have "q = p" using only by blast
    with r q f show "m' = m(q := (m q)\<lparr>tState := StateQueued, tAttempt := 0, tError := []\<rparr>) \<and>
      deadLetter s' = filter (\<lambda>x. x \<noteq> q) (deadLetter s) \<and>
      mset (queue s') = add_mset q (mset (queue s)) \<and> notify s'"
      by (simp add: task_RetryFromDLQ_eq)
  qed
  with r k p show ?thesis by blast
qed

theorem dlq_revival_witness:
  "let m = (\<lambda>p. if p = 0 then (New 5 ''a'' ''a.sh'')\<lparr>tState := StateDead, tAttempt := 3\<rparr>
             else (New 4 ''c'' ''c.sh'')\<lparr>tState := StateDead, tAttempt := 3\<rparr>);
       s = (NewScheduler m 0)\<lparr>deadLetter := [0, 1]\<rparr>
   in case sched_RetryFromDLQ ''a'' (m, s) of
        (b, m', s') \<Rightarrow> b \<and> tAttempt (m' 0) = 0 \<and> deadLetter s' = [1] \<and> queue s' = [0]"
proof -
  let ?m = "\<lambda>p :: nat. if p = 0 then (New 5 ''a'' ''a.sh'')\<lparr>tState := StateDead, tAttempt := 3\<rparr>
             else (New 4 ''c'' ''c.sh'')\<lparr>tState := StateDead, tAttempt := 3\<rparr>"
  let ?s = "(NewScheduler ?m 0)\<lparr>deadLetter := [0, 1]\<rparr>"
  obtain b m' s' where r: "sched_RetryFromDLQ ''a'' (?m, ?s) = (b, m', s')" by (metis prod_cases3)
  have d: "distinct (map (\<lambda>p. tID (?m p)) (deadLetter ?s))" by (simp add: New_def)
  have "b \<and> tAttempt (m' 0) = 0 \<and> deadLetter s' = [1] \<and> queue s' = [0]"
    using dlq_revival [OF r d] by (simp add: NewScheduler_def New_def)
  then show ?thesis unfolding Let_def r prod.case .
qed

text \<open>
  \<open>Complete\<close> hands back the in-flight task it completes and takes it out of flight; an unknown
  identifier changes nothing. The completed window afterwards is the last hundred of the completed
  tasks, the newest last.
\<close>

theorem complete_keeps_newest:
  assumes "sched_Complete now k out code (m, s) = (r, m', s')"
  shows "r = gm_get (inFlight s) k \<and> (r = None \<longrightarrow> m' = m \<and> s' = s) \<and>
    (\<forall>p. r = Some p \<longrightarrow>
       inFlight s' = gm_del k (inFlight s) \<and> totalCompleted s' = totalCompleted s + 1 \<and>
       (\<exists>old. completed s @ [p] = old @ completed s' \<and>
          length (completed s') = min (length (completed s) + 1) maxCompleted) \<and>
       (tState (m p) = StateRunning \<longrightarrow>
          m' = m(p := (m p)\<lparr>tState := StateCompleted, tOutput := out, tExitCode := code,
                 tCompletedAt := now\<rparr>)))"
proof -
  have w: "\<exists>old. ps = old @ cap_completed ps \<and> length (cap_completed ps) = min (length ps) maxCompleted" for ps
  proof (cases "maxCompleted < length ps")
    case True
    then show ?thesis
      by (intro exI [of _ "take (length ps - maxCompleted) ps"]) (simp add: cap_completed_def)
  qed (simp add: cap_completed_def)
  show ?thesis
    using assms w [of "completed s @ [p]" for p]
    by (auto simp: sched_Complete_def task_Complete_eq split: option.splits)
qed

theorem complete_keeps_newest_witness:
  "let t = (New 5 ''a'' ''a.sh'')\<lparr>tState := StateRunning\<rparr>; m = (\<lambda>p. t);
       s = (NewScheduler m 0)\<lparr>inFlight := [(''a'', 7)], completed := replicate 100 3\<rparr>
   in case sched_Complete 9 ''a'' ''ok'' 0 (m, s) of
        (r, m', s') \<Rightarrow> r = Some 7 \<and> inFlight s' = [] \<and> length (completed s') = 100 \<and>
          tState (m' 7) = StateCompleted"
proof -
  let ?m = "\<lambda>p :: nat. (New 5 ''a'' ''a.sh'')\<lparr>tState := StateRunning\<rparr>"
  let ?s = "(NewScheduler ?m 0)\<lparr>inFlight := [(''a'', 7)], completed := replicate 100 3\<rparr>"
  obtain r m' s' where c: "sched_Complete 9 ''a'' ''ok'' 0 (?m, ?s) = (r, m', s')"
    by (metis prod_cases3)
  have "gm_get (inFlight ?s) ''a'' = Some 7" by (simp add: gm_get_def)
  then have "r = Some 7 \<and> inFlight s' = [] \<and> length (completed s') = 100 \<and> tState (m' 7) = StateCompleted"
    using complete_keeps_newest [OF c] by (auto simp: NewScheduler_def gm_del_def maxCompleted_def)
  then show ?thesis unfolding Let_def c prod.case .
qed

end
