(* ===== verification/CircuitBreaker.thy ===== *)
theory CircuitBreaker
  imports Prelude
begin

text \<open>
  The per-worker circuit breakers, \<open>src/internal/circuitbreaker/circuit_breaker.go\<close>: the breaker and
  its methods, each one critical section of \<open>cb.mu\<close>, and the registry that creates breakers on
  demand under double-checked locking. A three-state automaton on natural numbers is the
  specification; the methods on \<open>int64\<close> counters implement it.
\<close>

section \<open>The breaker\<close>

text \<open>\<open>State\<close> is an integer; the last constructor stands for the values the \<open>default\<close> branches see.\<close>

datatype cb_state = StateClosed | StateOpen | StateHalfOpen | CbStateOther int

fun cb_state_String :: "cb_state \<Rightarrow> string" where
  "cb_state_String StateClosed = ''CLOSED''"
| "cb_state_String StateOpen = ''OPEN''"
| "cb_state_String StateHalfOpen = ''HALF_OPEN''"
| "cb_state_String (CbStateOther _) = ''UNKNOWN''"

record breaker =
  cbState :: cb_state
  failureCount :: int64
  successCount :: int64
  failureThreshold :: int64
  successThreshold :: int64
  cbTimeout :: duration
  lastFailure :: time
  cbWorkerID :: string

definition cb_New :: "string \<Rightarrow> int64 \<Rightarrow> int64 \<Rightarrow> duration \<Rightarrow> breaker" where
  "cb_New workerID fthr sthr timeout =
     \<lparr>cbState = StateClosed, failureCount = 0, successCount = 0, failureThreshold = fthr,
      successThreshold = sthr, cbTimeout = timeout, lastFailure = zero_time, cbWorkerID = workerID\<rparr>"

definition Allow :: "time \<Rightarrow> breaker \<Rightarrow> bool \<times> breaker" where
  "Allow now cb =
     (case cbState cb of
        StateClosed \<Rightarrow> (True, cb)
      | StateOpen \<Rightarrow>
          if cbTimeout cb <s time_Sub now (lastFailure cb)
          then (True, cb\<lparr>cbState := StateHalfOpen, successCount := 0\<rparr>)
          else (False, cb)
      | StateHalfOpen \<Rightarrow> (True, cb)
      | CbStateOther _ \<Rightarrow> (False, cb))"

definition RecordSuccess :: "breaker \<Rightarrow> breaker" where
  "RecordSuccess cb =
     (case cbState cb of
        StateHalfOpen \<Rightarrow>
          let cb = cb\<lparr>successCount := successCount cb + 1\<rparr> in
          if successThreshold cb \<le>s successCount cb
          then cb\<lparr>cbState := StateClosed, failureCount := 0, successCount := 0\<rparr>
          else cb
      | StateClosed \<Rightarrow> cb\<lparr>failureCount := 0\<rparr>
      | _ \<Rightarrow> cb)"

definition RecordFailure :: "time \<Rightarrow> breaker \<Rightarrow> breaker" where
  "RecordFailure now cb =
     (let cb = cb\<lparr>failureCount := failureCount cb + 1, lastFailure := now\<rparr> in
      case cbState cb of
        StateClosed \<Rightarrow>
          if failureThreshold cb \<le>s failureCount cb then cb\<lparr>cbState := StateOpen\<rparr> else cb
      | StateHalfOpen \<Rightarrow> cb\<lparr>cbState := StateOpen\<rparr>
      | _ \<Rightarrow> cb)"

record cb_info =
  infoState :: string
  infoFailureCount :: int64
  infoFailureThreshold :: int64
  infoSuccessCount :: int64
  infoSuccessThreshold :: int64
  infoLastFailure :: string

definition GetState :: "breaker \<Rightarrow> cb_state" where
  "GetState cb = cbState cb"

text \<open>\<open>fmt\<close> is \<open>Format(time.RFC3339)\<close> in the process's time zone.\<close>

definition GetInfo :: "(time \<Rightarrow> string) \<Rightarrow> breaker \<Rightarrow> cb_info" where
  "GetInfo fmt cb =
     (let info = \<lparr>infoState = cb_state_String (cbState cb), infoFailureCount = failureCount cb,
            infoFailureThreshold = failureThreshold cb, infoSuccessCount = successCount cb,
            infoSuccessThreshold = successThreshold cb, infoLastFailure = []\<rparr> in
      if \<not> IsZero (lastFailure cb) then info\<lparr>infoLastFailure := fmt (lastFailure cb)\<rparr> else info)"

definition Trip :: "time \<Rightarrow> breaker \<Rightarrow> breaker" where
  "Trip now cb = cb\<lparr>cbState := StateOpen, lastFailure := now\<rparr>"

definition Reset :: "breaker \<Rightarrow> breaker" where
  "Reset cb = cb\<lparr>cbState := StateClosed, failureCount := 0, successCount := 0\<rparr>"

definition cb_String :: "breaker \<Rightarrow> string" where
  "cb_String cb = ''CB['' @ cbWorkerID cb @ '' state='' @ cb_state_String (cbState cb) @
     '' failures='' @ fmt_int (sint (failureCount cb)) @ '']''"

text \<open>The calls other components make on a breaker.\<close>

datatype cb_op = OpAllow time | OpSuccess | OpFailure time | OpTrip time | OpReset

fun cb_exec :: "cb_op \<Rightarrow> breaker \<Rightarrow> breaker" where
  "cb_exec (OpAllow now) cb = snd (Allow now cb)"
| "cb_exec OpSuccess cb = RecordSuccess cb"
| "cb_exec (OpFailure now) cb = RecordFailure now cb"
| "cb_exec (OpTrip now) cb = Trip now cb"
| "cb_exec OpReset cb = Reset cb"

section \<open>The registry\<close>

text \<open>
  Breakers are shared through pointers, so the registry maps a worker to a cell of the breakers'
  store \<open>cells\<close>; \<open>next_cell\<close> is the next fresh address.
\<close>

record registry =
  breakers :: "(string, ref) gomap"
  regFailureThreshold :: int64
  regSuccessThreshold :: int64
  regTimeout :: duration
  cells :: "ref \<Rightarrow> breaker"
  next_cell :: ref

definition NewRegistry :: "int64 \<Rightarrow> int64 \<Rightarrow> duration \<Rightarrow> (ref \<Rightarrow> breaker) \<Rightarrow> registry" where
  "NewRegistry fthr sthr timeout mem =
     \<lparr>breakers = [], regFailureThreshold = fthr, regSuccessThreshold = sthr, regTimeout = timeout,
      cells = mem, next_cell = 0\<rparr>"

text \<open>\<open>Get\<close> is two critical sections: the look under the read lock, and the look and insertion under
  the write lock when the first found nothing.\<close>

definition Get_read :: "string \<Rightarrow> registry \<Rightarrow> ref option" where
  "Get_read workerID r = gm_get (breakers r) workerID"

definition Get_write :: "string \<Rightarrow> registry \<Rightarrow> ref \<times> registry" where
  "Get_write workerID r =
     (case gm_get (breakers r) workerID of
        Some p \<Rightarrow> (p, r)
      | None \<Rightarrow>
          let p = next_cell r;
              cb = cb_New workerID (regFailureThreshold r) (regSuccessThreshold r) (regTimeout r)
          in (p, r\<lparr>cells := (cells r)(p := cb), next_cell := p + 1,
                   breakers := gm_put workerID p (breakers r)\<rparr>))"

definition reg_Get :: "string \<Rightarrow> registry \<Rightarrow> ref \<times> registry" where
  "reg_Get workerID r =
     (case Get_read workerID r of Some p \<Rightarrow> (p, r) | None \<Rightarrow> Get_write workerID r)"

definition Remove :: "string \<Rightarrow> registry \<Rightarrow> registry" where
  "Remove workerID r = r\<lparr>breakers := gm_del workerID (breakers r)\<rparr>"

definition GetAll :: "(time \<Rightarrow> string) \<Rightarrow> string list \<Rightarrow> registry \<Rightarrow> (string, cb_info) gomap" where
  "GetAll fmt ks r =
     fold (\<lambda>(k, p) result. gm_put k (GetInfo fmt (cells r p)) result) (gm_range ks (breakers r)) []"

text \<open>A method call on the breaker at \<open>p\<close>.\<close>

definition at_cell :: "ref \<Rightarrow> (breaker \<Rightarrow> breaker) \<Rightarrow> registry \<Rightarrow> registry" where
  "at_cell p f r = r\<lparr>cells := (cells r)(p := f (cells r p))\<rparr>"

text \<open>Goroutines in the middle of \<open>Get\<close>, interleaved with each other and with method calls.\<close>

datatype get_pc = GetStart string | GetMissed string | GetDone string ref

inductive reg_step :: "registry \<times> (nat \<Rightarrow> get_pc) \<Rightarrow> registry \<times> (nat \<Rightarrow> get_pc) \<Rightarrow> bool" where
  read_hit: "pc i = GetStart w \<Longrightarrow> Get_read w r = Some p \<Longrightarrow> reg_step (r, pc) (r, pc(i := GetDone w p))"
| read_miss: "pc i = GetStart w \<Longrightarrow> Get_read w r = None \<Longrightarrow> reg_step (r, pc) (r, pc(i := GetMissed w))"
| locked: "pc i = GetMissed w \<Longrightarrow> Get_write w r = (p, r') \<Longrightarrow> reg_step (r, pc) (r', pc(i := GetDone w p))"
| call: "reg_step (r, pc) (at_cell p (cb_exec op) r, pc)"
| again: "reg_step (r, pc) (r, pc(i := GetStart w))"

inductive_cases reg_stepE: "reg_step st st'"

section \<open>The specification\<close>

text \<open>
  What the package comment describes: closed with a number of consecutive failures, open since a
  time, or probing with a number of successes.
\<close>

datatype gate = GClosed nat | GOpen time | GProbing nat

fun gate_exec :: "nat \<Rightarrow> nat \<Rightarrow> int \<Rightarrow> cb_op \<Rightarrow> gate \<Rightarrow> gate" where
  "gate_exec fthr sthr timeout (OpAllow now) (GOpen since) =
     (if now - since > timeout then GProbing 0 else GOpen since)"
| "gate_exec fthr sthr timeout OpSuccess (GClosed n) = GClosed 0"
| "gate_exec fthr sthr timeout OpSuccess (GProbing k) =
     (if sthr \<le> k + 1 then GClosed 0 else GProbing (k + 1))"
| "gate_exec fthr sthr timeout (OpFailure now) (GClosed n) =
     (if fthr \<le> n + 1 then GOpen now else GClosed (n + 1))"
| "gate_exec fthr sthr timeout (OpFailure now) (GProbing k) = GOpen now"
| "gate_exec fthr sthr timeout (OpFailure now) (GOpen since) = GOpen now"
| "gate_exec fthr sthr timeout (OpTrip now) g = GOpen now"
| "gate_exec fthr sthr timeout OpReset g = GClosed 0"
| "gate_exec fthr sthr timeout _ g = g"

fun gate_allows :: "int \<Rightarrow> time \<Rightarrow> gate \<Rightarrow> bool" where
  "gate_allows timeout now (GOpen since) = (now - since > timeout)"
| "gate_allows timeout now _ = True"

definition gate_of :: "breaker \<Rightarrow> gate" where
  "gate_of cb =
     (case cbState cb of
        StateOpen \<Rightarrow> GOpen (lastFailure cb)
      | StateHalfOpen \<Rightarrow> GProbing (nat (sint (successCount cb)))
      | _ \<Rightarrow> GClosed (nat (sint (failureCount cb))))"

text \<open>
  The counters that decide stay below their thresholds, so they never wrap. The others may: the
  failure count of an open breaker grows with every late report and is reset before it is read.
\<close>

definition cb_inv :: "breaker \<Rightarrow> bool" where
  "cb_inv cb \<longleftrightarrow>
     0 <s failureThreshold cb \<and> 0 <s successThreshold cb \<and> sint (cbTimeout cb) < 9223372036854775807 \<and>
     (case cbState cb of
        StateClosed \<Rightarrow> 0 \<le>s failureCount cb \<and> failureCount cb <s failureThreshold cb
      | StateOpen \<Rightarrow> True
      | StateHalfOpen \<Rightarrow> 0 \<le>s successCount cb \<and> successCount cb <s successThreshold cb
      | CbStateOther _ \<Rightarrow> False)"

section \<open>The implementation meets the specification\<close>

lemmas cb_defs = Allow_def RecordSuccess_def RecordFailure_def Trip_def Reset_def Let_def

lemma cb_exec_config [simp]:
  "failureThreshold (cb_exec a cb) = failureThreshold cb"
  "successThreshold (cb_exec a cb) = successThreshold cb"
  "cbTimeout (cb_exec a cb) = cbTimeout cb"
  "cbWorkerID (cb_exec a cb) = cbWorkerID cb"
  by (cases a; simp add: cb_defs split: cb_state.split)+

lemma cb_inv_New:
  "0 <s fthr \<Longrightarrow> 0 <s sthr \<Longrightarrow> sint timeout < 9223372036854775807 \<Longrightarrow> cb_inv (cb_New w fthr sthr timeout)"
  by (simp add: cb_inv_def cb_New_def)

text \<open>A counter below its threshold can be incremented without wrapping.\<close>

lemma count_Suc: "sint x < sint y \<Longrightarrow> sint (x + 1) = sint x + 1" for x y :: int64
  by (rule sint_Suc [of x y]) (simp add: word_sless_alt)

lemma cb_inv_exec: "cb_inv cb \<Longrightarrow> cb_inv (cb_exec a cb)"
  using count_Suc [of "failureCount cb" "failureThreshold cb"]
    count_Suc [of "successCount cb" "successThreshold cb"]
  by (cases a)
    (auto simp: cb_inv_def cb_defs word_sle_eq word_sless_alt not_le split: cb_state.splits)

lemma gate_refines:
  assumes "cb_inv cb"
  shows "gate_of (cb_exec a cb) =
    gate_exec (nat (sint (failureThreshold cb))) (nat (sint (successThreshold cb)))
      (sint (cbTimeout cb)) a (gate_of cb)"
  using assms count_Suc [of "failureCount cb" "failureThreshold cb"]
    count_Suc [of "successCount cb" "successThreshold cb"]
  by (cases a)
    (auto simp: cb_inv_def gate_of_def cb_defs sint_time_Sub_greater word_sle_eq word_sless_alt
      nat_add_distrib split: cb_state.splits)

lemma gate_allows_iff:
  assumes "cb_inv cb"
  shows "fst (Allow now cb) = gate_allows (sint (cbTimeout cb)) now (gate_of cb)"
  using assms
  by (auto simp: cb_inv_def gate_of_def cb_defs sint_time_Sub_greater word_sless_alt split: cb_state.splits)

text \<open>Runs: the methods in any order, from a new breaker.\<close>

lemma cb_run:
  assumes "cb_inv cb"
  shows "cb_inv (fold cb_exec as cb) \<and>
    gate_of (fold cb_exec as cb) =
      fold (gate_exec (nat (sint (failureThreshold cb))) (nat (sint (successThreshold cb)))
        (sint (cbTimeout cb))) as (gate_of cb) \<and>
    cbTimeout (fold cb_exec as cb) = cbTimeout cb"
  using assms
proof (induction as arbitrary: cb)
  case (Cons a as)
  from Cons.IH [OF cb_inv_exec [OF Cons.prems]] gate_refines [OF Cons.prems] show ?case by simp
qed simp

section \<open>The registry under concurrency\<close>

text \<open>
  Every cell in use is below \<open>next_cell\<close>, and a goroutine that has returned from \<open>Get\<close> holds the
  breaker the registry has for its worker.
\<close>

definition reg_inv :: "registry \<times> (nat \<Rightarrow> get_pc) \<Rightarrow> bool" where
  "reg_inv = (\<lambda>(r, pc). (\<forall>w p. gm_get (breakers r) w = Some p \<longrightarrow> p < next_cell r \<and> cbWorkerID (cells r p) = w) \<and>
     (\<forall>i w p. pc i = GetDone w p \<longrightarrow> gm_get (breakers r) w = Some p))"

lemma reg_inv_step: "reg_inv st \<Longrightarrow> reg_step st st' \<Longrightarrow> reg_inv st'"
  by (erule reg_stepE)
    (auto simp: reg_inv_def Get_read_def Get_write_def at_cell_def cb_New_def Let_def
      intro: less_SucI split: option.splits if_splits)

definition reg_start :: "registry \<times> (nat \<Rightarrow> get_pc) \<Rightarrow> bool" where
  "reg_start = (\<lambda>(r, pc). breakers r = [] \<and> (\<forall>i. \<exists>w. pc i = GetStart w))"

interpretation registry: inv_system reg_start reg_step reg_inv
proof
  show "reg_start st \<Longrightarrow> reg_inv st" for st
    by (auto simp: reg_start_def reg_inv_def) (metis get_pc.distinct(3))
  show "reg_inv st \<Longrightarrow> reg_step st st' \<Longrightarrow> reg_inv st'" for st st' by (rule reg_inv_step)
qed

section \<open>The gate\<close>

lemma gate_failures:
  "0 < fthr \<Longrightarrow> n < fthr \<Longrightarrow>
     fold (gate_exec fthr sthr timeout) (map OpFailure ts) (GClosed n) =
       (if fthr \<le> n + length ts then GOpen (last ts) else GClosed (n + length ts))"
proof (induction ts arbitrary: n)
  case (Cons t ts)
  have open': "fold (gate_exec fthr sthr timeout) (map OpFailure us) (GOpen u) = GOpen (last (u # us))" for us u
    by (induction us arbitrary: u) auto
  show ?case
  proof (cases "fthr \<le> n + 1")
    case True
    then show ?thesis using open' [of ts t] by simp
  next
    case False
    then show ?thesis using Cons by auto
  qed
qed simp

lemma gate_successes:
  "k < sthr \<Longrightarrow> fold (gate_exec fthr sthr timeout) (replicate n OpSuccess) (GProbing k) =
     (if sthr \<le> k + n then GClosed 0 else GProbing (k + n))"
proof (induction n arbitrary: k)
  case (Suc n)
  have closed: "(gate_exec fthr sthr timeout OpSuccess ^^ n) (GClosed 0) = GClosed 0" for n
    by (induction n) auto
  show ?case
  proof (cases "sthr \<le> k + 1")
    case True
    then show ?thesis by (simp add: closed)
  next
    case False
    then show ?thesis using Suc by auto
  qed
qed simp

lemma gate_of_state:
  assumes "cb_inv cb"
  shows "cbState cb = StateClosed \<longleftrightarrow> (\<exists>n. gate_of cb = GClosed n)"
    "cbState cb = StateOpen \<longleftrightarrow> (\<exists>t. gate_of cb = GOpen t)"
    "cbState cb = StateHalfOpen \<longleftrightarrow> (\<exists>k. gate_of cb = GProbing k)"
  using assms by (auto simp: gate_of_def cb_inv_def split: cb_state.splits)

section \<open>Properties of the circuit breaker\<close>



text \<open>
  A closed breaker without recorded failures trips at exactly \<open>failureThreshold\<close> consecutive
  failures, not before and not later.
\<close>

theorem breaker_trips_at_threshold:
  assumes "cb_inv cb" and "cbState cb = StateClosed" and "failureCount cb = 0"
  shows "cbState (fold cb_exec (map OpFailure ts) cb) =
    (if sint (failureThreshold cb) \<le> int (length ts) then StateOpen else StateClosed)"
proof -
  let ?f = "nat (sint (failureThreshold cb))"
  have f: "0 < ?f" using assms(1) by (simp add: cb_inv_def word_sless_alt)
  have "gate_of cb = GClosed 0" using assms(2,3) by (simp add: gate_of_def)
  with cb_run [OF assms(1), of "map OpFailure ts"] gate_failures [OF f f]
  have "cb_inv (fold cb_exec (map OpFailure ts) cb)"
    "gate_of (fold cb_exec (map OpFailure ts) cb) =
       (if ?f \<le> length ts then GOpen (last ts) else GClosed (length ts))" by simp_all
  with gate_of_state [OF this(1)] show ?thesis by (auto split: if_splits)
qed

theorem breaker_trips_at_threshold_witness:
  "cbState (fold cb_exec (map OpFailure [1, 2, 3]) (cb_New ''w'' 3 2 30)) = StateOpen \<and>
   cbState (fold cb_exec (map OpFailure [1, 2]) (cb_New ''w'' 3 2 30)) = StateClosed"
proof -
  have inv: "cb_inv (cb_New ''w'' 3 2 30)" by (rule cb_inv_New) (simp_all add: word_sless_alt)
  have c: "cbState (cb_New ''w'' 3 2 30) = StateClosed" "failureCount (cb_New ''w'' 3 2 30) = 0"
    "sint (failureThreshold (cb_New ''w'' 3 2 30)) = 3" by (simp_all add: cb_New_def)
  show ?thesis
    using breaker_trips_at_threshold [OF inv c(1,2), of "[1, 2, 3]"]
      breaker_trips_at_threshold [OF inv c(1,2), of "[1, 2]"] by (simp only: c) simp
qed

text \<open>
  while the breaker is open, no call is let through until more than \<open>timeout\<close> has passed since
  the last failure, whatever successes are reported meanwhile; the first call after that is let
  through and puts the breaker on probation.
\<close>

theorem open_breaker_blocks:
  assumes "cb_inv cb" and "cbState cb = StateOpen"
    and "\<forall>a \<in> set as. a = OpSuccess \<or> (\<exists>t. a = OpAllow t \<and> t - lastFailure cb \<le> sint (cbTimeout cb))"
  shows "fold cb_exec as cb = cb \<and>
    fst (Allow now (fold cb_exec as cb)) = (sint (cbTimeout cb) < now - lastFailure cb) \<and>
    (sint (cbTimeout cb) < now - lastFailure cb \<longrightarrow>
       cbState (snd (Allow now (fold cb_exec as cb))) = StateHalfOpen)"
proof -
  have "cb_exec a cb = cb" if "a \<in> set as" for a
    using assms that by (auto simp: cb_defs sint_time_Sub_greater word_sless_alt)
  then have "fold cb_exec as cb = cb" by (induction as) simp_all
  then show ?thesis
    using assms(1,2) by (auto simp: Allow_def cb_inv_def sint_time_Sub_greater word_sless_alt)
qed

theorem open_breaker_blocks_witness:
  "let cb = fold cb_exec (map OpFailure [1, 2, 3]) (cb_New ''w'' 3 2 30)
   in fst (Allow 33 (fold cb_exec [OpAllow 20, OpSuccess, OpAllow 33] cb)) = False \<and>
      fst (Allow 34 (fold cb_exec [OpAllow 20, OpSuccess, OpAllow 33] cb)) = True"
proof -
  let ?cb = "fold cb_exec (map OpFailure [1, 2, 3]) (cb_New ''w'' 3 2 30)"
  have "cb_inv (cb_New ''w'' 3 2 30)" by (rule cb_inv_New) (simp_all add: word_sless_alt)
  then have inv: "cb_inv ?cb" by (simp add: cb_inv_exec del: cb_exec.simps)
  have cb: "cbState ?cb = StateOpen" "lastFailure ?cb = 3" "sint (cbTimeout ?cb) = 30"
    by (simp_all add: RecordFailure_def cb_New_def Let_def word_sle_eq)
  have "\<forall>a \<in> set [OpAllow 20, OpSuccess, OpAllow 33].
    a = OpSuccess \<or> (\<exists>t. a = OpAllow t \<and> t - lastFailure ?cb \<le> sint (cbTimeout ?cb))"
    by (simp only: cb) simp
  note b = open_breaker_blocks [OF inv cb(1) this]
  have "fst (Allow 33 (fold cb_exec [OpAllow 20, OpSuccess, OpAllow 33] ?cb)) = (30 < 33 - (3 :: int))"
    "fst (Allow 34 (fold cb_exec [OpAllow 20, OpSuccess, OpAllow 33] ?cb)) = (30 < 34 - (3 :: int))"
    using b [of 33] b [of 34] unfolding cb by blast+
  then show ?thesis unfolding Let_def by simp
qed

text \<open>
  On probation, \<open>successThreshold\<close> successes in a row close the breaker and fewer do not, and one
  failure opens it again. Until then every call is let through: the probe is not a single request.
\<close>

theorem probation_decides:
  assumes "cb_inv cb" and "cbState cb = StateHalfOpen" and "successCount cb = 0"
  shows "cbState (fold cb_exec (replicate n OpSuccess) cb) =
      (if sint (successThreshold cb) \<le> int n then StateClosed else StateHalfOpen) \<and>
    cbState (RecordFailure now (fold cb_exec (replicate n OpSuccess) cb)) =
      (if sint (successThreshold cb) \<le> int n \<and> 1 < sint (failureThreshold cb) then StateClosed else StateOpen) \<and>
    fold cb_exec (map OpAllow ts) cb = cb \<and> (\<forall>t. fst (Allow t cb))"
proof -
  let ?s = "nat (sint (successThreshold cb))" and ?cb = "fold cb_exec (replicate n OpSuccess) cb"
  have s: "0 < ?s" using assms(1) by (simp add: cb_inv_def word_sless_alt)
  have "gate_of cb = GProbing 0" using assms(2,3) by (simp add: gate_of_def)
  with cb_run [OF assms(1), of "replicate n OpSuccess"] gate_successes [OF s]
  have inv: "cb_inv ?cb" and g: "gate_of ?cb = (if ?s \<le> n then GClosed 0 else GProbing n)"
    by (simp_all del: fold_replicate)
  have st: "cbState ?cb = (if sint (successThreshold cb) \<le> int n then StateClosed else StateHalfOpen)"
    using g gate_of_state [OF inv] by (auto split: if_splits simp del: fold_replicate)
  have conf: "failureThreshold (fold cb_exec as cb) = failureThreshold cb" for as
    by (induction as arbitrary: cb) simp_all
  have "gate_of (cb_exec (OpFailure now) ?cb) =
      (if ?s \<le> n \<and> 1 < nat (sint (failureThreshold cb)) then GClosed 1 else GOpen now)"
    using gate_refines [OF inv, of "OpFailure now"] by (auto simp add: g conf simp del: fold_replicate cb_exec.simps)
  then have "cbState (cb_exec (OpFailure now) ?cb) =
      (if sint (successThreshold cb) \<le> int n \<and> 1 < sint (failureThreshold cb) then StateClosed else StateOpen)"
    using gate_of_state [OF cb_inv_exec [OF inv], of "OpFailure now"]
    by (auto split: if_splits simp del: fold_replicate cb_exec.simps)
  moreover have "fold cb_exec (map OpAllow ts) cb = cb"
    using assms(2) by (induction ts) (simp_all add: Allow_def)
  ultimately show ?thesis using st assms(2) by (simp add: Allow_def del: fold_replicate)
qed

theorem probation_decides_witness:
  "let cb = fold cb_exec [OpFailure 1, OpFailure 2, OpFailure 3, OpAllow 40] (cb_New ''w'' 3 2 30)
   in cbState (fold cb_exec (replicate 2 OpSuccess) cb) = StateClosed \<and>
      cbState (RecordFailure 50 (fold cb_exec (replicate 1 OpSuccess) cb)) = StateOpen"
proof -
  let ?cb = "fold cb_exec [OpFailure 1, OpFailure 2, OpFailure 3, OpAllow 40] (cb_New ''w'' 3 2 30)"
  have "cb_inv (cb_New ''w'' 3 2 30)" by (rule cb_inv_New) (simp_all add: word_sless_alt)
  then have inv: "cb_inv ?cb" by (simp add: cb_inv_exec del: cb_exec.simps)
  have cb: "cbState ?cb = StateHalfOpen" "successCount ?cb = 0" "sint (successThreshold ?cb) = 2"
    by (simp_all add: RecordFailure_def Allow_def cb_New_def Let_def word_sle_eq word_sless_alt sint_time_Sub)
  show ?thesis
    using probation_decides [OF inv cb(1,2), of 2 50 "[]"] probation_decides [OF inv cb(1,2), of 1 50 "[]"]
    by (simp only: cb Let_def) simp
qed

text \<open>
  Goroutines that race through \<open>Get\<close> for one worker all return the same breaker, and it carries
  that worker's identifier: the second look under the write lock never replaces a breaker.
\<close>

theorem registry_one_breaker_per_worker:
  assumes "reach reg_start reg_step (r, pc)"
    and "pc i = GetDone w p" and "pc j = GetDone w q"
  shows "p = q \<and> cbWorkerID (cells r p) = w"
proof -
  from registry.reach_inv [OF assms(1)] have inv: "reg_inv (r, pc)" .
  then have "gm_get (breakers r) w = Some p" "gm_get (breakers r) w = Some q"
    using assms(2,3) unfolding reg_inv_def prod.case by blast+
  with inv show ?thesis unfolding reg_inv_def prod.case by auto
qed

theorem registry_one_breaker_per_worker_witness:
  "\<exists>r pc. pc (0 :: nat) = GetDone ''w'' 0 \<and> pc 1 = GetDone ''w'' 0 \<and> reach reg_start reg_step (r, pc) \<and>
     cbWorkerID (cells r 0) = ''w''"
proof -
  let ?r0 = "NewRegistry 5 2 30 (\<lambda>_. cb_New [] 1 1 0)" and ?pc0 = "\<lambda>i :: nat. GetStart ''w''"
  let ?r1 = "snd (Get_write ''w'' ?r0)"
  let ?pc1 = "?pc0(0 := GetMissed ''w'')" let ?pc2 = "?pc1(1 := GetMissed ''w'')"
  let ?pc3 = "?pc2(0 := GetDone ''w'' 0)" let ?pc4 = "?pc3(1 := GetDone ''w'' 0)"
  have r: "Get_read ''w'' ?r0 = None" "Get_write ''w'' ?r0 = (0, ?r1)" "Get_write ''w'' ?r1 = (0, ?r1)"
    by (simp_all add: Get_read_def Get_write_def NewRegistry_def Let_def)
  have "reach reg_start reg_step (?r0, ?pc0)" by (rule reach_init) (simp add: reg_start_def NewRegistry_def)
  then have "reach reg_start reg_step (?r0, ?pc1)" by (rule reach_step) (rule read_miss, simp, rule r)
  then have "reach reg_start reg_step (?r0, ?pc2)" by (rule reach_step) (rule read_miss, simp, rule r)
  then have "reach reg_start reg_step (?r1, ?pc3)" by (rule reach_step) (rule locked, simp, rule r)
  then have "reach reg_start reg_step (?r1, ?pc4)" by (rule reach_step) (rule locked, simp, rule r)
  moreover from registry_one_breaker_per_worker [OF this, of 0 "''w''" 0 1 0]
  have "cbWorkerID (cells ?r1 0) = ''w''" by simp
  ultimately show ?thesis by (intro exI [of _ ?r1] exI [of _ ?pc4]) simp
qed

end
