(* ===== verification/EventBus.thy ===== *)
theory EventBus
  imports Prelude
begin

text \<open>
  The publish/subscribe bus, \<open>src/internal/events/event_bus.go\<close>. Subscribers are buffered channels in
  a store of their own; a send on a closed channel, and a second close, are the panics the model
  makes visible. The step relation interleaves publishers, each under the read lock, with
  subscribers that come, go and receive.
\<close>

section \<open>Events and channels\<close>

datatype event_type =
    EventTaskQueued | EventTaskAssigned | EventTaskCompleted | EventTaskFailed | EventTaskRetrying
  | EventTaskDead | EventWorkerConnected | EventWorkerDisconnected | EventWorkerSuspect
  | EventWorkerDead | EventChaosWorkerKilled | EventChaosCBTripped | EventChaosCBReset
  | EventBatchSubmitted

text \<open>The payload: the string-keyed maps the publishers build.\<close>

datatype event_val = EvStr string | EvInt int

record event =
  evType :: event_type
  evTimestamp :: time
  evData :: "(string \<times> event_val) list"

record chan =
  ch_buf :: "event list"
  ch_closed :: bool

definition chan_cap :: nat where "chan_cap = 512"

text \<open>\<open>select { case ch <- event: default: }\<close>; a send on a closed channel panics: \<open>None\<close>.\<close>

definition try_send :: "event \<Rightarrow> chan \<Rightarrow> chan option" where
  "try_send e c =
     (if ch_closed c then None
      else if length (ch_buf c) < chan_cap then Some (c\<lparr>ch_buf := ch_buf c @ [e]\<rparr>)
      else Some c)"

definition close_chan :: "chan \<Rightarrow> chan option" where
  "close_chan c = (if ch_closed c then None else Some (c\<lparr>ch_closed := True\<rparr>))"

section \<open>The bus\<close>

record bus =
  subscribers :: "(ref, unit) gomap"
  chans :: "ref \<Rightarrow> chan"
  next_chan :: ref

definition NewBus :: "(ref \<Rightarrow> chan) \<Rightarrow> bus" where
  "NewBus mem = \<lparr>subscribers = [], chans = mem, next_chan = 0\<rparr>"

definition Subscribe :: "bus \<Rightarrow> ref \<times> bus" where
  "Subscribe b =
     (let ch = next_chan b in
      (ch, b\<lparr>chans := (chans b)(ch := \<lparr>ch_buf = [], ch_closed = False\<rparr>), next_chan := ch + 1,
             subscribers := gm_put ch () (subscribers b)\<rparr>))"

text \<open>\<open>Unsubscribe\<close> deletes under the lock and closes after it.\<close>

definition unsub_delete :: "ref \<Rightarrow> bus \<Rightarrow> bus" where
  "unsub_delete ch b = b\<lparr>subscribers := gm_del ch (subscribers b)\<rparr>"

definition unsub_close :: "ref \<Rightarrow> bus \<Rightarrow> bus option" where
  "unsub_close ch b = map_option (\<lambda>c. b\<lparr>chans := (chans b)(ch := c)\<rparr>) (close_chan (chans b ch))"

definition Unsubscribe :: "ref \<Rightarrow> bus \<Rightarrow> bus option" where
  "Unsubscribe ch b = unsub_close ch (unsub_delete ch b)"

definition publish_one :: "event \<Rightarrow> ref \<Rightarrow> bus \<Rightarrow> bus option" where
  "publish_one e ch b = map_option (\<lambda>c. b\<lparr>chans := (chans b)(ch := c)\<rparr>) (try_send e (chans b ch))"

fun publish_loop :: "event \<Rightarrow> ref list \<Rightarrow> bus \<Rightarrow> bus option" where
  "publish_loop e [] b = Some b"
| "publish_loop e (ch # chs) b =
     (case publish_one e ch b of None \<Rightarrow> None | Some b \<Rightarrow> publish_loop e chs b)"

definition Publish :: "time \<Rightarrow> ref list \<Rightarrow> event \<Rightarrow> bus \<Rightarrow> bus option" where
  "Publish now order e b =
     (let e = e\<lparr>evTimestamp := now\<rparr>
      in publish_loop e (map fst (gm_range order (subscribers b))) b)"

definition SubscriberCount :: "bus \<Rightarrow> nat" where
  "SubscriberCount b = length (subscribers b)"

text \<open>A producer that publishes one event after another, at the given times.\<close>

fun publish_all :: "(time \<times> event) list \<Rightarrow> ref list \<Rightarrow> bus \<Rightarrow> bus option" where
  "publish_all [] order b = Some b"
| "publish_all ((now, e) # es) order b =
     (case Publish now order e b of None \<Rightarrow> None | Some b \<Rightarrow> publish_all es order b)"

section \<open>Publishers and subscribers interleaved\<close>

text \<open>
  Each publisher and each unsubscriber is a goroutine with its own program counter. The write lock
  is free only while no publisher is in its loop.
\<close>

datatype bus_pc = Idle | PubLoop event "ref list" | UnsubClosing ref | Panicked

record bus_sys =
  the_bus :: bus
  pcs :: "nat \<Rightarrow> bus_pc"

definition wlock_free :: "bus_sys \<Rightarrow> bool" where
  "wlock_free st \<longleftrightarrow> (\<forall>i e chs. pcs st i \<noteq> PubLoop e chs)"

definition goto :: "nat \<Rightarrow> bus_pc \<Rightarrow> bus_sys \<Rightarrow> bus_sys" where
  "goto i c st = st\<lparr>pcs := (pcs st)(i := c)\<rparr>"

text \<open>An operation that panics leaves the bus as it was and the goroutine at \<open>Panicked\<close>.\<close>

definition or_panic :: "nat \<Rightarrow> bus_pc \<Rightarrow> bus option \<Rightarrow> bus_sys \<Rightarrow> bus_sys" where
  "or_panic i c r st =
     (case r of None \<Rightarrow> goto i Panicked st | Some b \<Rightarrow> goto i c (st\<lparr>the_bus := b\<rparr>))"

text \<open>A subscriber unsubscribes the channel it was given, once: it is still registered then.\<close>

inductive bus_step :: "bus_sys \<Rightarrow> bus_sys \<Rightarrow> bool" where
  subscribe: "pcs st i = Idle \<Longrightarrow> wlock_free st \<Longrightarrow>
    bus_step st (st\<lparr>the_bus := snd (Subscribe (the_bus st))\<rparr>)"
| unsub_lock: "pcs st i = Idle \<Longrightarrow> wlock_free st \<Longrightarrow> ch \<in> gm_keys (subscribers (the_bus st)) \<Longrightarrow>
    bus_step st (goto i (UnsubClosing ch) (st\<lparr>the_bus := unsub_delete ch (the_bus st)\<rparr>))"
| unsub_unlocked: "pcs st i = UnsubClosing ch \<Longrightarrow>
    bus_step st (or_panic i Idle (unsub_close ch (the_bus st)) st)"
| pub_lock: "pcs st i = Idle \<Longrightarrow> range_ok order (subscribers (the_bus st)) \<Longrightarrow>
    bus_step st (goto i (PubLoop e order) st)"
| pub_send: "pcs st i = PubLoop e (ch # chs) \<Longrightarrow>
    bus_step st (or_panic i (PubLoop e chs) (publish_one e ch (the_bus st)) st)"
| pub_unlock: "pcs st i = PubLoop e [] \<Longrightarrow> bus_step st (goto i Idle st)"
| receive: "ch_buf (chans (the_bus st) ch) = e # es \<Longrightarrow>
    bus_step st (st\<lparr>the_bus := (the_bus st)\<lparr>chans :=
      (chans (the_bus st))(ch := (chans (the_bus st) ch)\<lparr>ch_buf := es\<rparr>)\<rparr>\<rparr>)"

inductive_cases bus_stepE: "bus_step st st'"

definition bus_start :: "bus_sys \<Rightarrow> bool" where
  "bus_start st \<longleftrightarrow> subscribers (the_bus st) = [] \<and> (\<forall>i. pcs st i = Idle) \<and>
     (\<forall>ch. length (ch_buf (chans (the_bus st) ch)) \<le> chan_cap)"

text \<open>
  Registered channels are open; a publisher's remaining channels are registered; a channel about to
  be closed is open, registered no more, and no other goroutine's to close.
\<close>

definition bus_ok :: "bus \<Rightarrow> bool" where
  "bus_ok b \<longleftrightarrow> gm_ok (subscribers b) \<and>
     (\<forall>ch \<in> gm_keys (subscribers b). ch < next_chan b \<and> \<not> ch_closed (chans b ch)) \<and>
     (\<forall>ch. length (ch_buf (chans b ch)) \<le> chan_cap)"

definition bus_inv :: "bus_sys \<Rightarrow> bool" where
  "bus_inv st \<longleftrightarrow> bus_ok (the_bus st) \<and>
     (\<forall>i. pcs st i \<noteq> Panicked) \<and>
     (\<forall>i e chs. pcs st i = PubLoop e chs \<longrightarrow> set chs \<subseteq> gm_keys (subscribers (the_bus st))) \<and>
     (\<forall>i ch. pcs st i = UnsubClosing ch \<longrightarrow> ch \<notin> gm_keys (subscribers (the_bus st)) \<and>
        ch < next_chan (the_bus st) \<and> \<not> ch_closed (chans (the_bus st) ch)) \<and>
     (\<forall>i j ch. pcs st i = UnsubClosing ch \<longrightarrow> pcs st j = UnsubClosing ch \<longrightarrow> i = j)"

section \<open>The bus on its own\<close>

lemma publish_one_open:
  "\<not> ch_closed (chans b ch) \<Longrightarrow> publish_one e ch b =
     Some (b\<lparr>chans := (chans b)(ch := (chans b ch)\<lparr>ch_buf :=
       (if length (ch_buf (chans b ch)) < chan_cap then ch_buf (chans b ch) @ [e] else ch_buf (chans b ch))\<rparr>)\<rparr>)"
  by (simp add: publish_one_def try_send_def)

lemma publish_loop_open:
  assumes "distinct chs" and "\<forall>ch \<in> set chs. \<not> ch_closed (chans b ch)"
  shows "publish_loop e chs b = Some (b\<lparr>chans := (\<lambda>ch. if ch \<in> set chs \<and> length (ch_buf (chans b ch)) < chan_cap
     then (chans b ch)\<lparr>ch_buf := ch_buf (chans b ch) @ [e]\<rparr> else chans b ch)\<rparr>)"
  using assms
proof (induction chs arbitrary: b)
  case (Cons ch chs)
  then show ?case
    by (auto simp: publish_one_open fun_eq_iff intro!: bus.equality)
qed simp

lemma Publish_result:
  assumes "bus_ok b" and "range_ok order (subscribers b)"
  shows "Publish now order e b = Some (b\<lparr>chans := (\<lambda>ch.
     if ch \<in> gm_keys (subscribers b) \<and> length (ch_buf (chans b ch)) < chan_cap
     then (chans b ch)\<lparr>ch_buf := ch_buf (chans b ch) @ [e\<lparr>evTimestamp := now\<rparr>]\<rparr> else chans b ch)\<rparr>)"
proof -
  have o: "map fst (gm_range order (subscribers b)) = order" using assms(2) by (rule gm_range_keys)
  have "distinct order" "set order = gm_keys (subscribers b)" using assms(2) by (simp_all add: range_ok_def)
  then show ?thesis
    using assms(1) publish_loop_open [of order b "e\<lparr>evTimestamp := now\<rparr>"]
    by (simp add: Publish_def o bus_ok_def)
qed

lemma bus_ok_Subscribe: "bus_ok b \<Longrightarrow> bus_ok (snd (Subscribe b))"
  by (auto simp: bus_ok_def Subscribe_def Let_def)

lemma bus_ok_delete: "bus_ok b \<Longrightarrow> bus_ok (unsub_delete ch b)"
  by (auto simp: bus_ok_def unsub_delete_def)

lemma bus_ok_close:
  "bus_ok b \<Longrightarrow> ch \<notin> gm_keys (subscribers b) \<Longrightarrow> unsub_close ch b = Some b' \<Longrightarrow> bus_ok b'"
  by (auto simp: bus_ok_def unsub_close_def close_chan_def split: if_splits)

lemma bus_ok_publish_one: "bus_ok b \<Longrightarrow> publish_one e ch b = Some b' \<Longrightarrow> bus_ok b'"
  by (auto simp: bus_ok_def publish_one_def try_send_def split: if_splits)

lemma publish_one_frame:
  "publish_one e ch b = Some b' \<Longrightarrow> subscribers b' = subscribers b \<and> next_chan b' = next_chan b \<and>
     (\<forall>c. ch_closed (chans b' c) = ch_closed (chans b c))"
  by (auto simp: publish_one_def try_send_def split: if_splits)

lemma unsub_close_frame:
  "unsub_close ch b = Some b' \<Longrightarrow> subscribers b' = subscribers b \<and> next_chan b' = next_chan b \<and>
     (\<forall>c. c \<noteq> ch \<longrightarrow> ch_closed (chans b' c) = ch_closed (chans b c))"
  by (auto simp: unsub_close_def close_chan_def split: if_splits)

section \<open>No goroutine panics\<close>

lemma bus_inv_subscribe:
  assumes "bus_inv st" and "wlock_free st"
  shows "bus_inv (st\<lparr>the_bus := snd (Subscribe (the_bus st))\<rparr>)"
  using assms bus_ok_Subscribe [of "the_bus st"]
  by (auto simp: bus_inv_def wlock_free_def)
    (auto simp: Subscribe_def Let_def intro: less_SucI split: if_splits)

lemma bus_inv_unsub_lock:
  assumes "bus_inv st" and "wlock_free st" and "ch \<in> gm_keys (subscribers (the_bus st))"
  shows "bus_inv (goto i (UnsubClosing ch) (st\<lparr>the_bus := unsub_delete ch (the_bus st)\<rparr>))"
  using assms bus_ok_delete [of "the_bus st" ch]
  by (auto simp: bus_inv_def wlock_free_def goto_def) (auto simp: unsub_delete_def bus_ok_def)

lemma bus_inv_unsub_close:
  assumes inv: "bus_inv st" and pc: "pcs st i = UnsubClosing ch"
  shows "bus_inv (or_panic i Idle (unsub_close ch (the_bus st)) st)"
proof -
  have ch: "ch \<notin> gm_keys (subscribers (the_bus st))" "\<not> ch_closed (chans (the_bus st) ch)"
    using assms by (auto simp: bus_inv_def)
  then obtain b where b: "unsub_close ch (the_bus st) = Some b"
    by (simp add: unsub_close_def close_chan_def)
  have ok: "bus_ok b" using inv ch(1) b by (auto simp: bus_inv_def intro: bus_ok_close)
  have other: "c \<noteq> ch" if "pcs st j = UnsubClosing c" "j \<noteq> i" for j c
    using inv pc that by (auto simp: bus_inv_def)
  show ?thesis
    using inv ok unsub_close_frame [OF b] other
    by (auto simp: bus_inv_def or_panic_def b goto_def)
qed

lemma bus_inv_send:
  assumes inv: "bus_inv st" and pc: "pcs st i = PubLoop e (ch # chs)"
  shows "bus_inv (or_panic i (PubLoop e chs) (publish_one e ch (the_bus st)) st)"
proof -
  have "ch \<in> gm_keys (subscribers (the_bus st))" "set chs \<subseteq> gm_keys (subscribers (the_bus st))"
    using inv pc by (auto simp: bus_inv_def dest!: spec [of _ i])
  moreover from this(1) obtain b where b: "publish_one e ch (the_bus st) = Some b"
    using inv by (auto simp: bus_inv_def bus_ok_def publish_one_open)
  moreover from b have "bus_ok b" using inv by (auto simp: bus_inv_def intro: bus_ok_publish_one)
  ultimately show ?thesis
    using inv publish_one_frame [OF b] by (auto simp: bus_inv_def or_panic_def goto_def)
qed

lemma bus_inv_receive:
  assumes "bus_inv st" and "ch_buf (chans (the_bus st) ch) = e # es"
  shows "bus_inv (st\<lparr>the_bus := (the_bus st)\<lparr>chans :=
    (chans (the_bus st))(ch := (chans (the_bus st) ch)\<lparr>ch_buf := es\<rparr>)\<rparr>\<rparr>)"
proof -
  have "length (ch_buf (chans (the_bus st) ch)) \<le> chan_cap"
    using assms(1) by (simp add: bus_inv_def bus_ok_def)
  then have "length es \<le> chan_cap" using assms(2) by simp
  with assms(1) show ?thesis by (auto simp: bus_inv_def bus_ok_def)
qed

interpretation bus: inv_system bus_start bus_step bus_inv
proof
  show "bus_start st \<Longrightarrow> bus_inv st" for st by (auto simp: bus_start_def bus_inv_def bus_ok_def)
  fix st st' assume inv: "bus_inv st"
  assume "bus_step st st'"
  then show "bus_inv st'"
  proof (cases rule: bus_step.cases)
    case (pub_lock i order e)
    then show ?thesis using inv by (auto simp: bus_inv_def goto_def range_ok_def)
  next
    case (pub_unlock i e)
    then show ?thesis using inv by (auto simp: bus_inv_def goto_def)
  qed (use inv bus_inv_subscribe bus_inv_unsub_lock bus_inv_unsub_close bus_inv_send bus_inv_receive in blast)+
qed

section \<open>Properties of the bus\<close>

text \<open>
  C17: however publishers, subscribers and receivers interleave, no goroutine ever sends on a closed
  channel or closes one twice, every registered channel is open, and no channel holds more events
  than its buffer has room for.
\<close>

theorem bus_never_panics:
  assumes "reach bus_start bus_step st"
  shows "pcs st i \<noteq> Panicked \<and>
    (\<forall>ch. ch \<in> gm_keys (subscribers (the_bus st)) \<longrightarrow> \<not> ch_closed (chans (the_bus st) ch)) \<and>
    length (ch_buf (chans (the_bus st) ch)) \<le> chan_cap"
  using bus.reach_inv [OF assms] by (simp add: bus_inv_def bus_ok_def)

theorem bus_never_panics_witness:
  "let b = NewBus (\<lambda>_. \<lparr>ch_buf = [], ch_closed = True\<rparr>);
       st = \<lparr>the_bus = snd (Subscribe b), pcs = (\<lambda>_. Idle)\<rparr>
   in reach bus_start bus_step st \<and> gm_keys (subscribers (the_bus st)) = {0} \<and>
      \<not> ch_closed (chans (the_bus st) 0)"
proof -
  let ?b = "NewBus (\<lambda>_. \<lparr>ch_buf = [], ch_closed = True\<rparr>)"
  let ?init = "\<lparr>the_bus = ?b, pcs = (\<lambda>_ :: nat. Idle)\<rparr>"
  let ?st = "\<lparr>the_bus = snd (Subscribe ?b), pcs = (\<lambda>_ :: nat. Idle)\<rparr>"
  have "bus_step ?init (?init\<lparr>the_bus := snd (Subscribe (the_bus ?init))\<rparr>)"
    by (rule bus_step.subscribe) (simp_all add: wlock_free_def)
  then have "bus_step ?init ?st" by simp
  moreover have "reach bus_start bus_step ?init"
    by (rule reach_init) (simp add: bus_start_def NewBus_def chan_cap_def)
  ultimately have r: "reach bus_start bus_step ?st" by (rule reach_step [rotated])
  have k: "gm_keys (subscribers (the_bus ?st)) = {0}" by (simp add: Subscribe_def NewBus_def Let_def)
  show ?thesis using bus_never_panics [OF r] r k unfolding Let_def by blast
qed

text \<open>
  \<open>Publish\<close> appends the stamped event to every subscriber's channel that has room, drops it for
  the others, never blocks, and does so whatever order the runtime walks the map in.
\<close>

theorem publish_reaches_all_with_room:
  assumes "bus_ok b" and "range_ok order (subscribers b)"
  shows "\<exists>b'. Publish now order e b = Some b' \<and> bus_ok b' \<and> subscribers b' = subscribers b \<and>
    (\<forall>ch. ch_buf (chans b' ch) =
       (if ch \<in> gm_keys (subscribers b) \<and> length (ch_buf (chans b ch)) < chan_cap
        then ch_buf (chans b ch) @ [e\<lparr>evTimestamp := now\<rparr>] else ch_buf (chans b ch))) \<and>
    (\<forall>order'. range_ok order' (subscribers b) \<longrightarrow> Publish now order' e b = Some b')"
  using Publish_result [OF assms, of now e] Publish_result [OF assms(1), of _ now e] assms(1)
  by (auto simp: bus_ok_def)

theorem publish_reaches_all_with_room_witness:
  "let b = snd (Subscribe (NewBus (\<lambda>_. \<lparr>ch_buf = [], ch_closed = True\<rparr>)));
       e = \<lparr>evType = EventTaskQueued, evTimestamp = 0, evData = []\<rparr>
   in \<exists>b'. Publish 7 [0] e b = Some b' \<and> ch_buf (chans b' 0) = [e\<lparr>evTimestamp := 7\<rparr>]"
proof -
  let ?b = "snd (Subscribe (NewBus (\<lambda>_. \<lparr>ch_buf = [], ch_closed = True\<rparr>)))"
  let ?e = "\<lparr>evType = EventTaskQueued, evTimestamp = 0, evData = []\<rparr>"
  have ok: "bus_ok ?b" by (rule bus_ok_Subscribe) (simp add: bus_ok_def NewBus_def)
  have r: "range_ok [0] (subscribers ?b)" by (simp add: range_ok_def Subscribe_def NewBus_def Let_def)
  have k: "0 \<in> gm_keys (subscribers ?b)" "ch_buf (chans ?b 0) = []"
    by (simp_all add: Subscribe_def NewBus_def Let_def)
  obtain b' where b': "Publish 7 [0] ?e ?b = Some b'"
      "\<forall>ch. ch_buf (chans b' ch) = (if ch \<in> gm_keys (subscribers ?b) \<and> length (ch_buf (chans ?b ch)) < chan_cap
        then ch_buf (chans ?b ch) @ [?e\<lparr>evTimestamp := 7\<rparr>] else ch_buf (chans ?b ch))"
    using publish_reaches_all_with_room [OF ok r, of 7 ?e] by blast
  then have "ch_buf (chans b' 0) = [?e\<lparr>evTimestamp := 7\<rparr>]" using k by (simp add: chan_cap_def)
  with b'(1) show ?thesis unfolding Let_def by blast
qed

text \<open>
  A subscriber with room for a whole batch receives all of it, in the order it was published.
\<close>

theorem batch_arrives_in_order:
  assumes "bus_ok b" and "range_ok order (subscribers b)" and "ch \<in> gm_keys (subscribers b)"
    and "length (ch_buf (chans b ch)) + length es \<le> chan_cap"
  shows "\<exists>b'. publish_all es order b = Some b' \<and>
    ch_buf (chans b' ch) = ch_buf (chans b ch) @ map (\<lambda>(now, e). e\<lparr>evTimestamp := now\<rparr>) es"
  using assms
proof (induction es arbitrary: b)
  case (Cons x es)
  obtain now e where x: "x = (now, e)" by force
  let ?b = "b\<lparr>chans := (\<lambda>ch. if ch \<in> gm_keys (subscribers b) \<and> length (ch_buf (chans b ch)) < chan_cap
     then (chans b ch)\<lparr>ch_buf := ch_buf (chans b ch) @ [e\<lparr>evTimestamp := now\<rparr>]\<rparr> else chans b ch)\<rparr>"
  have p: "Publish now order e b = Some ?b" using Cons.prems(1,2) by (rule Publish_result)
  have "bus_ok ?b" using Cons.prems(1) by (auto simp: bus_ok_def)
  moreover have buf: "ch_buf (chans ?b ch) = ch_buf (chans b ch) @ [e\<lparr>evTimestamp := now\<rparr>]"
    using Cons.prems(3,4) by simp
  ultimately obtain b' where "publish_all es order ?b = Some b'"
      "ch_buf (chans b' ch) = ch_buf (chans ?b ch) @ map (\<lambda>(now, e). e\<lparr>evTimestamp := now\<rparr>) es"
    using Cons.IH [of ?b] Cons.prems by auto
  then show ?case using p buf by (simp add: x)
qed simp

theorem batch_arrives_in_order_witness:
  "let b = snd (Subscribe (NewBus (\<lambda>_. \<lparr>ch_buf = [], ch_closed = True\<rparr>)));
       e = \<lparr>evType = EventTaskQueued, evTimestamp = 0, evData = []\<rparr>
   in \<exists>b'. publish_all [(7, e), (9, e)] [0] b = Some b' \<and>
        ch_buf (chans b' 0) = [e\<lparr>evTimestamp := 7\<rparr>, e\<lparr>evTimestamp := 9\<rparr>]"
proof -
  let ?b = "snd (Subscribe (NewBus (\<lambda>_. \<lparr>ch_buf = [], ch_closed = True\<rparr>)))"
  let ?e = "\<lparr>evType = EventTaskQueued, evTimestamp = 0, evData = []\<rparr>"
  have ok: "bus_ok ?b" by (rule bus_ok_Subscribe) (simp add: bus_ok_def NewBus_def)
  have r: "range_ok [0] (subscribers ?b)" by (simp add: range_ok_def Subscribe_def NewBus_def Let_def)
  have k: "0 \<in> gm_keys (subscribers ?b)" and n: "ch_buf (chans ?b 0) = []"
    by (simp_all add: Subscribe_def NewBus_def Let_def)
  have "length (ch_buf (chans ?b 0)) + length [(7 :: int, ?e), (9, ?e)] \<le> chan_cap"
    by (simp add: n chan_cap_def)
  from batch_arrives_in_order [OF ok r k this] show ?thesis unfolding Let_def n by simp
qed

end
