(* ===== verification/Store.thy ===== *)
theory Store
  imports Task
begin

text \<open>
  Task persistence, \<open>src/internal/store/\<close>: the interface \<open>TaskStore\<close> as a locale, the in-memory
  implementation, and the BadgerDB implementation over the database and the JSON codec (\<open>TaskCodec\<close>) it calls,
  which are parameters (\<open>kv\<close>, \<open>codec\<close>). \<open>MemoryStore\<close> keeps pointers: what it returns is the task
  as it is now; \<open>BadgerStore\<close> keeps what was marshalled.
\<close>

section \<open>MemoryStore\<close>

type_synonym memory_store = "(string, ref) gomap"

definition NewMemoryStore :: memory_store where
  "NewMemoryStore = []"

definition mem_Save :: "tasks \<Rightarrow> ref \<Rightarrow> memory_store \<Rightarrow> memory_store" where
  "mem_Save m p s = gm_put (tID (m p)) p s"

definition mem_Get :: "memory_store \<Rightarrow> string \<Rightarrow> ref option" where
  "mem_Get s taskid = gm_get s taskid"

definition mem_List :: "string list \<Rightarrow> memory_store \<Rightarrow> ref list" where
  "mem_List ks s = map snd (gm_range ks s)"

definition mem_Delete :: "string \<Rightarrow> memory_store \<Rightarrow> memory_store" where
  "mem_Delete taskid s = gm_del taskid s"

definition mem_GetByState :: "string list \<Rightarrow> tasks \<Rightarrow> state \<Rightarrow> memory_store \<Rightarrow> ref list" where
  "mem_GetByState ks m st s = filter (\<lambda>p. tState (m p) = st) (map snd (gm_range ks s))"

definition mem_Close :: "memory_store \<Rightarrow> memory_store" where
  "mem_Close s = s"

section \<open>BadgerStore\<close>

text \<open>
  The calls on the database: \<open>Set\<close> and \<open>Delete\<close> in an update transaction, \<open>Get\<close> in a view, where a
  missing key is \<open>None\<close>, and the iterator over a prefix. \<open>Inl\<close> is an error.
\<close>

record ('db, 'b) kv =
  kv_set :: "string \<Rightarrow> 'b \<Rightarrow> 'db \<Rightarrow> string + 'db"
  kv_get :: "'db \<Rightarrow> string \<Rightarrow> string + 'b option"
  kv_delete :: "string \<Rightarrow> 'db \<Rightarrow> string + 'db"
  kv_iter :: "string \<Rightarrow> 'db \<Rightarrow> string + (string \<times> 'b) list"

record 'b codec =
  marshal :: "task \<Rightarrow> string + 'b"
  unmarshal :: "'b \<Rightarrow> string + task"

definition taskKey :: "string \<Rightarrow> string" where
  "taskKey taskid = ''task:'' @ taskid"

definition badger_Save :: "('db, 'b) kv \<Rightarrow> 'b codec \<Rightarrow> task \<Rightarrow> 'db \<Rightarrow> string + 'db" where
  "badger_Save db json t s =
     (case marshal json t of
        Inl e \<Rightarrow> Inl (''marshal task '' @ tID t @ '': '' @ e)
      | Inr data \<Rightarrow> kv_set db (taskKey (tID t)) data s)"

text \<open>A missing key leaves the zero task, whose identifier is empty: \<open>nil\<close>, no error.\<close>

definition badger_Get :: "('db, 'b) kv \<Rightarrow> 'b codec \<Rightarrow> string \<Rightarrow> 'db \<Rightarrow> string + task option" where
  "badger_Get db json taskid s =
     (case kv_get db s (taskKey taskid) of
        Inl e \<Rightarrow> Inl e
      | Inr None \<Rightarrow> Inr None
      | Inr (Some val) \<Rightarrow>
          (case unmarshal json val of
             Inl e \<Rightarrow> Inl e
           | Inr t \<Rightarrow> if tID t = [] then Inr None else Inr (Some t)))"

fun list_loop :: "'b codec \<Rightarrow> (string \<times> 'b) list \<Rightarrow> task list \<Rightarrow> task list \<times> string option" where
  "list_loop json [] tasks = (tasks, None)"
| "list_loop json ((k, val) # items) tasks =
     (case unmarshal json val of
        Inl e \<Rightarrow> (tasks, Some e)
      | Inr t \<Rightarrow> list_loop json items (tasks @ [t]))"

text \<open>\<open>List\<close> returns the tasks read so far together with the error, if there was one.\<close>

definition badger_List :: "('db, 'b) kv \<Rightarrow> 'b codec \<Rightarrow> 'db \<Rightarrow> task list \<times> string option" where
  "badger_List db json s =
     (case kv_iter db ''task:'' s of Inl e \<Rightarrow> ([], Some e) | Inr items \<Rightarrow> list_loop json items [])"

definition badger_Delete :: "('db, 'b) kv \<Rightarrow> string \<Rightarrow> 'db \<Rightarrow> string + 'db" where
  "badger_Delete db taskid s = kv_delete db (taskKey taskid) s"

definition badger_GetByState :: "('db, 'b) kv \<Rightarrow> 'b codec \<Rightarrow> state \<Rightarrow> 'db \<Rightarrow> string + task list" where
  "badger_GetByState db json st s =
     (case badger_List db json s of
        (_, Some e) \<Rightarrow> Inl e
      | (ts, None) \<Rightarrow> Inr (filter (\<lambda>t. tState t = st) ts))"

fun recover_loop :: "task list \<Rightarrow> task list \<Rightarrow> task list" where
  "recover_loop [] recoverable = recoverable"
| "recover_loop (t # ts) recoverable =
     (if \<not> IsTerminal (tState t)
      then recover_loop ts (recoverable @ [t\<lparr>tState := StateQueued, tWorkerID := []\<rparr>])
      else recover_loop ts recoverable)"

definition RecoverTasks :: "('db, 'b) kv \<Rightarrow> 'b codec \<Rightarrow> 'db \<Rightarrow> string + task list" where
  "RecoverTasks db json s =
     (case badger_List db json s of
        (_, Some e) \<Rightarrow> Inl e
      | (ts, None) \<Rightarrow> Inr (recover_loop ts []))"

text \<open>The saves of a run of the master, stopping at the first error.\<close>

fun badger_saves :: "('db, 'b) kv \<Rightarrow> 'b codec \<Rightarrow> task list \<Rightarrow> 'db \<Rightarrow> string + 'db" where
  "badger_saves db json [] s = Inr s"
| "badger_saves db json (t # ts) s = bind_err (badger_Save db json t s) (badger_saves db json ts)"

text \<open>
  What the code relies on. The database: a successful \<open>Set\<close> is what later reads of that key see and
  leaves other keys alone, and the iterator lists exactly the keys with the prefix, once each, with
  their values. The codec: what was marshalled unmarshals to the same task.
\<close>

definition kv_laws :: "('db, 'b) kv \<Rightarrow> bool" where
  "kv_laws db \<longleftrightarrow>
     (\<forall>k v s s'. kv_set db k v s = Inr s' \<longrightarrow>
        (\<forall>k'. kv_get db s' k' = (if k' = k then Inr (Some v) else kv_get db s k'))) \<and>
     (\<forall>pre s items. kv_iter db pre s = Inr items \<longrightarrow>
        distinct (map fst items) \<and>
        (\<forall>k v. (k, v) \<in> set items \<longleftrightarrow> take (length pre) k = pre \<and> kv_get db s k = Inr (Some v)))"

definition codec_ok :: "'b codec \<Rightarrow> task set \<Rightarrow> bool" where
  "codec_ok json T \<longleftrightarrow> (\<forall>t \<in> T. \<forall>b. marshal json t = Inr b \<longrightarrow> unmarshal json b = Inr t)"

section \<open>The interface\<close>

text \<open>
  \<open>TaskStore\<close> for a store that reads through the shared tasks: what \<open>Save\<close>, \<open>Delete\<close> and \<open>List\<close> do to
  \<open>Get\<close>. The client's view: after a series of saves a lookup finds the last task saved under that
  identifier.
\<close>

locale task_store =
  fixes emp :: 's and save :: "tasks \<Rightarrow> ref \<Rightarrow> 's \<Rightarrow> 's" and find :: "'s \<Rightarrow> string \<Rightarrow> ref option"
    and del :: "string \<Rightarrow> 's \<Rightarrow> 's" and ok :: "'s \<Rightarrow> bool"
  assumes ok_emp: "ok emp" and ok_save: "ok s \<Longrightarrow> ok (save m p s)" and ok_del: "ok s \<Longrightarrow> ok (del k s)"
    and find_emp: "find emp k = None"
    and find_save: "ok s \<Longrightarrow> find (save m p s) k = (if k = tID (m p) then Some p else find s k)"
    and find_del: "ok s \<Longrightarrow> find (del k s) k' = (if k' = k then None else find s k')"
begin

lemma find_saves:
  assumes "ok s"
  shows "find (fold (save m) ps s) k =
    (case filter (\<lambda>p. tID (m p) = k) (rev ps) of [] \<Rightarrow> find s k | p # _ \<Rightarrow> Some p)"
  using assms
proof (induction ps arbitrary: s)
  case (Cons p ps)
  then show ?case
    by (simp add: ok_save find_save split: list.split)
qed simp

lemma find_saved_distinct:
  assumes "distinct (map (\<lambda>p. tID (m p)) ps)" and "p \<in> set ps"
  shows "find (fold (save m) ps emp) (tID (m p)) = Some p"
proof -
  have "filter (\<lambda>q. tID (m q) = tID (m p)) (rev ps) = [p]"
    using assms by (induction ps) (auto simp: filter_empty_conv image_iff)
  then show ?thesis by (simp add: find_saves ok_emp)
qed

end

interpretation memory: task_store NewMemoryStore mem_Save mem_Get mem_Delete gm_ok
  by unfold_locales (simp_all add: NewMemoryStore_def mem_Save_def mem_Get_def mem_Delete_def)

section \<open>Reading back what was saved\<close>

lemma taskKey_inject [simp]: "taskKey k = taskKey k' \<longleftrightarrow> k = k'"
  by (simp add: taskKey_def)

lemma taskKey_prefix: "take 5 key = ''task:'' \<longleftrightarrow> (\<exists>k. key = taskKey k)"
proof
  assume "take 5 key = ''task:''"
  then have "key = taskKey (drop 5 key)" by (metis append_take_drop_id taskKey_def)
  then show "\<exists>k. key = taskKey k" by blast
qed (auto simp: taskKey_def)

lemma badger_Save_get:
  assumes "kv_laws db" and "badger_Save db json t s = Inr s'"
  shows "\<exists>b. marshal json t = Inr b \<and>
    (\<forall>k. kv_get db s' (taskKey k) = (if k = tID t then Inr (Some b) else kv_get db s (taskKey k)))"
  using assms by (auto simp: badger_Save_def kv_laws_def split: sum.splits)

definition last_saved :: "task list \<Rightarrow> string \<Rightarrow> task option" where
  "last_saved ts k = (case filter (\<lambda>t. tID t = k) (rev ts) of [] \<Rightarrow> None | t # _ \<Rightarrow> Some t)"

lemma last_saved_Nil [simp]: "last_saved [] k = None"
  by (simp add: last_saved_def)

lemma last_saved_Cons [simp]:
  "last_saved (t # ts) k =
     (case last_saved ts k of None \<Rightarrow> if tID t = k then Some t else None | Some u \<Rightarrow> Some u)"
  by (simp add: last_saved_def split: list.split)

lemma last_saved_Some: "last_saved ts k = Some t \<Longrightarrow> t \<in> set ts \<and> tID t = k"
  by (induction ts) (auto split: option.splits if_splits)

lemma badger_saves_get:
  assumes "kv_laws db" and "badger_saves db json ts s = Inr s'"
  shows "(\<forall>t \<in> set ts. \<exists>b. marshal json t = Inr b) \<and>
    (\<forall>k. kv_get db s' (taskKey k) =
      (case last_saved ts k of None \<Rightarrow> kv_get db s (taskKey k) | Some t \<Rightarrow> Inr (Some (projr (marshal json t)))))"
  using assms(2)
proof (induction ts arbitrary: s)
  case (Cons t ts)
  then obtain s1 where s1: "badger_Save db json t s = Inr s1" "badger_saves db json ts s1 = Inr s'"
    by (auto simp: bind_err_Inr)
  show ?case
    using badger_Save_get [OF assms(1) s1(1)] Cons.IH [OF s1(2)] by (auto split: option.split)
qed simp

lemma list_loop_ok:
  assumes "\<forall>(k, b) \<in> set items. \<exists>t. unmarshal json b = Inr t"
  shows "list_loop json items acc = (acc @ map (\<lambda>(k, b). projr (unmarshal json b)) items, None)"
  using assms by (induction items arbitrary: acc) auto

lemma recover_loop_eq:
  "recover_loop ts acc = acc @ map (\<lambda>t. t\<lparr>tState := StateQueued, tWorkerID := []\<rparr>)
     (filter (\<lambda>t. \<not> IsTerminal (tState t)) ts)"
  by (induction ts arbitrary: acc) auto

lemma badger_List_saved:
  assumes laws: "kv_laws db" and codec: "codec_ok json (set ts)"
    and saves: "badger_saves db json ts s = Inr s'"
    and fresh: "\<forall>k. kv_get db s (taskKey k) = Inr None"
    and same: "\<forall>k. kv_get db s2 (taskKey k) = kv_get db s' (taskKey k)" and iter: "kv_iter db ''task:'' s2 = Inr items"
  shows "\<exists>us. badger_List db json s2 = (us, None) \<and> distinct (map tID us) \<and>
    set us = {t. last_saved ts (tID t) = Some t}"
proof -
  note get = badger_saves_get [OF laws saves]
  have I: "distinct (map fst items) \<and> (\<forall>k v. (k, v) \<in> set items \<longleftrightarrow>
      take (length ''task:'') k = ''task:'' \<and> kv_get db s2 k = Inr (Some v))"
    using laws iter unfolding kv_laws_def by blast
  then have it: "distinct (map fst items)"
    "(k, v) \<in> set items \<longleftrightarrow> take 5 k = ''task:'' \<and> kv_get db s2 k = Inr (Some v)" for k v
    by (simp_all add: eval_nat_numeral)
  have ent: "(key, b) \<in> set items \<longleftrightarrow>
      (\<exists>t. key = taskKey (tID t) \<and> last_saved ts (tID t) = Some t \<and> b = projr (marshal json t))" for key b
  proof -
    have g: "kv_get db s2 (taskKey k) = Inr (Some b) \<longleftrightarrow>
        (\<exists>t. last_saved ts k = Some t \<and> b = projr (marshal json t))" for k
      using get fresh same by (cases "last_saved ts k") (auto simp: eq_commute [of b])
    have "(key, b) \<in> set items \<longleftrightarrow>
        (\<exists>k t. key = taskKey k \<and> last_saved ts k = Some t \<and> b = projr (marshal json t))"
      unfolding it(2) taskKey_prefix using g by auto
    also have "\<dots> \<longleftrightarrow> (\<exists>t. key = taskKey (tID t) \<and> last_saved ts (tID t) = Some t \<and> b = projr (marshal json t))"
      using last_saved_Some by metis
    finally show ?thesis .
  qed
  have dec: "unmarshal json (projr (marshal json t)) = Inr t" if "last_saved ts k = Some t" for t k
  proof -
    have "t \<in> set ts" using last_saved_Some [OF that] by simp
    with get codec show ?thesis by (auto simp: codec_ok_def)
  qed
  let ?us = "map (\<lambda>(k, b). projr (unmarshal json b)) items"
  have l: "badger_List db json s2 = (?us, None)"
    using iter list_loop_ok [of items json "[]"] ent dec by (fastforce simp: badger_List_def)
  have key: "fst e = taskKey (tID (projr (unmarshal json (snd e))))" if "e \<in> set items" for e
    using that ent [of "fst e" "snd e"] dec by auto
  have "map taskKey (map tID ?us) = map fst items"
    using key by (auto simp: case_prod_unfold)
  then have d: "distinct (map tID ?us)" using it(1) by (metis distinct_map)
  have "set ?us = {t. last_saved ts (tID t) = Some t}"
  proof (intro set_eqI iffI)
    fix t assume "t \<in> set ?us"
    then show "t \<in> {t. last_saved ts (tID t) = Some t}" using ent dec by auto
  next
    fix t assume "t \<in> {t. last_saved ts (tID t) = Some t}"
    then have "(taskKey (tID t), projr (marshal json t)) \<in> set items" "projr (unmarshal json (projr (marshal json t))) = t"
      using ent dec by auto
    then show "t \<in> set ?us" by force
  qed
  with l d show ?thesis by blast
qed

text \<open>\<open>RecoverTasks\<close> on a store that reads like one after these saves.\<close>

lemma RecoverTasks_saved:
  assumes "kv_laws db" and "codec_ok json (set ts)" and "badger_saves db json ts s = Inr s'"
    and "\<forall>k. kv_get db s (taskKey k) = Inr None"
    and "\<forall>k. kv_get db s2 (taskKey k) = kv_get db s' (taskKey k)" and "kv_iter db ''task:'' s2 = Inr items"
  shows "\<exists>rs. RecoverTasks db json s2 = Inr rs \<and> distinct (map tID rs) \<and>
    set rs = {t\<lparr>tState := StateQueued, tWorkerID := []\<rparr> | t. last_saved ts (tID t) = Some t \<and> \<not> IsTerminal (tState t)}"
proof -
  obtain us where us: "badger_List db json s2 = (us, None)" "distinct (map tID us)"
      "set us = {t. last_saved ts (tID t) = Some t}"
    using badger_List_saved [OF assms] by blast
  let ?rs = "map (\<lambda>t. t\<lparr>tState := StateQueued, tWorkerID := []\<rparr>) (filter (\<lambda>t. \<not> IsTerminal (tState t)) us)"
  have "RecoverTasks db json s2 = Inr ?rs" using us(1) by (simp add: RecoverTasks_def recover_loop_eq)
  moreover have "map tID ?rs = map tID (filter (\<lambda>t. \<not> IsTerminal (tState t)) us)" by simp
  then have "distinct (map tID ?rs)" using us(2) by (metis distinct_map_filter)
  ultimately show ?thesis using us(3) by auto
qed

text \<open>A database and a codec that do what the code relies on: an association list of tasks.\<close>

definition alist_kv :: "((string, 'b) gomap, 'b) kv" where
  "alist_kv = \<lparr>kv_set = (\<lambda>k v s. Inr (gm_put k v s)), kv_get = (\<lambda>s k. Inr (gm_get s k)),
     kv_delete = (\<lambda>k s. Inr (gm_del k s)),
     kv_iter = (\<lambda>pre s. if gm_ok s then Inr (filter (\<lambda>(k, v). take (length pre) k = pre) s) else Inl ''corrupt'')\<rparr>"

definition plain_codec :: "task codec" where
  "plain_codec = \<lparr>marshal = Inr, unmarshal = Inr\<rparr>"

lemma alist_kv_laws: "kv_laws alist_kv"
  by (auto simp: kv_laws_def alist_kv_def gm_get_iff_mem distinct_map_filter gm_ok_def split: if_splits)

lemma plain_codec_ok: "codec_ok plain_codec T"
  by (simp add: codec_ok_def plain_codec_def)

section \<open>Properties of the stores\<close>

text \<open>
  After a series of saves of tasks with distinct identifiers, \<open>MemoryStore.Get\<close> finds each of
  them, and after a delete it finds that one no more and the others still. It is the pointer that
  is kept, so a later change to the task shows without another \<open>Save\<close>.
\<close>

theorem memory_store_finds:
  assumes "distinct (map (\<lambda>p. tID (m p)) ps)" and "p \<in> set ps" and "s = fold (mem_Save m) ps NewMemoryStore"
  shows "mem_Get s (tID (m p)) = Some p \<and>
    (\<forall>k. mem_Get (mem_Delete k s) (tID (m p)) = (if tID (m p) = k then None else Some p))"
proof -
  have f: "mem_Get s (tID (m p)) = Some p"
    unfolding assms(3) using assms(1,2) by (rule memory.find_saved_distinct)
  then show ?thesis by (simp add: mem_Get_def mem_Delete_def)
qed

theorem memory_store_finds_witness:
  "let m = (\<lambda>p. New 0 (if p = 0 then ''a'' else ''b'') []); s = fold (mem_Save m) [0, 1] NewMemoryStore
   in mem_Get s ''b'' = Some 1 \<and> mem_Get (mem_Delete ''b'' s) ''b'' = None"
proof -
  let ?m = "\<lambda>p :: nat. New 0 (if p = 0 then ''a'' else ''b'') []"
  have d: "distinct (map (\<lambda>p. tID (?m p)) [0, 1])" by (simp add: New_def)
  have b: "tID (?m 1) = ''b''" by (simp add: New_def)
  show ?thesis using memory_store_finds [OF d _ refl, of 1] unfolding Let_def b by simp
qed

text \<open>
  What \<open>BadgerStore.Save\<close> stored, \<open>Get\<close> returns, for a task with an identifier; other
  identifiers read as before.
\<close>

theorem badger_save_get_roundtrip:
  assumes "kv_laws db" and "codec_ok json {t}" and "badger_Save db json t s = Inr s'" and "tID t \<noteq> []"
  shows "badger_Get db json (tID t) s' = Inr (Some t) \<and>
    (\<forall>k. k \<noteq> tID t \<longrightarrow> badger_Get db json k s' = badger_Get db json k s)"
  using badger_Save_get [OF assms(1,3)] assms(2,4) by (auto simp: badger_Get_def codec_ok_def)

theorem badger_save_get_roundtrip_witness:
  "let t = New 5 ''a'' ''a.sh'' in
   \<exists>s'. badger_Save alist_kv plain_codec t [] = Inr s' \<and> badger_Get alist_kv plain_codec ''a'' s' = Inr (Some t)"
proof -
  let ?t = "New 5 ''a'' ''a.sh''"
  obtain s' where s': "badger_Save alist_kv plain_codec ?t [] = Inr s'"
    by (simp add: badger_Save_def plain_codec_def alist_kv_def)
  have i: "tID ?t = ''a''" by (simp add: New_def)
  have "badger_Get alist_kv plain_codec (tID ?t) s' = Inr (Some ?t)"
    using badger_save_get_roundtrip [OF alist_kv_laws plain_codec_ok s'] by (simp add: New_def)
  then show ?thesis using s' unfolding Let_def i by blast
qed

text \<open>
  After some saves, \<open>RecoverTasks\<close> returns exactly the tasks whose last saved version was not
  terminal, each once, reset to \<open>QUEUED\<close> and to no worker.
\<close>

theorem recovery_restores_unfinished:
  assumes "kv_laws db" and "codec_ok json (set ts)" and "badger_saves db json ts s = Inr s'"
    and "\<forall>k. kv_get db s (taskKey k) = Inr None" and "kv_iter db ''task:'' s' = Inr items"
  shows "\<exists>rs. RecoverTasks db json s' = Inr rs \<and> distinct (map tID rs) \<and>
    set rs = {t\<lparr>tState := StateQueued, tWorkerID := []\<rparr> | t. last_saved ts (tID t) = Some t \<and> \<not> IsTerminal (tState t)}"
  using RecoverTasks_saved [OF assms(1-4) _ assms(5)] by blast

theorem recovery_restores_unfinished_witness:
  "let t = (New 5 ''a'' ''a.sh'')\<lparr>tState := StateRunning, tWorkerID := ''w''\<rparr>;
       d = (New 6 ''b'' ''b.sh'')\<lparr>tState := StateCompleted\<rparr>
   in \<exists>s' rs. badger_saves alist_kv plain_codec [t, d] [] = Inr s' \<and>
        RecoverTasks alist_kv plain_codec s' = Inr rs \<and> set rs = {t\<lparr>tState := StateQueued, tWorkerID := []\<rparr>}"
proof -
  let ?t = "(New 5 ''a'' ''a.sh'')\<lparr>tState := StateRunning, tWorkerID := ''w''\<rparr>"
  let ?d = "(New 6 ''b'' ''b.sh'')\<lparr>tState := StateCompleted\<rparr>"
  let ?s = "[(taskKey ''a'', ?t), (taskKey ''b'', ?d)]"
  have s': "badger_saves alist_kv plain_codec [?t, ?d] [] = Inr ?s"
    by (simp add: badger_Save_def plain_codec_def alist_kv_def New_def gm_put_def)
  have it: "kv_iter alist_kv ''task:'' ?s = Inr ?s" by (simp add: alist_kv_def gm_ok_def taskKey_def)
  have fresh: "\<forall>k. kv_get alist_kv [] (taskKey k) = Inr None" by (simp add: alist_kv_def)
  obtain rs where rs: "RecoverTasks alist_kv plain_codec ?s = Inr rs"
      "set rs = {t\<lparr>tState := StateQueued, tWorkerID := []\<rparr> | t. last_saved [?t, ?d] (tID t) = Some t \<and> \<not> IsTerminal (tState t)}"
    using recovery_restores_unfinished [OF alist_kv_laws plain_codec_ok s' fresh it] by blast
  have "last_saved [?t, ?d] (tID t) = Some t \<and> \<not> IsTerminal (tState t) \<longleftrightarrow> t = ?t" for t
  proof
    assume t: "last_saved [?t, ?d] (tID t) = Some t \<and> \<not> IsTerminal (tState t)"
    then have "t \<in> set [?t, ?d]" using last_saved_Some by blast
    with t show "t = ?t" by (auto simp: IsTerminal_def)
  qed (simp add: New_def IsTerminal_def)
  with rs(2) have "set rs = {?t\<lparr>tState := StateQueued, tWorkerID := []\<rparr>}" by simp
  with s' rs(1) show ?thesis unfolding Let_def by blast
qed

section \<open>Restart\<close>

text \<open>
  Opening a database, closing it, and what a crash of the process leaves on the disk, which the library
  documents to be every write that succeeded.
\<close>

record ('disk, 'db) engine =
  kv_open :: "string \<Rightarrow> 'disk \<Rightarrow> string + 'db"
  kv_close :: "'db \<Rightarrow> string option \<times> 'disk"
  kv_crash :: "'db \<Rightarrow> 'disk"

definition NewBadgerStore :: "('disk, 'db) engine \<Rightarrow> string \<Rightarrow> 'disk \<Rightarrow> string + 'db" where
  "NewBadgerStore eng path disk =
     (case kv_open eng path disk of
        Inl e \<Rightarrow> Inl (''badger open '' @ path @ '': '' @ e)
      | Inr db \<Rightarrow> Inr db)"

definition badger_Close :: "('disk, 'db) engine \<Rightarrow> 'db \<Rightarrow> string option \<times> 'disk" where
  "badger_Close eng s = kv_close eng s"

definition durable :: "('disk, 'db) engine \<Rightarrow> ('db, 'b) kv \<Rightarrow> bool" where
  "durable eng db \<longleftrightarrow>
     (\<forall>path s s' disk. disk \<in> {kv_crash eng s, snd (kv_close eng s)} \<longrightarrow> kv_open eng path disk = Inr s' \<longrightarrow>
        (\<forall>k. kv_get db s' k = kv_get db s k))"

text \<open>Recovery across a restart. A master opens an empty store and saves tasks; it crashes, or closes the
  store; the store is opened again. Then \<open>RecoverTasks\<close> returns exactly the tasks whose last saved
  version was not terminal, each once, reset to \<open>QUEUED\<close> and to no worker.\<close>

theorem restart_recovers_unfinished:
  assumes "kv_laws db" and "durable eng db" and "codec_ok json (set ts)"
    and "NewBadgerStore eng path empty_disk = Inr s" and "\<forall>k. kv_get db s (taskKey k) = Inr None"
    and "badger_saves db json ts s = Inr s1"
    and "disk = kv_crash eng s1 \<or> disk = snd (badger_Close eng s1)"
    and "NewBadgerStore eng path disk = Inr s2" and "kv_iter db ''task:'' s2 = Inr items"
  shows "\<exists>rs. RecoverTasks db json s2 = Inr rs \<and> distinct (map tID rs) \<and>
    set rs = {t\<lparr>tState := StateQueued, tWorkerID := []\<rparr> | t. last_saved ts (tID t) = Some t \<and> \<not> IsTerminal (tState t)}"
proof -
  have "kv_open eng path disk = Inr s2" using assms(8) by (simp add: NewBadgerStore_def split: sum.splits)
  moreover have "disk \<in> {kv_crash eng s1, snd (kv_close eng s1)}" using assms(7) by (auto simp: badger_Close_def)
  ultimately have "\<forall>k. kv_get db s2 (taskKey k) = kv_get db s1 (taskKey k)" using assms(2) unfolding durable_def by blast
  from RecoverTasks_saved [OF assms(1,3,6,5) this assms(9)] show ?thesis .
qed

definition plain_engine :: "((string, 'b) gomap, (string, 'b) gomap) engine" where
  "plain_engine = \<lparr>kv_open = (\<lambda>path disk. if path = [] then Inl ''no path'' else Inr disk), kv_close = (\<lambda>s. (None, s)), kv_crash = (\<lambda>s. s)\<rparr>"

theorem restart_recovers_unfinished_witness:
  "let t = (New 5 ''a'' ''a.sh'')\<lparr>tState := StateRunning, tWorkerID := ''w''\<rparr>;
       d = (New 6 ''b'' ''b.sh'')\<lparr>tState := StateCompleted\<rparr>
   in \<exists>s s1 s2 rs. NewBadgerStore plain_engine ''/data'' [] = Inr s \<and> badger_saves alist_kv plain_codec [t, d, d] s = Inr s1 \<and>
        NewBadgerStore plain_engine ''/data'' (snd (badger_Close plain_engine s1)) = Inr s2 \<and>
        RecoverTasks alist_kv plain_codec s2 = Inr rs \<and> map tID rs = [''a'']"
proof -
  let ?t = "(New 5 ''a'' ''a.sh'')\<lparr>tState := StateRunning, tWorkerID := ''w''\<rparr>"
  let ?d = "(New 6 ''b'' ''b.sh'')\<lparr>tState := StateCompleted\<rparr>"
  let ?s = "[(taskKey ''a'', ?t), (taskKey ''b'', ?d)]"
  have s1: "badger_saves alist_kv plain_codec [?t, ?d, ?d] [] = Inr ?s"
    by (simp add: badger_Save_def plain_codec_def alist_kv_def New_def gm_put_def)
  have open0: "NewBadgerStore plain_engine ''/data'' s = Inr s" for s :: "(string, task) gomap"
    by (simp add: NewBadgerStore_def plain_engine_def)
  have eng: "durable plain_engine alist_kv" by (simp add: durable_def plain_engine_def)
  have it: "kv_iter alist_kv ''task:'' ?s = Inr ?s" by (simp add: alist_kv_def gm_ok_def taskKey_def)
  have fresh: "\<forall>k. kv_get alist_kv [] (taskKey k) = Inr None" by (simp add: alist_kv_def)
  have closed: "snd (badger_Close plain_engine ?s) = ?s" by (simp add: badger_Close_def plain_engine_def)
  obtain rs where rs: "RecoverTasks alist_kv plain_codec ?s = Inr rs" "distinct (map tID rs)"
      "set rs = {t\<lparr>tState := StateQueued, tWorkerID := []\<rparr> | t. last_saved [?t, ?d, ?d] (tID t) = Some t \<and> \<not> IsTerminal (tState t)}"
    using restart_recovers_unfinished [OF alist_kv_laws eng plain_codec_ok open0 fresh s1 _ open0 it] closed by auto
  have "last_saved [?t, ?d, ?d] (tID t) = Some t \<and> \<not> IsTerminal (tState t) \<longleftrightarrow> t = ?t" for t
  proof
    assume t: "last_saved [?t, ?d, ?d] (tID t) = Some t \<and> \<not> IsTerminal (tState t)"
    then have "t \<in> set [?t, ?d, ?d]" using last_saved_Some by blast
    with t show "t = ?t" by (auto simp: IsTerminal_def)
  qed (simp add: New_def IsTerminal_def)
  with rs(3) have "set rs = {?t\<lparr>tState := StateQueued, tWorkerID := []\<rparr>}" by simp
  with rs(2) have "map tID rs = [''a'']" by (cases rs rule: remdups_adj.cases) (auto simp: New_def)
  with s1 open0 closed rs(1) show ?thesis unfolding Let_def by metis
qed

end
