(* ===== verification/NodeServer.thy ===== *)
theory NodeServer
  imports Scheduler CircuitBreaker EventBus Store
begin

text \<open>
  The gRPC node service without its dispatch loop, \<open>src/internal/server/node_server.go\<close>: the state
  it coordinates, task submission, heartbeats, task reports, the health checker and the forced
  disconnect. A handler returns \<open>None\<close> where the code would panic. Calls on the Prometheus metrics
  are kept as a log.
\<close>

section \<open>State\<close>

datatype worker_state =
    WORKER_UNKNOWN | WORKER_ACTIVE | WORKER_SUSPECT | WORKER_DEAD | WORKER_DRAINING
  | WorkerStateOther int

datatype task_state =
    TASK_UNKNOWN | TASK_QUEUED | TASK_ASSIGNED | TASK_RUNNING | TASK_COMPLETED | TASK_FAILED
  | TASK_RETRYING | TASK_DEAD | TaskStateOther int

record worker_info =
  wiID :: string
  wiHostname :: string
  wiState :: worker_state
  wiStartTime :: time
  wiLastHeartbeat :: time
  wiActiveTasks :: int32

datatype metric =
    TasksQueuedInc | TaskQueueDepthSet nat | HeartbeatsReceivedInc | WorkerTasksActiveSet string int32
  | TasksCompletedInc string | TasksRetriedInc | TaskDurationObserve duration
  | WorkersConnectedInc | WorkersConnectedDec | TasksAssignedInc

text \<open>
  \<open>heap\<close> is the store of task cells, \<open>next_task\<close> its next fresh address. A cancel function in
  \<open>workerStreams\<close> is the index of the stream whose context it cancels; \<open>cancelled\<close> says which
  contexts are. \<open>hbTimeout\<close> and \<open>deadTimeout\<close> are the two entries of \<open>cfg\<close> the handlers read.
\<close>

record node =
  heap :: tasks
  next_task :: ref
  sched :: scheduler
  tstore :: "memory_store option"
  regs :: registry
  evbus :: "bus option"
  workers :: "(string, worker_info) gomap"
  workerStreams :: "(string, nat) gomap"
  cancelled :: "nat \<Rightarrow> bool"
  hbTimeout :: duration
  deadTimeout :: duration
  mlog :: "metric list"

definition NewNodeServer ::
    "tasks \<Rightarrow> (ref \<Rightarrow> breaker) \<Rightarrow> duration \<Rightarrow> duration \<Rightarrow> memory_store option \<Rightarrow> bus option \<Rightarrow> node" where
  "NewNodeServer m mem hb dead taskStore eventBus =
     \<lparr>heap = m, next_task = 0, sched = NewScheduler m (5 * 60 * Second), tstore = taskStore,
      regs = NewRegistry 5 2 (30 * Second) mem, evbus = eventBus, workers = [], workerStreams = [],
      cancelled = (\<lambda>_. False), hbTimeout = hb, deadTimeout = dead, mlog = []\<rparr>"

definition observe :: "metric list \<Rightarrow> node \<Rightarrow> node" where
  "observe ms n = n\<lparr>mlog := mlog n @ ms\<rparr>"

text \<open>
  The runtime's order of the subscribers does not matter to the result (shown in the theory of the bus),
  so the map's own order stands for it.
\<close>

definition publishEvent :: "time \<Rightarrow> event_type \<Rightarrow> (string \<times> event_val) list \<Rightarrow> node \<Rightarrow> node option" where
  "publishEvent now ty data n =
     (case evbus n of
        None \<Rightarrow> Some n
      | Some b \<Rightarrow>
          map_option (\<lambda>b. n\<lparr>evbus := Some b\<rparr>)
            (Publish now (map fst (subscribers b)) \<lparr>evType = ty, evTimestamp = zero_time, evData = data\<rparr> b))"

section \<open>Submission\<close>

definition store_Save :: "ref \<Rightarrow> node \<Rightarrow> node" where
  "store_Save p n =
     (case tstore n of None \<Rightarrow> n | Some s \<Rightarrow> n\<lparr>tstore := Some (mem_Save (heap n) p s)\<rparr>)"

definition enqueue :: "ref \<Rightarrow> node \<Rightarrow> node" where
  "enqueue p n =
     (let n = store_Save p n;
          n = n\<lparr>sched := Enqueue (heap n) p (sched n)\<rparr>
      in observe [TasksQueuedInc, TaskQueueDepthSet (QueueDepth (Stats (sched n)))] n)"

definition alloc_task :: "task \<Rightarrow> node \<Rightarrow> ref \<times> node" where
  "alloc_task t n = (next_task n, n\<lparr>heap := (heap n)(next_task n := t), next_task := next_task n + 1\<rparr>)"

definition enqueue_new :: "task \<Rightarrow> node \<Rightarrow> node" where
  "enqueue_new t n = (case alloc_task t n of (p, n) \<Rightarrow> enqueue p n)"

definition EnqueueTask :: "time \<Rightarrow> string \<Rightarrow> string \<Rightarrow> node \<Rightarrow> node" where
  "EnqueueTask now taskid script n = enqueue_new (New now taskid script) n"

definition EnqueueInlineTask :: "time \<Rightarrow> string \<Rightarrow> string \<Rightarrow> string \<Rightarrow> node \<Rightarrow> node" where
  "EnqueueInlineTask now taskid content language n = enqueue_new (NewInline now taskid content language) n"

definition EnqueueArchiveTask :: "time \<Rightarrow> string \<Rightarrow> string \<Rightarrow> string \<Rightarrow> string \<Rightarrow> node \<Rightarrow> node" where
  "EnqueueArchiveTask now taskid content entrypoint language n =
     enqueue_new (NewArchive now taskid content entrypoint language) n"

text \<open>The batch handler has built the task itself.\<close>

definition EnqueueInlineTaskDirect :: "ref \<Rightarrow> node \<Rightarrow> node" where
  "EnqueueInlineTaskDirect p n = enqueue p n"

section \<open>Heartbeats\<close>

record heartbeat =
  hbWorkerId :: string
  hbActiveTasks :: int32

definition SendHeartbeat :: "time \<Rightarrow> heartbeat \<Rightarrow> node \<Rightarrow> node" where
  "SendHeartbeat now hb n =
     (let n = observe [HeartbeatsReceivedInc] n in
      case gm_get (workers n) (hbWorkerId hb) of
        None \<Rightarrow> n
      | Some w \<Rightarrow>
          let w = w\<lparr>wiLastHeartbeat := now, wiActiveTasks := hbActiveTasks hb\<rparr>;
              n = observe [WorkerTasksActiveSet (hbWorkerId hb) (hbActiveTasks hb)] n;
              w = (if wiState w = WORKER_SUSPECT then w\<lparr>wiState := WORKER_ACTIVE\<rparr> else w)
          in n\<lparr>workers := gm_put (hbWorkerId hb) w (workers n)\<rparr>)"

section \<open>Task reports\<close>

record task_report =
  rTaskId :: string
  rWorkerId :: string
  rState :: task_state
  rOutput :: string
  rErrorMessage :: string
  rStartedAt :: "time option"
  rCompletedAt :: "time option"
  rExitCode :: int32

text \<open>The clock readings and the runtime's choices during one report.\<close>

record report_env =
  re_done :: time
  re_rt :: rt_env
  re_breaker :: time
  re_publish :: time

definition save_if :: "ref option \<Rightarrow> node \<Rightarrow> node" where
  "save_if r n = (case r of None \<Rightarrow> n | Some p \<Rightarrow> store_Save p n)"

definition report_completed :: "report_env \<Rightarrow> task_report \<Rightarrow> ref \<Rightarrow> node \<Rightarrow> node option" where
  "report_completed env rep cb n =
     (case sched_Complete (re_done env) (rTaskId rep) (rOutput rep) (rExitCode rep) (heap n, sched n) of
        (t, m, s) \<Rightarrow>
          let n = save_if t (n\<lparr>heap := m, sched := s\<rparr>);
              n = n\<lparr>regs := at_cell cb RecordSuccess (regs n)\<rparr>;
              n = observe [TasksCompletedInc ''completed''] n
          in publishEvent (re_publish env) EventTaskCompleted
               [(''task_id'', EvStr (rTaskId rep)), (''worker_id'', EvStr (rWorkerId rep)),
                (''exit_code'', EvInt (sint (rExitCode rep)))] n)"

definition failed_event :: "ref option \<Rightarrow> tasks \<Rightarrow> event_type" where
  "failed_event t m =
     (case t of
        None \<Rightarrow> EventTaskFailed
      | Some p \<Rightarrow> if tState (m p) = StateRetrying then EventTaskRetrying
                else if tState (m p) = StateDead then EventTaskDead else EventTaskFailed)"

definition report_failed :: "report_env \<Rightarrow> task_report \<Rightarrow> ref \<Rightarrow> node \<Rightarrow> node option" where
  "report_failed env rep cb n =
     (case sched_Fail (re_done env) (re_rt env) (rTaskId rep) (rErrorMessage rep) (rExitCode rep) (heap n, sched n) of
        (t, m, s) \<Rightarrow>
          let n = save_if t (n\<lparr>heap := m, sched := s\<rparr>);
              n = n\<lparr>regs := at_cell cb (RecordFailure (re_breaker env)) (regs n)\<rparr>;
              n = observe [TasksCompletedInc ''failed''] n;
              n = (case t of
                     None \<Rightarrow> n
                   | Some p \<Rightarrow> if tState (heap n p) = StateRetrying then observe [TasksRetriedInc] n else n)
          in publishEvent (re_publish env) (failed_event t (heap n))
               [(''task_id'', EvStr (rTaskId rep)), (''worker_id'', EvStr (rWorkerId rep)),
                (''error'', EvStr (rErrorMessage rep)), (''exit_code'', EvInt (sint (rExitCode rep)))] n)"

definition ReportTaskStatus :: "report_env \<Rightarrow> task_report \<Rightarrow> node \<Rightarrow> node option" where
  "ReportTaskStatus env rep n =
     (case reg_Get (rWorkerId rep) (regs n) of
        (cb, rs) \<Rightarrow>
          let n = n\<lparr>regs := rs\<rparr> in
          case (if rState rep = TASK_COMPLETED then report_completed env rep cb n
                else report_failed env rep cb n) of
            None \<Rightarrow> None
          | Some n \<Rightarrow>
              (case (rStartedAt rep, rCompletedAt rep) of
                 (Some a, Some b) \<Rightarrow> Some (observe [TaskDurationObserve (time_Sub b a)] n)
               | _ \<Rightarrow> Some n))"

section \<open>Health checking\<close>

text \<open>One turn of the loop of \<open>checkWorkerHealth\<close>; \<open>pub\<close> is the clock when the event is published.\<close>

definition health_body :: "time \<Rightarrow> (string \<Rightarrow> time) \<Rightarrow> string \<times> worker_info \<Rightarrow> node option \<Rightarrow> node option" where
  "health_body now pub =
     (\<lambda>(k, w) r. case r of None \<Rightarrow> None | Some n \<Rightarrow>
        if wiState w = WORKER_DEAD \<or> wiState w = WORKER_DRAINING then Some n
        else
          let sinceLastHB = time_Sub now (wiLastHeartbeat w);
              data = [(''worker_id'', EvStr k), (''silent_for'', EvStr (duration_String sinceLastHB))]
          in if deadTimeout n <s sinceLastHB \<and> wiState w = WORKER_SUSPECT then
               publishEvent (pub k) EventWorkerDead data
                 (n\<lparr>workers := gm_put k (w\<lparr>wiState := WORKER_DEAD\<rparr>) (workers n)\<rparr>)
             else if hbTimeout n <s sinceLastHB \<and> wiState w = WORKER_ACTIVE then
               publishEvent (pub k) EventWorkerSuspect data
                 (n\<lparr>workers := gm_put k (w\<lparr>wiState := WORKER_SUSPECT\<rparr>) (workers n)\<rparr>)
             else Some n)"

definition checkWorkerHealth :: "time \<Rightarrow> (string \<Rightarrow> time) \<Rightarrow> string list \<Rightarrow> node \<Rightarrow> node option" where
  "checkWorkerHealth now pub ks n = fold (health_body now pub) (gm_range ks (workers n)) (Some n)"

text \<open>\<open>StartHealthChecker\<close>: what the loop does on each of its three tickers.\<close>

datatype tick =
    HealthTick time "string \<Rightarrow> time" "string list"
  | RetryTick time
  | TimeoutTick time "ref \<Rightarrow> time \<times> rt_env" "string list"

fun on_tick :: "tick \<Rightarrow> node \<Rightarrow> node option" where
  "on_tick (HealthTick now pub ks) n = checkWorkerHealth now pub ks n"
| "on_tick (RetryTick now) n =
     (case ProcessRetries now (heap n, sched n) of (_, m, s) \<Rightarrow> Some (n\<lparr>heap := m, sched := s\<rparr>))"
| "on_tick (TimeoutTick now env ks) n =
     (case CheckTimeouts now env ks (heap n, sched n) of (_, m, s) \<Rightarrow> Some (n\<lparr>heap := m, sched := s\<rparr>))"

section \<open>Worker queries\<close>

definition GetWorkers :: "string list \<Rightarrow> node \<Rightarrow> worker_info list" where
  "GetWorkers ks n = map snd (gm_range ks (workers n))"

definition DisconnectWorker :: "string \<Rightarrow> node \<Rightarrow> bool \<times> node" where
  "DisconnectWorker workerID n =
     (case gm_get (workerStreams n) workerID of
        None \<Rightarrow> (False, n)
      | Some i \<Rightarrow> (True, n\<lparr>cancelled := (cancelled n)(i := True)\<rparr>))"

section \<open>What the handlers do to the scheduler\<close>

definition node_bus_ok :: "node \<Rightarrow> bool" where
  "node_bus_ok n \<longleftrightarrow> (case evbus n of None \<Rightarrow> True | Some b \<Rightarrow> bus_ok b)"

text \<open>The parts a report or a tick leaves alone.\<close>

definition node_frame :: "node \<Rightarrow> node \<Rightarrow> bool" where
  "node_frame n n' \<longleftrightarrow> next_task n' = next_task n \<and> workerStreams n' = workerStreams n \<and>
     cancelled n' = cancelled n \<and> hbTimeout n' = hbTimeout n \<and> deadTimeout n' = deadTimeout n"

text \<open>Publishing changes nothing but the subscribers' buffers, and never panics on a sound bus.\<close>

lemma publishEvent_ok:
  assumes "node_bus_ok n"
  obtains b where "publishEvent now ty data n = Some (n\<lparr>evbus := b\<rparr>)" "node_bus_ok (n\<lparr>evbus := b\<rparr>)"
proof (cases "evbus n")
  case None
  then have "publishEvent now ty data n = Some (n\<lparr>evbus := None\<rparr>)" by (simp add: publishEvent_def)
  with that show ?thesis by (simp add: node_bus_ok_def)
next
  case (Some b)
  then have ok: "bus_ok b" using assms by (simp add: node_bus_ok_def)
  then have r: "range_ok (map fst (subscribers b)) (subscribers b)" by (simp add: range_ok_exists bus_ok_def)
  note P = Publish_result [OF ok r, of now "\<lparr>evType = ty, evTimestamp = 0, evData = data\<rparr>"]
  show ?thesis
    by (rule that) (simp add: publishEvent_def Some P, use ok in \<open>auto simp: node_bus_ok_def bus_ok_def\<close>)
qed

lemma store_Save_fields [simp]:
  "heap (store_Save p n) = heap n" "next_task (store_Save p n) = next_task n"
  "sched (store_Save p n) = sched n" "regs (store_Save p n) = regs n" "evbus (store_Save p n) = evbus n"
  "workers (store_Save p n) = workers n" "workerStreams (store_Save p n) = workerStreams n"
  "cancelled (store_Save p n) = cancelled n" "hbTimeout (store_Save p n) = hbTimeout n"
  "deadTimeout (store_Save p n) = deadTimeout n"
  by (simp_all add: store_Save_def split: option.split)

lemma save_if_fields [simp]:
  "heap (save_if r n) = heap n" "next_task (save_if r n) = next_task n"
  "sched (save_if r n) = sched n" "regs (save_if r n) = regs n" "evbus (save_if r n) = evbus n"
  "workers (save_if r n) = workers n" "workerStreams (save_if r n) = workerStreams n"
  "cancelled (save_if r n) = cancelled n" "hbTimeout (save_if r n) = hbTimeout n"
  "deadTimeout (save_if r n) = deadTimeout n"
  by (simp_all add: save_if_def split: option.split)

lemma observe_fields [simp]:
  "heap (observe ms n) = heap n" "next_task (observe ms n) = next_task n"
  "sched (observe ms n) = sched n" "tstore (observe ms n) = tstore n" "regs (observe ms n) = regs n"
  "evbus (observe ms n) = evbus n" "workers (observe ms n) = workers n"
  "workerStreams (observe ms n) = workerStreams n" "cancelled (observe ms n) = cancelled n"
  "hbTimeout (observe ms n) = hbTimeout n" "deadTimeout (observe ms n) = deadTimeout n"
  by (simp_all add: observe_def)

lemma node_bus_ok_cong: "evbus n' = evbus n \<Longrightarrow> node_bus_ok n' = node_bus_ok n"
  by (simp add: node_bus_ok_def)

definition report_op :: "report_env \<Rightarrow> task_report \<Rightarrow> sched_op" where
  "report_op env rep =
     (if rState rep = TASK_COMPLETED then Finish (re_done env) (rTaskId rep) (rOutput rep) (rExitCode rep)
      else Failed (re_done env) (re_rt env) (rTaskId rep) (rErrorMessage rep) (rExitCode rep))"

text \<open>The breaker call of a report, on the reporter's breaker.\<close>

definition report_breaker :: "report_env \<Rightarrow> task_report \<Rightarrow> breaker \<Rightarrow> breaker" where
  "report_breaker env rep =
     (if rState rep = TASK_COMPLETED then RecordSuccess else RecordFailure (re_breaker env))"

lemma report_completed_effect:
  assumes "node_bus_ok n"
  shows "\<exists>n'. report_completed env rep cb n = Some n' \<and>
    (heap n', sched n') = snd (sched_Complete (re_done env) (rTaskId rep) (rOutput rep) (rExitCode rep) (heap n, sched n)) \<and>
    regs n' = at_cell cb RecordSuccess (regs n) \<and> workers n' = workers n \<and> node_frame n n' \<and> node_bus_ok n'"
proof -
  obtain t m s where c: "sched_Complete (re_done env) (rTaskId rep) (rOutput rep) (rExitCode rep) (heap n, sched n) = (t, m, s)"
    by (metis prod_cases3)
  define n1 where "n1 = observe [TasksCompletedInc ''completed'']
    ((save_if t (n\<lparr>heap := m, sched := s\<rparr>))\<lparr>regs := at_cell cb RecordSuccess (regs n)\<rparr>)"
  have "node_bus_ok n1" using assms by (simp add: n1_def node_bus_ok_def)
  then obtain b where b: "publishEvent (re_publish env) EventTaskCompleted
      [(''task_id'', EvStr (rTaskId rep)), (''worker_id'', EvStr (rWorkerId rep)),
       (''exit_code'', EvInt (sint (rExitCode rep)))] n1 = Some (n1\<lparr>evbus := b\<rparr>)"
    "node_bus_ok (n1\<lparr>evbus := b\<rparr>)" by (rule publishEvent_ok)
  have "report_completed env rep cb n = Some (n1\<lparr>evbus := b\<rparr>)"
    using b(1) by (simp add: report_completed_def c Let_def n1_def)
  with b(2) show ?thesis by (simp add: c n1_def node_frame_def)
qed

lemma report_failed_effect:
  assumes "node_bus_ok n"
  shows "\<exists>n'. report_failed env rep cb n = Some n' \<and>
    (heap n', sched n') = snd (sched_Fail (re_done env) (re_rt env) (rTaskId rep) (rErrorMessage rep) (rExitCode rep) (heap n, sched n)) \<and>
    regs n' = at_cell cb (RecordFailure (re_breaker env)) (regs n) \<and> workers n' = workers n \<and> node_frame n n' \<and> node_bus_ok n'"
proof -
  obtain t m s where c: "sched_Fail (re_done env) (re_rt env) (rTaskId rep) (rErrorMessage rep) (rExitCode rep) (heap n, sched n) = (t, m, s)"
    by (metis prod_cases3)
  define n1 where "n1 = observe [TasksCompletedInc ''failed'']
    ((save_if t (n\<lparr>heap := m, sched := s\<rparr>))\<lparr>regs := at_cell cb (RecordFailure (re_breaker env)) (regs n)\<rparr>)"
  define n2 where "n2 = (case t of None \<Rightarrow> n1
    | Some p \<Rightarrow> if tState (heap n1 p) = StateRetrying then observe [TasksRetriedInc] n1 else n1)"
  have fields: "heap n2 = m" "sched n2 = s" "regs n2 = at_cell cb (RecordFailure (re_breaker env)) (regs n)"
      "workers n2 = workers n" "evbus n2 = evbus n" "node_frame n n2"
    by (simp_all add: n2_def n1_def node_frame_def split: option.split)
  then have "node_bus_ok n2" using assms by (simp add: node_bus_ok_def)
  then obtain b where b: "publishEvent (re_publish env) (failed_event t (heap n2))
      [(''task_id'', EvStr (rTaskId rep)), (''worker_id'', EvStr (rWorkerId rep)),
       (''error'', EvStr (rErrorMessage rep)), (''exit_code'', EvInt (sint (rExitCode rep)))] n2 = Some (n2\<lparr>evbus := b\<rparr>)"
    "node_bus_ok (n2\<lparr>evbus := b\<rparr>)" by (rule publishEvent_ok)
  have "report_failed env rep cb n = Some (n2\<lparr>evbus := b\<rparr>)"
    using b(1) by (cases t; cases "tState (m (the t)) = StateRetrying")
      (simp_all add: report_failed_def c Let_def n1_def n2_def)
  with b(2) fields show ?thesis by (simp add: c node_frame_def)
qed

lemma report_effect:
  assumes "node_bus_ok n" and g: "reg_Get (rWorkerId rep) (regs n) = (cb, rs)"
  shows "\<exists>n'. ReportTaskStatus env rep n = Some n' \<and>
    (heap n', sched n') = exec_op (report_op env rep) (heap n, sched n) \<and>
    regs n' = at_cell cb (report_breaker env rep) rs \<and> workers n' = workers n \<and> node_frame n n' \<and> node_bus_ok n'"
proof -
  let ?n = "n\<lparr>regs := rs\<rparr>"
  have ok: "node_bus_ok ?n" using assms(1) by (simp add: node_bus_ok_def)
  obtain n1 where n1: "(if rState rep = TASK_COMPLETED then report_completed env rep cb ?n
      else report_failed env rep cb ?n) = Some n1"
    "(heap n1, sched n1) = exec_op (report_op env rep) (heap n, sched n)"
    "regs n1 = at_cell cb (report_breaker env rep) rs" "workers n1 = workers n" "node_frame n n1" "node_bus_ok n1"
    using report_completed_effect [OF ok, of env rep cb] report_failed_effect [OF ok, of env rep cb]
    by (cases "rState rep = TASK_COMPLETED") (auto simp: report_op_def report_breaker_def node_frame_def)
  show ?thesis
  proof (cases "(rStartedAt rep, rCompletedAt rep)")
    case (Pair a b)
    with n1 show ?thesis
      by (cases a; cases b) (auto simp: ReportTaskStatus_def g Let_def node_frame_def node_bus_ok_def)
  qed
qed

section \<open>Health transitions\<close>

text \<open>What one check makes of one worker.\<close>

definition health_next :: "time \<Rightarrow> duration \<Rightarrow> duration \<Rightarrow> worker_info \<Rightarrow> worker_info" where
  "health_next now hb dead w =
     (if wiState w = WORKER_SUSPECT \<and> dead <s time_Sub now (wiLastHeartbeat w) then w\<lparr>wiState := WORKER_DEAD\<rparr>
      else if wiState w = WORKER_ACTIVE \<and> hb <s time_Sub now (wiLastHeartbeat w) then w\<lparr>wiState := WORKER_SUSPECT\<rparr>
      else w)"

definition workers_only :: "node \<Rightarrow> node \<Rightarrow> bool" where
  "workers_only n n' \<longleftrightarrow> heap n' = heap n \<and> sched n' = sched n \<and> tstore n' = tstore n \<and> regs n' = regs n \<and>
     node_frame n n'"

lemma health_body_effect:
  assumes ok: "node_bus_ok n" and get: "gm_get (workers n) k = Some w"
  shows "\<exists>n'. health_body now pub (k, w) (Some n) = Some n' \<and> node_bus_ok n' \<and> workers_only n n' \<and>
    (\<forall>k'. gm_get (workers n') k' =
      (if k' = k then Some (health_next now (hbTimeout n) (deadTimeout n) w) else gm_get (workers n) k'))"
proof -
  have pub: "\<exists>b. publishEvent t ty data (n\<lparr>workers := ws\<rparr>) = Some (n\<lparr>workers := ws, evbus := b\<rparr>) \<and>
      node_bus_ok (n\<lparr>workers := ws, evbus := b\<rparr>)" for t ty data ws
  proof -
    have "node_bus_ok (n\<lparr>workers := ws\<rparr>)" using ok by (simp add: node_bus_ok_def)
    then show ?thesis by (rule publishEvent_ok) blast
  qed
  let ?since = "time_Sub now (wiLastHeartbeat w)"
  let ?data = "[(''worker_id'', EvStr k), (''silent_for'', EvStr (duration_String ?since))]"
  consider (dead) "wiState w = WORKER_SUSPECT" "deadTimeout n <s ?since"
    | (suspect) "wiState w = WORKER_ACTIVE" "hbTimeout n <s ?since"
    | (same) "\<not> (wiState w = WORKER_SUSPECT \<and> deadTimeout n <s ?since)"
        "\<not> (wiState w = WORKER_ACTIVE \<and> hbTimeout n <s ?since)" by blast
  then show ?thesis
  proof cases
    case dead
    then show ?thesis
      using pub [of "pub k" EventWorkerDead ?data "gm_put k (w\<lparr>wiState := WORKER_DEAD\<rparr>) (workers n)"]
      by (auto simp: health_body_def Let_def health_next_def workers_only_def node_frame_def)
  next
    case suspect
    then show ?thesis
      using pub [of "pub k" EventWorkerSuspect ?data "gm_put k (w\<lparr>wiState := WORKER_SUSPECT\<rparr>) (workers n)"]
      by (auto simp: health_body_def Let_def health_next_def workers_only_def node_frame_def)
  next
    case same
    then show ?thesis
      using ok get by (auto simp: health_body_def Let_def health_next_def workers_only_def node_frame_def)
  qed
qed

lemma workers_only_trans: "workers_only n n' \<Longrightarrow> workers_only n' n'' \<Longrightarrow> workers_only n n''"
  by (simp add: workers_only_def node_frame_def)

lemma health_fold:
  assumes "node_bus_ok n" and "distinct (map fst es)" and "\<forall>(k, w) \<in> set es. gm_get (workers n) k = Some w"
  shows "\<exists>n'. fold (health_body now pub) es (Some n) = Some n' \<and> node_bus_ok n' \<and> workers_only n n' \<and>
    (\<forall>k. gm_get (workers n') k = (if k \<in> fst ` set es
       then map_option (health_next now (hbTimeout n) (deadTimeout n)) (gm_get (workers n) k)
       else gm_get (workers n) k))"
  using assms
proof (induction es arbitrary: n)
  case (Cons e es)
  obtain k w where e: "e = (k, w)" by force
  have get: "gm_get (workers n) k = Some w" using Cons.prems(3) e by simp
  obtain n1 where n1: "health_body now pub (k, w) (Some n) = Some n1" "node_bus_ok n1" "workers_only n n1"
      "\<forall>k'. gm_get (workers n1) k' =
        (if k' = k then Some (health_next now (hbTimeout n) (deadTimeout n) w) else gm_get (workers n) k')"
    using health_body_effect [OF Cons.prems(1) get] by blast
  have "\<forall>(k', w') \<in> set es. gm_get (workers n1) k' = Some w'"
    using Cons.prems(2,3) n1(4) by (force simp: e)
  moreover have "distinct (map fst es)" using Cons.prems(2) by simp
  ultimately obtain n' where n': "fold (health_body now pub) es (Some n1) = Some n'" "node_bus_ok n'" "workers_only n1 n'"
      "\<forall>k. gm_get (workers n') k = (if k \<in> fst ` set es
        then map_option (health_next now (hbTimeout n1) (deadTimeout n1)) (gm_get (workers n1) k)
        else gm_get (workers n1) k)"
    using Cons.IH [OF n1(2)] by blast
  have "k \<notin> fst ` set es" using Cons.prems(2) e by auto
  then have "\<forall>k'. gm_get (workers n') k' = (if k' \<in> fst ` set (e # es)
       then map_option (health_next now (hbTimeout n) (deadTimeout n)) (gm_get (workers n) k')
       else gm_get (workers n) k')"
    using n'(4) n1(3,4) get by (auto simp: e workers_only_def node_frame_def)
  with n1(1,3) n'(1-3) show ?case by (auto simp: e intro: workers_only_trans)
qed (simp add: workers_only_def node_frame_def)

lemma checkWorkerHealth_effect:
  assumes "node_bus_ok n" and ok: "range_ok ks (workers n)"
  shows "\<exists>n'. checkWorkerHealth now pub ks n = Some n' \<and> node_bus_ok n' \<and> workers_only n n' \<and>
    (\<forall>k. gm_get (workers n') k =
      map_option (health_next now (hbTimeout n) (deadTimeout n)) (gm_get (workers n) k))"
proof -
  let ?es = "gm_range ks (workers n)"
  have k: "map fst ?es = ks" using ok by (rule gm_range_keys)
  then have d: "distinct (map fst ?es)" and ks: "fst ` set ?es = gm_keys (workers n)"
    using ok by (auto simp: range_ok_def simp flip: set_map)
  have "\<forall>(k, w) \<in> set ?es. gm_get (workers n) k = Some w" using gm_range_mem [OF ok] by auto
  from health_fold [OF assms(1) d this, of now pub]
  obtain n' where "fold (health_body now pub) ?es (Some n) = Some n'" "node_bus_ok n'" "workers_only n n'"
    "\<forall>k. gm_get (workers n') k = (if k \<in> gm_keys (workers n)
       then map_option (health_next now (hbTimeout n) (deadTimeout n)) (gm_get (workers n) k)
       else gm_get (workers n) k)" unfolding ks by blast
  moreover have "gm_get (workers n) k = None" if "k \<notin> gm_keys (workers n)" for k
    using that by (simp add: gm_get_None_iff)
  ultimately show ?thesis by (auto simp: checkWorkerHealth_def)
qed

section \<open>Properties of the node service\<close>

text \<open>
  A task report never panics and does to the scheduler exactly \<open>Complete\<close> or \<open>Fail\<close> of the named
  task, and to the reporting worker's breaker exactly \<open>RecordSuccess\<close> or \<open>RecordFailure\<close>. Nothing
  else of the service's state depends on it; in particular the report is taken whichever worker the
  task is assigned to.
\<close>

theorem report_settles_task:
  assumes "node_bus_ok n" and "reg_Get (rWorkerId rep) (regs n) = (cb, rs)"
  shows "\<exists>n'. ReportTaskStatus env rep n = Some n' \<and>
    (heap n', sched n') = snd (if rState rep = TASK_COMPLETED
       then sched_Complete (re_done env) (rTaskId rep) (rOutput rep) (rExitCode rep) (heap n, sched n)
       else sched_Fail (re_done env) (re_rt env) (rTaskId rep) (rErrorMessage rep) (rExitCode rep) (heap n, sched n)) \<and>
    cells (regs n') cb = (if rState rep = TASK_COMPLETED then RecordSuccess (cells rs cb)
       else RecordFailure (re_breaker env) (cells rs cb)) \<and>
    (\<forall>p. p \<noteq> cb \<longrightarrow> cells (regs n') p = cells rs p) \<and>
    workers n' = workers n \<and> workerStreams n' = workerStreams n \<and> cancelled n' = cancelled n"
  using report_effect [OF assms, of env]
  by (auto simp: report_op_def report_breaker_def at_cell_def node_frame_def)

theorem report_settles_task_witness:
  "let t = (New 5 ''a'' ''a.sh'')\<lparr>tState := StateRunning, tWorkerID := ''w1''\<rparr>; m = (\<lambda>_. t);
       n = (NewNodeServer m (\<lambda>_. cb_New [] 1 1 0) 30 60 None None)
             \<lparr>sched := (NewScheduler m 0)\<lparr>inFlight := [(''a'', 0)]\<rparr>\<rparr>;
       rep = \<lparr>rTaskId = ''a'', rWorkerId = ''w2'', rState = TASK_COMPLETED, rOutput = ''ok'', rErrorMessage = [],
              rStartedAt = None, rCompletedAt = None, rExitCode = 0\<rparr>;
       env = \<lparr>re_done = 9, re_rt = \<lparr>rt_now = 9, rt_jitter = 0, rt_f2i = 0\<rparr>, re_breaker = 9, re_publish = 9\<rparr>
   in \<exists>n'. ReportTaskStatus env rep n = Some n' \<and> inFlight (sched n') = [] \<and>
        tState (heap n' 0) = StateCompleted"
proof -
  let ?m = "\<lambda>_ :: nat. (New 5 ''a'' ''a.sh'')\<lparr>tState := StateRunning, tWorkerID := ''w1''\<rparr>"
  let ?s = "(NewScheduler ?m 0)\<lparr>inFlight := [(''a'', 0)]\<rparr>"
  let ?n = "(NewNodeServer ?m (\<lambda>_. cb_New [] 1 1 0) 30 60 None None)\<lparr>sched := ?s\<rparr>"
  let ?rep = "\<lparr>rTaskId = ''a'', rWorkerId = ''w2'', rState = TASK_COMPLETED, rOutput = ''ok'', rErrorMessage = [],
              rStartedAt = None, rCompletedAt = None, rExitCode = 0\<rparr>"
  let ?env = "\<lparr>re_done = 9, re_rt = \<lparr>rt_now = 9, rt_jitter = 0, rt_f2i = 0\<rparr>, re_breaker = 9, re_publish = 9\<rparr>"
  have ok: "node_bus_ok ?n" by (simp add: node_bus_ok_def NewNodeServer_def)
  obtain cb rs where g: "reg_Get (rWorkerId ?rep) (regs ?n) = (cb, rs)" by force
  have c: "snd (sched_Complete 9 ''a'' ''ok'' 0 (?m, ?s)) =
      (?m(0 := (?m 0)\<lparr>tState := StateCompleted, tOutput := ''ok'', tExitCode := 0, tCompletedAt := 9\<rparr>),
       ?s\<lparr>inFlight := [], totalCompleted := 1, completed := [0]\<rparr>)"
    by (simp add: sched_Complete_def gm_get_def gm_del_def task_Complete_eq NewScheduler_def cap_completed_def
        maxCompleted_def)
  obtain n' where "ReportTaskStatus ?env ?rep ?n = Some n'"
    "(heap n', sched n') = snd (sched_Complete 9 ''a'' ''ok'' 0 (?m, ?s))"
    using report_settles_task [OF ok g, of ?env] by (auto simp: NewNodeServer_def)
  then show ?thesis unfolding Let_def c by (intro exI [of _ n']) simp
qed

text \<open>
  A health check makes a silent \<open>ACTIVE\<close> worker \<open>SUSPECT\<close> and a silent \<open>SUSPECT\<close> one \<open>DEAD\<close>, each
  exactly when more than its limit has passed since the last heartbeat, never both in one check, and
  leaves all other workers as they are. It never touches the scheduler: the tasks of a worker it
  declares dead stay in flight.
\<close>

theorem health_check_transitions:
  assumes "node_bus_ok n" and "range_ok ks (workers n)"
    and "sint (hbTimeout n) < 9223372036854775807" and "sint (deadTimeout n) < 9223372036854775807"
  shows "\<exists>n'. checkWorkerHealth now pub ks n = Some n' \<and> heap n' = heap n \<and> sched n' = sched n \<and>
    gm_keys (workers n') = gm_keys (workers n) \<and>
    (\<forall>k w. gm_get (workers n) k = Some w \<longrightarrow> (\<exists>w'. gm_get (workers n') k = Some w' \<and>
       w' = w\<lparr>wiState := (if wiState w = WORKER_ACTIVE \<and> sint (hbTimeout n) < now - wiLastHeartbeat w
                then WORKER_SUSPECT
              else if wiState w = WORKER_SUSPECT \<and> sint (deadTimeout n) < now - wiLastHeartbeat w
                then WORKER_DEAD else wiState w)\<rparr>))"
proof -
  obtain n' where n': "checkWorkerHealth now pub ks n = Some n'" "workers_only n n'"
    "\<forall>k. gm_get (workers n') k =
      map_option (health_next now (hbTimeout n) (deadTimeout n)) (gm_get (workers n) k)"
    using checkWorkerHealth_effect [OF assms(1,2)] by blast
  have "gm_keys (workers n') = gm_keys (workers n)"
    using n'(3) gm_get_None_iff [of "workers n'"] gm_get_None_iff [of "workers n"] by (auto simp: set_eq_iff)
  moreover have "health_next now (hbTimeout n) (deadTimeout n) w =
      w\<lparr>wiState := (if wiState w = WORKER_ACTIVE \<and> sint (hbTimeout n) < now - wiLastHeartbeat w
                then WORKER_SUSPECT
              else if wiState w = WORKER_SUSPECT \<and> sint (deadTimeout n) < now - wiLastHeartbeat w
                then WORKER_DEAD else wiState w)\<rparr>" for w
    using assms(3,4) by (auto simp: health_next_def time_Sub_greater)
  ultimately show ?thesis using n' by (auto simp: workers_only_def)
qed

theorem health_check_transitions_witness:
  "let w = \<lparr>wiID = ''w'', wiHostname = [], wiState = WORKER_SUSPECT, wiStartTime = 0, wiLastHeartbeat = 10,
            wiActiveTasks = 1\<rparr>;
       n = (NewNodeServer (\<lambda>_. New 0 [] []) (\<lambda>_. cb_New [] 1 1 0) 30 60 None None)\<lparr>workers := [(''w'', w)]\<rparr>
   in \<exists>n'. checkWorkerHealth 71 (\<lambda>_. 71) [''w''] n = Some n' \<and> sched n' = sched n \<and>
        gm_get (workers n') ''w'' = Some (w\<lparr>wiState := WORKER_DEAD\<rparr>)"
proof -
  let ?w = "\<lparr>wiID = ''w'', wiHostname = [], wiState = WORKER_SUSPECT, wiStartTime = 0, wiLastHeartbeat = 10,
            wiActiveTasks = 1\<rparr>"
  let ?n = "(NewNodeServer (\<lambda>_. New 0 [] []) (\<lambda>_. cb_New [] 1 1 0) 30 60 None None)\<lparr>workers := [(''w'', ?w)]\<rparr>"
  have ok: "node_bus_ok ?n" by (simp add: node_bus_ok_def NewNodeServer_def)
  have r: "range_ok [''w''] (workers ?n)" by (simp add: range_ok_def gm_keys_def)
  have t: "sint (hbTimeout ?n) < 9223372036854775807" "sint (deadTimeout ?n) < 9223372036854775807"
    by (simp_all add: NewNodeServer_def)
  have g: "gm_get (workers ?n) ''w'' = Some ?w" by (simp add: gm_get_def)
  obtain n' where n': "checkWorkerHealth 71 (\<lambda>_. 71) [''w''] ?n = Some n'" "sched n' = sched ?n"
      "\<exists>w'. gm_get (workers n') ''w'' = Some w' \<and>
       w' = ?w\<lparr>wiState := (if wiState ?w = WORKER_ACTIVE \<and> sint (hbTimeout ?n) < 71 - wiLastHeartbeat ?w
                then WORKER_SUSPECT
              else if wiState ?w = WORKER_SUSPECT \<and> sint (deadTimeout ?n) < 71 - wiLastHeartbeat ?w
                then WORKER_DEAD else wiState ?w)\<rparr>"
    using health_check_transitions [OF ok r t, of 71 "\<lambda>_. 71"] g by blast
  have "gm_get (workers n') ''w'' = Some (?w\<lparr>wiState := WORKER_DEAD\<rparr>)"
    using n'(3) by (simp add: NewNodeServer_def)
  with n'(1,2) show ?thesis unfolding Let_def by blast
qed

text \<open>
  A heartbeat brings a \<open>SUSPECT\<close> worker back and restarts its clock, so that a health check within
  \<open>HeartbeatTimeout\<close> of it leaves the worker \<open>ACTIVE\<close>. A worker once declared \<open>DEAD\<close> stays so, however
  many heartbeats it sends.
\<close>

theorem heartbeat_revives_suspect:
  assumes "gm_get (workers n) (hbWorkerId hb) = Some w" and "node_bus_ok n"
    and "range_ok ks (workers (SendHeartbeat t hb n))"
    and "now - t \<le> sint (hbTimeout n)"
  shows "\<exists>n' w'. checkWorkerHealth now pub ks (SendHeartbeat t hb n) = Some n' \<and>
    gm_get (workers n') (hbWorkerId hb) = Some w' \<and> wiLastHeartbeat w' = t \<and> wiActiveTasks w' = hbActiveTasks hb \<and>
    wiState w' = (if wiState w = WORKER_SUSPECT then WORKER_ACTIVE else wiState w)"
proof -
  let ?n = "SendHeartbeat t hb n"
  let ?w = "w\<lparr>wiLastHeartbeat := t, wiActiveTasks := hbActiveTasks hb,
    wiState := (if wiState w = WORKER_SUSPECT then WORKER_ACTIVE else wiState w)\<rparr>"
  have g: "gm_get (workers ?n) (hbWorkerId hb) = Some ?w" and ok: "node_bus_ok ?n" and c: "hbTimeout ?n = hbTimeout n"
    using assms(1,2) by (auto simp: SendHeartbeat_def Let_def node_bus_ok_def)
  obtain n' where n': "checkWorkerHealth now pub ks ?n = Some n'"
    "\<forall>k. gm_get (workers n') k = map_option (health_next now (hbTimeout ?n) (deadTimeout ?n)) (gm_get (workers ?n) k)"
    using checkWorkerHealth_effect [OF ok assms(3)] by blast
  moreover have "health_next now (hbTimeout ?n) (deadTimeout ?n) ?w = ?w"
    using assms(4) by (auto simp: health_next_def time_Sub_greater c)
  ultimately show ?thesis using g by simp
qed

theorem heartbeat_revives_suspect_witness:
  "let w = \<lparr>wiID = ''w'', wiHostname = [], wiState = WORKER_SUSPECT, wiStartTime = 0, wiLastHeartbeat = 10,
            wiActiveTasks = 1\<rparr>;
       n = (NewNodeServer (\<lambda>_. New 0 [] []) (\<lambda>_. cb_New [] 1 1 0) 30 60 None None)\<lparr>workers := [(''w'', w)]\<rparr>
   in \<exists>n' w'. checkWorkerHealth 80 (\<lambda>_. 80) [''w''] (SendHeartbeat 60 \<lparr>hbWorkerId = ''w'', hbActiveTasks = 2\<rparr> n) = Some n' \<and>
        gm_get (workers n') ''w'' = Some w' \<and> wiState w' = WORKER_ACTIVE"
proof -
  let ?w = "\<lparr>wiID = ''w'', wiHostname = [], wiState = WORKER_SUSPECT, wiStartTime = 0, wiLastHeartbeat = 10,
            wiActiveTasks = 1\<rparr>"
  let ?n = "(NewNodeServer (\<lambda>_. New 0 [] []) (\<lambda>_. cb_New [] 1 1 0) 30 60 None None)\<lparr>workers := [(''w'', ?w)]\<rparr>"
  let ?hb = "\<lparr>hbWorkerId = ''w'', hbActiveTasks = 2\<rparr>"
  have g: "gm_get (workers ?n) (hbWorkerId ?hb) = Some ?w" by (simp add: gm_get_def)
  have ok: "node_bus_ok ?n" by (simp add: node_bus_ok_def NewNodeServer_def)
  have r: "range_ok [''w''] (workers (SendHeartbeat 60 ?hb ?n))"
    by (simp add: SendHeartbeat_def gm_get_def range_ok_def Let_def) (simp add: gm_keys_def)
  have "80 - 60 \<le> sint (hbTimeout ?n)" by (simp add: NewNodeServer_def)
  from heartbeat_revives_suspect [OF g ok r this, of "\<lambda>_. 80"] show ?thesis unfolding Let_def by auto
qed

end
