(* ===== verification/Dispatch.thy ===== *)
theory Dispatch
  imports NodeServer
begin

text \<open>
  The dispatch loop, \<open>AssignTask\<close> of \<open>src/internal/server/node_server.go\<close>, run by any number of
  concurrent streams beside the other handlers. A stream's program counter moves from one shared
  access to the next; between two of its steps anything else may happen. \<open>dstep\<close> is executable: the
  runtime's choices (which stream moves, which ready branch a \<open>select\<close> takes, whether a send
  succeeds, clock readings, map orders) are in the action.
\<close>

section \<open>Streams\<close>

text \<open>One constructor per shared access of the function, in the order of the code; the last six are
  its deferred clean-up and the return.\<close>

datatype stream_pc =
    PcStream | PcRegister | PcAnnounce
  | PcSelect | PcGet | PcAllow ref | PcDecline | PcDequeue
  | PcAssign ref | PcStart ref | PcSave ref | PcSend ref | PcUnsend ref | PcReenqueue ref | PcSent ref
  | PcUnstream | PcRequeue | PcMarkDead | PcGoodbye | PcCancel | PcDone

record stream =
  stWorker :: string
  stHostname :: string
  stStart :: time
  stPc :: stream_pc

record assignment =
  aTaskId :: string
  aScript :: string
  aAssignedAt :: time
  aAttempt :: int32
  aTimeoutSeconds :: int64
  aType :: task_type
  aContent :: string
  aLanguage :: string
  aEntrypoint :: string

definition mk_assignment :: "time \<Rightarrow> task \<Rightarrow> assignment" where
  "mk_assignment now t =
     \<lparr>aTaskId = tID t, aScript = tScript t, aAssignedAt = now, aAttempt = tAttempt t,
      aTimeoutSeconds = tTimeoutSec t, aType = tType t, aContent = tContent t,
      aLanguage = tLanguage t, aEntrypoint = tEntrypoint t\<rparr>"

text \<open>
  The whole service: the shared state, the streams, what each stream has sent so far, and two
  observations: the tasks ever completed, and whether some goroutine has panicked.
\<close>

record dsys =
  nd :: node
  streams :: "nat \<Rightarrow> stream option"
  sent :: "(nat \<times> assignment) list"
  finished :: "ref set"
  panicked :: bool

text \<open>What one step of a stream takes from the runtime.\<close>

record step_in =
  si_now :: time
  si_done :: bool
  si_sendok :: bool
  si_order :: "string list"

section \<open>One step of a stream\<close>

definition goto_pc :: "nat \<Rightarrow> stream \<Rightarrow> stream_pc \<Rightarrow> dsys \<Rightarrow> dsys" where
  "goto_pc i st c d = d\<lparr>streams := (streams d)(i := Some (st\<lparr>stPc := c\<rparr>))\<rparr>"

definition set_task :: "ref \<Rightarrow> task \<Rightarrow> node \<Rightarrow> node" where
  "set_task p t n = n\<lparr>heap := (heap n)(p := t)\<rparr>"

text \<open>A handler's result: its new state, or a panic.\<close>

definition settle :: "node option \<Rightarrow> dsys \<Rightarrow> dsys" where
  "settle r d = (case r of None \<Rightarrow> d\<lparr>panicked := True\<rparr> | Some n \<Rightarrow> d\<lparr>nd := n\<rparr>)"

definition register_worker :: "time \<Rightarrow> stream \<Rightarrow> node \<Rightarrow> node" where
  "register_worker now st n =
     n\<lparr>workers := gm_put (stWorker st)
         \<lparr>wiID = stWorker st, wiHostname = stHostname st, wiState = WORKER_ACTIVE, wiStartTime = stStart st,
          wiLastHeartbeat = now, wiActiveTasks = 0\<rparr> (workers n)\<rparr>"

definition mark_dead :: "string \<Rightarrow> node \<Rightarrow> node" where
  "mark_dead w n =
     (case gm_get (workers n) w of
        None \<Rightarrow> n
      | Some wi \<Rightarrow> n\<lparr>workers := gm_put w (wi\<lparr>wiState := WORKER_DEAD\<rparr>) (workers n)\<rparr>)"

fun stream_step :: "nat \<Rightarrow> step_in \<Rightarrow> stream \<Rightarrow> stream_pc \<Rightarrow> dsys \<Rightarrow> dsys option" where
  "stream_step i x st PcStream d =
     (let n = nd d in
      Some (goto_pc i st PcRegister (d\<lparr>nd := n\<lparr>workerStreams := gm_put (stWorker st) i (workerStreams n)\<rparr>\<rparr>)))"
| "stream_step i x st PcRegister d =
     Some (goto_pc i st PcAnnounce (d\<lparr>nd := register_worker (si_now x) st (nd d)\<rparr>))"
| "stream_step i x st PcAnnounce d =
     Some (goto_pc i st PcSelect
       (settle (publishEvent (si_now x) EventWorkerConnected
          [(''worker_id'', EvStr (stWorker st)), (''hostname'', EvStr (stHostname st))]
          (observe [WorkersConnectedInc] (nd d))) d))"
| "stream_step i x st PcSelect d =
     (let n = nd d in
      if si_done x then (if cancelled n i then Some (goto_pc i st PcUnstream d) else None)
      else if notify (sched n)
        then Some (goto_pc i st PcGet (d\<lparr>nd := n\<lparr>sched := (sched n)\<lparr>notify := False\<rparr>\<rparr>\<rparr>))
      else None)"
| "stream_step i x st PcGet d =
     (case reg_Get (stWorker st) (regs (nd d)) of
        (cb, rs) \<Rightarrow> Some (goto_pc i st (PcAllow cb) (d\<lparr>nd := (nd d)\<lparr>regs := rs\<rparr>\<rparr>)))"
| "stream_step i x st (PcAllow cb) d =
     (let rs = regs (nd d) in
      case Allow (si_now x) (cells rs cb) of
        (ok, b) \<Rightarrow> Some (goto_pc i st (if ok then PcDequeue else PcDecline)
          (d\<lparr>nd := (nd d)\<lparr>regs := rs\<lparr>cells := (cells rs)(cb := b)\<rparr>\<rparr>\<rparr>)))"
| "stream_step i x st PcDecline d =
     Some (goto_pc i st PcSelect (d\<lparr>nd := (nd d)\<lparr>sched := Notify (sched (nd d))\<rparr>\<rparr>))"
| "stream_step i x st PcDequeue d =
     (case Dequeue (heap (nd d)) (sched (nd d)) of
        (r, s) \<Rightarrow> Some (goto_pc i st (case r of None \<Rightarrow> PcSelect | Some p \<Rightarrow> PcAssign p)
          (d\<lparr>nd := (nd d)\<lparr>sched := s\<rparr>\<rparr>)))"
| "stream_step i x st (PcAssign p) d =
     (let t = heap (nd d) p in
      Some (goto_pc i st (PcStart p) (d\<lparr>nd := set_task p (ignore_err t (task_Assign (si_now x) (stWorker st) t)) (nd d)\<rparr>)))"
| "stream_step i x st (PcStart p) d =
     (let t = heap (nd d) p in
      Some (goto_pc i st (PcSave p) (d\<lparr>nd := set_task p (ignore_err t (task_Start (si_now x) t)) (nd d)\<rparr>)))"
| "stream_step i x st (PcSave p) d =
     (let n = store_Save p (nd d) in
      Some (goto_pc i st (PcSend p)
        (d\<lparr>nd := observe [TasksAssignedInc, TaskQueueDepthSet (QueueDepth (Stats (sched n)))] n\<rparr>)))"
| "stream_step i x st (PcSend p) d =
     (if si_sendok x
      then Some (goto_pc i st (PcSent p) (d\<lparr>sent := sent d @ [(i, mk_assignment (si_now x) (heap (nd d) p))]\<rparr>))
      else Some (goto_pc i st (PcUnsend p) d))"
| "stream_step i x st (PcUnsend p) d =
     Some (goto_pc i st (PcReenqueue p)
       (d\<lparr>nd := set_task p ((heap (nd d) p)\<lparr>tState := StateQueued, tWorkerID := []\<rparr>) (nd d)\<rparr>))"
| "stream_step i x st (PcReenqueue p) d =
     Some (goto_pc i st PcUnstream (d\<lparr>nd := (nd d)\<lparr>sched := Enqueue (heap (nd d)) p (sched (nd d))\<rparr>\<rparr>))"
| "stream_step i x st (PcSent p) d =
     Some (goto_pc i st PcSelect
       (settle (publishEvent (si_now x) EventTaskAssigned
          [(''task_id'', EvStr (tID (heap (nd d) p))), (''worker_id'', EvStr (stWorker st)),
           (''attempt'', EvStr (fmt_int (sint (tAttempt (heap (nd d) p)))))] (nd d)) d))"
| "stream_step i x st PcUnstream d =
     Some (goto_pc i st PcRequeue
       (d\<lparr>nd := (nd d)\<lparr>workerStreams := gm_del (stWorker st) (workerStreams (nd d))\<rparr>\<rparr>))"
| "stream_step i x st PcRequeue d =
     (let n = observe [WorkersConnectedDec] (nd d) in
      if range_ok (si_order x) (inFlight (sched n)) then
        (case RequeueFromWorker (si_order x) (stWorker st) (heap n, sched n) of
           (_, m, s) \<Rightarrow> Some (goto_pc i st PcMarkDead (d\<lparr>nd := n\<lparr>heap := m, sched := s\<rparr>\<rparr>)))
      else None)"
| "stream_step i x st PcMarkDead d =
     Some (goto_pc i st PcGoodbye (d\<lparr>nd := mark_dead (stWorker st) (nd d)\<rparr>))"
| "stream_step i x st PcGoodbye d =
     Some (goto_pc i st PcCancel
       (settle (publishEvent (si_now x) EventWorkerDisconnected
          [(''worker_id'', EvStr (stWorker st))] (nd d)) d))"
| "stream_step i x st PcCancel d =
     Some (goto_pc i st PcDone (d\<lparr>nd := (nd d)\<lparr>cancelled := (cancelled (nd d))(i := True)\<rparr>\<rparr>))"
| "stream_step i x st PcDone d = None"

section \<open>The service\<close>

text \<open>
  A worker opens a stream or drops it, a stream moves, or another handler runs. A submitted task's
  identifier is one no earlier task had.
\<close>

datatype dact =
    Open nat string string time
  | Drop nat
  | Move nat step_in
  | SubmitTask task
  | Report report_env task_report
  | Beat time heartbeat
  | Tick tick
  | Kill string
  | RetryDLQ string
  | TripCB time string
  | ResetCB string

definition on_breaker :: "string \<Rightarrow> (breaker \<Rightarrow> breaker) \<Rightarrow> node \<Rightarrow> node" where
  "on_breaker w f n = (case reg_Get w (regs n) of (cb, rs) \<Rightarrow> n\<lparr>regs := at_cell cb f rs\<rparr>)"

fun tick_ok :: "tick \<Rightarrow> node \<Rightarrow> bool" where
  "tick_ok (HealthTick now pub ks) n = range_ok ks (workers n)"
| "tick_ok (RetryTick now) n = True"
| "tick_ok (TimeoutTick now env ks) n = range_ok ks (inFlight (sched n))"

definition completes :: "task_report \<Rightarrow> node \<Rightarrow> ref set" where
  "completes rep n =
     (if rState rep = TASK_COMPLETED then set_option (gm_get (inFlight (sched n)) (rTaskId rep)) else {})"

fun dstep :: "dact \<Rightarrow> dsys \<Rightarrow> dsys option" where
  "dstep (Open i w h t) d =
     (if streams d i = None
      then Some (d\<lparr>streams := (streams d)(i := Some \<lparr>stWorker = w, stHostname = h, stStart = t, stPc = PcStream\<rparr>)\<rparr>)
      else None)"
| "dstep (Drop i) d = Some (d\<lparr>nd := (nd d)\<lparr>cancelled := (cancelled (nd d))(i := True)\<rparr>\<rparr>)"
| "dstep (Move i x) d =
     (case streams d i of None \<Rightarrow> None | Some st \<Rightarrow> stream_step i x st (stPc st) d)"
| "dstep (SubmitTask t) d =
     (if \<exists>p < next_task (nd d). tID (heap (nd d) p) = tID t then None
      else Some (d\<lparr>nd := enqueue_new t (nd d)\<rparr>))"
| "dstep (Report env rep) d =
     Some ((settle (ReportTaskStatus env rep (nd d)) d)\<lparr>finished := finished d \<union> completes rep (nd d)\<rparr>)"
| "dstep (Beat t hb) d = Some (d\<lparr>nd := SendHeartbeat t hb (nd d)\<rparr>)"
| "dstep (Tick tk) d = (if tick_ok tk (nd d) then Some (settle (on_tick tk (nd d)) d) else None)"
| "dstep (Kill w) d = Some (d\<lparr>nd := snd (DisconnectWorker w (nd d))\<rparr>)"
| "dstep (RetryDLQ k) d =
     (case sched_RetryFromDLQ k (heap (nd d), sched (nd d)) of
        (_, m, s) \<Rightarrow> Some (d\<lparr>nd := (nd d)\<lparr>heap := m, sched := s\<rparr>\<rparr>))"
| "dstep (TripCB now w) d = Some (d\<lparr>nd := on_breaker w (Trip now) (nd d)\<rparr>)"
| "dstep (ResetCB w) d = Some (d\<lparr>nd := on_breaker w Reset (nd d)\<rparr>)"

definition service_step :: "dsys \<Rightarrow> dsys \<Rightarrow> bool" where
  "service_step d d' \<longleftrightarrow> (\<exists>a. dstep a d = Some d')"

definition service_start :: "dsys \<Rightarrow> bool" where
  "service_start d \<longleftrightarrow>
     (\<exists>m mem hb dead st b. nd d = NewNodeServer m mem hb dead st b \<and> (case b of None \<Rightarrow> True | Some b \<Rightarrow> bus_ok b)) \<and>
     (\<forall>i. streams d i = None) \<and> sent d = [] \<and> finished d = {} \<and> \<not> panicked d"

text \<open>A run of given actions, for concrete executions.\<close>

fun drun :: "dact list \<Rightarrow> dsys \<Rightarrow> dsys option" where
  "drun [] d = Some d"
| "drun (a # as) d = (case dstep a d of None \<Rightarrow> None | Some d \<Rightarrow> drun as d)"

section \<open>The invariant\<close>

text \<open>
  Every task ever submitted (the cells below \<open>next_task\<close>) is still in the scheduler's hands or was
  completed; the scheduler's structures are well formed and hold no other cells; identifiers are
  unique; the bus is sound.
\<close>

definition core_inv :: "node \<Rightarrow> ref set \<Rightarrow> bool" where
  "core_inv n fin \<longleftrightarrow>
     sched_inv (heap n) (sched n) \<and>
     (\<forall>p. p \<in># live (sched n) \<longrightarrow> p < next_task n) \<and>
     (\<forall>p < next_task n. p \<in># live (sched n) \<or> p \<in> fin) \<and>
     inj_on (\<lambda>p. tID (heap n p)) {..<next_task n} \<and> node_bus_ok n"

text \<open>The task a stream is handing out, and the places in the loop where it has taken a signal and
  neither looked at the queue nor passed the signal on.\<close>

fun pc_task :: "stream_pc \<Rightarrow> ref option" where
  "pc_task (PcAssign p) = Some p"
| "pc_task (PcStart p) = Some p"
| "pc_task (PcSave p) = Some p"
| "pc_task (PcSend p) = Some p"
| "pc_task (PcUnsend p) = Some p"
| "pc_task (PcReenqueue p) = Some p"
| "pc_task (PcSent p) = Some p"
| "pc_task _ = None"

fun carrying :: "stream_pc \<Rightarrow> bool" where
  "carrying PcGet = True"
| "carrying (PcAllow cb) = True"
| "carrying PcDecline = True"
| "carrying PcDequeue = True"
| "carrying _ = False"

definition awake :: "dsys \<Rightarrow> bool" where
  "awake d \<longleftrightarrow> armed (sched (nd d)) \<or> (\<exists>i st. streams d i = Some st \<and> carrying (stPc st))"

definition service_inv :: "dsys \<Rightarrow> bool" where
  "service_inv d \<longleftrightarrow>
     core_inv (nd d) (finished d) \<and> awake d \<and> \<not> panicked d \<and>
     (\<forall>i st p. streams d i = Some st \<longrightarrow> pc_task (stPc st) = Some p \<longrightarrow> p < next_task (nd d))"

subsection \<open>Scheduler calls keep the core\<close>

lemma core_exec_op:
  assumes inv: "core_inv n fin" and en: "op_enabled a (heap n, sched n)"
    and a: "a \<noteq> Take" "\<forall>p t. a \<noteq> Submit p t"
    and ex: "(heap n', sched n') = exec_op a (heap n, sched n)"
    and nt: "next_task n' = next_task n" and ok: "node_bus_ok n'"
    and fin: "fin' = fin \<union> set_mset (op_out a (heap n, sched n))"
  shows "core_inv n' fin' \<and> (armed (sched n) \<longrightarrow> armed (sched n'))"
proof -
  have si: "sched_inv (heap n) (sched n)" using inv by (simp add: core_inv_def)
  have k: "kept (heap n) (heap n') (sched n')"
    using exec_op_kept [OF si en a(2)] ex by simp
  have "op_in a (heap n, sched n) = {#}" using a(2) by (cases a) auto
  then have bal: "live (sched n') + op_out a (heap n, sched n) = live (sched n)"
    using exec_op_live [OF si en a(1)] ex by (metis add.right_neutral snd_conv)
  then have l: "p \<in># live (sched n) \<longleftrightarrow> p \<in># live (sched n') \<or> p \<in># op_out a (heap n, sched n)" for p
    by (metis union_iff)
  have id: "tID (heap n' p) = tID (heap n p)" for p
    using k by (simp add: kept_def same_keys_ID)
  have "armed (sched n')" if "armed (sched n)"
    using armed_exec_op [OF si en that] ex by (metis snd_conv)
  moreover have "core_inv n' fin'"
    using inv k l ok unfolding core_inv_def kept_def id nt fin by auto
  ultimately show ?thesis by blast
qed

lemma core_set_task:
  assumes "core_inv n fin" and "task_key t = task_key (heap n p)"
  shows "core_inv (set_task p t n) fin"
  using core_exec_op [OF assms(1), of "Touch p t" "set_task p t n" fin] assms
  by (simp add: set_task_def core_inv_def node_bus_ok_def)

text \<open>Changes outside the tasks and the scheduler, and to its signal, do not matter.\<close>

lemma core_inv_cong:
  assumes "core_inv n fin" and "heap n' = heap n" "sched n' = (sched n)\<lparr>notify := b\<rparr>"
    "next_task n' = next_task n" "node_bus_ok n'"
  shows "core_inv n' fin"
  using assms by (simp add: core_inv_def sched_inv_def live_def)

lemma core_inv_same:
  assumes "core_inv n fin" and "heap n' = heap n" "sched n' = sched n"
    "next_task n' = next_task n" "node_bus_ok n'"
  shows "core_inv n' fin"
  using assms by (simp add: core_inv_def)

lemma live_set_Dequeue:
  assumes inv: "core_inv n fin" and d: "Dequeue (heap n) (sched n) = (r, s')"
  shows "set_mset (live s') = set_mset (live (sched n)) \<and> (\<forall>p. r = Some p \<longrightarrow> p \<in># live (sched n)) \<and> armed s'"
  using d
proof (cases rule: Dequeue_cases)
  case 1
  then show ?thesis by (simp add: armed_def)
next
  case (2 p q)
  let ?f = "inFlight (sched n)" and ?k = "tID (heap n p)"
  have pop: "mset (queue (sched n)) = add_mset p (mset q)" by (rule heap_Pop_mset [OF 2(1)])
  then have pq: "p \<in># live (sched n)" by (simp add: live_def)
  have ky: "keyed (heap n) ?f" using inv by (simp add: core_inv_def sched_inv_def)
  have same: "x = p" if "gm_get ?f ?k = Some x" for x
  proof -
    have "x \<in># live (sched n)" using gm_get_ran [OF that] by (auto simp: live_def gm_ran_def)
    then show ?thesis
      using inv pq keyed_get [OF ky that] by (auto simp: core_inv_def inj_on_def)
  qed
  have ok: "gm_ok ?f" using ky by (simp add: keyed_def)
  have "gm_ran (gm_put ?k p ?f) = insert p (gm_ran ?f)"
    using same by (auto simp: gm_ran_iff ok gm_ok_put) (metis option.inject)+
  then have "set (map snd (inFlight s')) = insert p (set (map snd ?f))" using 2 by (simp add: gm_ran_def)
  moreover have "set (queue (sched n)) = insert p (set q)" using pop by (metis set_mset_add_mset_insert set_mset_mset)
  ultimately have "set_mset (live s') = set_mset (live (sched n))"
    using 2 by (auto simp: live_def same_rest_def)
  with pq 2 show ?thesis by (simp add: armed_def)
qed

lemma core_Dequeue:
  assumes inv: "core_inv n fin" and d: "Dequeue (heap n) (sched n) = (r, s')"
  shows "core_inv (n\<lparr>sched := s'\<rparr>) fin"
proof -
  have "sched_inv (heap n) s'" using sched_inv_Dequeue [of "heap n" "sched n"] inv d by (simp add: core_inv_def)
  with inv live_set_Dequeue [OF assms] show ?thesis by (simp add: core_inv_def node_bus_ok_def)
qed

lemma core_reenqueue:
  assumes "core_inv n fin" and "p < next_task n"
  shows "core_inv (n\<lparr>sched := Enqueue (heap n) p (sched n)\<rparr>) fin"
  using assms by (auto simp: core_inv_def sched_inv_Enqueue live_Enqueue node_bus_ok_def)

lemma core_submit:
  assumes inv: "core_inv n fin" and fresh: "\<forall>p < next_task n. tID (heap n p) \<noteq> tID t"
  shows "core_inv (enqueue_new t n) fin"
proof -
  let ?p = "next_task n" let ?m = "(heap n)(?p := t)"
  have np: "?p \<notin># live (sched n)" using inv by (auto simp: core_inv_def)
  have "sched_inv ?m (Enqueue ?m ?p (sched n))"
    using inv np by (intro sched_inv_Enqueue sched_inv_fresh) (simp_all add: core_inv_def)
  moreover have "inj_on (\<lambda>p. tID (?m p)) {..<Suc ?p}"
    using inv fresh by (auto simp: core_inv_def inj_on_def less_Suc_eq)
  moreover have f: "heap (enqueue_new t n) = ?m" "sched (enqueue_new t n) = Enqueue ?m ?p (sched n)"
    "next_task (enqueue_new t n) = Suc ?p" "evbus (enqueue_new t n) = evbus n"
    by (simp_all add: enqueue_new_def alloc_task_def enqueue_def Let_def)
  ultimately show ?thesis
    using inv by (auto simp: core_inv_def f live_Enqueue node_bus_ok_def less_Suc_eq intro: less_SucI)
qed

lemma armed_Enqueue [simp]: "armed (Enqueue m p s)"
  by (simp add: armed_def Enqueue_def Notify_def)

lemma armed_Notify [simp]: "armed (Notify s)"
  by (simp add: armed_def Notify_def)

subsection \<open>A stream's step\<close>

lemma service_inv_goto:
  assumes inv: "service_inv d" and st: "streams d i = Some st"
    and core: "core_inv n' (finished d)" and nt: "next_task n' = next_task (nd d)"
    and pc: "\<And>p. pc_task c = Some p \<Longrightarrow> p < next_task (nd d)"
    and wake: "carrying c \<or> armed (sched n') \<or>
      \<not> carrying (stPc st) \<and> (armed (sched (nd d)) \<longrightarrow> armed (sched n'))"
  shows "service_inv (goto_pc i st c (d\<lparr>nd := n', sent := tr\<rparr>))"
proof -
  let ?d = "goto_pc i st c (d\<lparr>nd := n', sent := tr\<rparr>)"
  have "awake ?d"
  proof (cases "carrying c \<or> armed (sched n')")
    case False
    then have "\<not> armed (sched (nd d))" and ni: "\<not> carrying (stPc st)" using wake by auto
    then obtain j st' where j: "streams d j = Some st'" "carrying (stPc st')"
      using inv by (auto simp: service_inv_def awake_def)
    with ni st have "j \<noteq> i" by auto
    with j show ?thesis unfolding awake_def goto_pc_def by auto
  qed (auto simp: awake_def goto_pc_def)
  then show ?thesis
    using inv core nt pc by (auto simp: service_inv_def goto_pc_def)
qed

text \<open>The common case: the scheduler's queue and signal are not concerned.\<close>

lemma service_inv_goto_quiet:
  assumes inv: "service_inv d" and st: "streams d i = Some st" and nc: "\<not> carrying (stPc st) \<or> carrying c"
    and n': "heap n' = heap (nd d)" "sched n' = sched (nd d)" "next_task n' = next_task (nd d)" "node_bus_ok n'"
    and pc: "\<And>p. pc_task c = Some p \<Longrightarrow> pc_task (stPc st) = Some p"
  shows "service_inv (goto_pc i st c (d\<lparr>nd := n', sent := tr\<rparr>))"
proof (rule service_inv_goto [OF inv st _ n'(3)])
  have c: "core_inv (nd d) (finished d)" using inv by (simp add: service_inv_def)
  show "core_inv n' (finished d)" using c n' by (rule core_inv_same)
  show "p < next_task (nd d)" if "pc_task c = Some p" for p
    using pc [OF that] inv st by (auto simp: service_inv_def)
  show "carrying c \<or> armed (sched n') \<or>
      \<not> carrying (stPc st) \<and> (armed (sched (nd d)) \<longrightarrow> armed (sched n'))"
    using nc n'(2) by auto
qed

lemma settle_publish:
  assumes "node_bus_ok n"
  obtains b where "settle (publishEvent now ty data n) d = d\<lparr>nd := n\<lparr>evbus := b\<rparr>\<rparr>" "node_bus_ok (n\<lparr>evbus := b\<rparr>)"
  using publishEvent_ok [OF assms] by (metis option.simps(5) settle_def)

lemma dsys_sent_id: "d\<lparr>nd := n, sent := sent d\<rparr> = d\<lparr>nd := n\<rparr>"
  by simp

lemmas service_inv_goto_nd = service_inv_goto [where d = d and tr = "sent d" for d, unfolded dsys_sent_id]

lemmas service_inv_goto_quiet_nd =
  service_inv_goto_quiet [where d = d and tr = "sent d" for d, unfolded dsys_sent_id]

lemma node_bus_ok_upd [simp]:
  "node_bus_ok (n\<lparr>heap := m\<rparr>) = node_bus_ok n" "node_bus_ok (n\<lparr>sched := s\<rparr>) = node_bus_ok n"
  "node_bus_ok (n\<lparr>regs := r\<rparr>) = node_bus_ok n" "node_bus_ok (n\<lparr>workers := w\<rparr>) = node_bus_ok n"
  "node_bus_ok (n\<lparr>workerStreams := ws\<rparr>) = node_bus_ok n" "node_bus_ok (n\<lparr>cancelled := c\<rparr>) = node_bus_ok n"
  "node_bus_ok (observe ms n) = node_bus_ok n" "node_bus_ok (store_Save p n) = node_bus_ok n"
  by (simp_all add: node_bus_ok_def)

lemma mark_dead_fields [simp]:
  "heap (mark_dead w n) = heap n" "sched (mark_dead w n) = sched n" "next_task (mark_dead w n) = next_task n"
  "evbus (mark_dead w n) = evbus n"
  by (simp_all add: mark_dead_def split: option.split)

lemma service_core: "service_inv d \<Longrightarrow> core_inv (nd d) (finished d)"
  by (simp add: service_inv_def)

lemma service_bus: "service_inv d \<Longrightarrow> node_bus_ok (nd d)"
  by (simp add: service_inv_def core_inv_def)

lemma stream_task_bound:
  "service_inv d \<Longrightarrow> streams d i = Some st \<Longrightarrow> pc_task (stPc st) = Some p \<Longrightarrow> p < next_task (nd d)"
  by (auto simp: service_inv_def)

lemma inv_publish:
  assumes inv: "service_inv d" and st: "streams d i = Some st" and nc: "\<not> carrying (stPc st)"
    and c: "pc_task c = None" and n: "n = nd d \<or> n = observe ms (nd d)"
  shows "service_inv (goto_pc i st c (settle (publishEvent now ty data n) d))"
proof -
  have "node_bus_ok n" using service_bus [OF inv] n by auto
  then obtain b where b: "settle (publishEvent now ty data n) d = d\<lparr>nd := n\<lparr>evbus := b\<rparr>\<rparr>"
      "node_bus_ok (n\<lparr>evbus := b\<rparr>)" by (rule settle_publish)
  show ?thesis
    unfolding b(1) by (rule service_inv_goto_quiet_nd [OF inv st])
      (use nc c n b(2) in auto)
qed

lemma inv_set_task:
  assumes inv: "service_inv d" and st: "streams d i = Some st" and nc: "\<not> carrying (stPc st)"
    and pc: "pc_task (stPc st) = Some p" and c: "pc_task c = Some p"
    and key: "task_key t = task_key (heap (nd d) p)"
  shows "service_inv (goto_pc i st c (d\<lparr>nd := set_task p t (nd d)\<rparr>))"
  by (rule service_inv_goto_nd [OF inv st core_set_task [OF service_core [OF inv] key]])
    (use nc c stream_task_bound [OF inv st pc] in \<open>auto simp: set_task_def\<close>)

lemma inv_dequeue:
  assumes inv: "service_inv d" and st: "streams d i = Some st"
    and d: "Dequeue (heap (nd d)) (sched (nd d)) = (r, s)"
  shows "service_inv (goto_pc i st (case r of None \<Rightarrow> PcSelect | Some p \<Rightarrow> PcAssign p)
    (d\<lparr>nd := (nd d)\<lparr>sched := s\<rparr>\<rparr>))"
proof (rule service_inv_goto_nd [OF inv st core_Dequeue [OF service_core [OF inv] d]])
  note l = live_set_Dequeue [OF service_core [OF inv] d]
  show "p < next_task (nd d)" if "pc_task (case r of None \<Rightarrow> PcSelect | Some p \<Rightarrow> PcAssign p) = Some p" for p
    using that l service_core [OF inv] by (auto simp: core_inv_def split: option.splits)
qed (use live_set_Dequeue [OF service_core [OF inv] d] in simp_all)

lemma inv_requeue:
  assumes inv: "service_inv d" and st: "streams d i = Some st" and nc: "\<not> carrying (stPc st)"
    and ok: "range_ok ks (inFlight (sched (nd d)))"
    and r: "RequeueFromWorker ks w (heap (nd d), sched (nd d)) = (cnt, m, s)"
  shows "service_inv (goto_pc i st PcMarkDead (d\<lparr>nd := (observe ms (nd d))\<lparr>heap := m, sched := s\<rparr>\<rparr>))"
proof -
  have "core_inv ((observe ms (nd d))\<lparr>heap := m, sched := s\<rparr>) (finished d) \<and>
      (armed (sched (nd d)) \<longrightarrow> armed (sched ((observe ms (nd d))\<lparr>heap := m, sched := s\<rparr>)))"
    by (rule core_exec_op [OF service_core [OF inv], of "WorkerGone ks w"])
      (use ok r service_bus [OF inv] in simp_all)
  then show ?thesis
    by (intro service_inv_goto_nd [OF inv st]) (use nc in auto)
qed

lemma stream_step_inv:
  assumes inv: "service_inv d" and st: "streams d i = Some st" and step: "stream_step i x st (stPc st) d = Some d'"
  shows "service_inv d'"
proof -
  note core = service_core [OF inv] and bus = service_bus [OF inv]
  note quiet = service_inv_goto_quiet_nd [OF inv st]
  show ?thesis
  proof (cases "stPc st")
    case PcStream
    with step quiet [of PcRegister] bus show ?thesis by (auto simp: Let_def)
  next
    case PcRegister
    with step quiet [of PcAnnounce] bus show ?thesis by (auto simp: register_worker_def)
  next
    case PcAnnounce
    then have "service_inv (goto_pc i st PcSelect (settle (publishEvent now ty data (observe [WorkersConnectedInc] (nd d))) d))"
      for now ty data by (intro inv_publish [OF inv st _ _ disjI2 [OF refl]]) simp_all
    with step PcAnnounce show ?thesis by auto
  next
    case PcSelect
    show ?thesis
    proof (cases "si_done x")
      case True
      with PcSelect step quiet [of PcUnstream "nd d"] bus show ?thesis by (auto split: if_splits)
    next
      case False
      let ?n = "(nd d)\<lparr>sched := (sched (nd d))\<lparr>notify := False\<rparr>\<rparr>"
      have "core_inv ?n (finished d)" by (rule core_inv_cong [OF core]) (use bus in simp_all)
      then have "service_inv (goto_pc i st PcGet (d\<lparr>nd := ?n\<rparr>))"
        by (rule service_inv_goto_nd [OF inv st]) simp_all
      with False PcSelect step show ?thesis by (auto simp: Let_def split: if_splits)
    qed
  next
    case PcGet
    with step bus show ?thesis by (auto intro!: quiet split: prod.splits)
  next
    case (PcAllow cb)
    with step bus show ?thesis by (auto simp: Let_def intro!: quiet split: prod.splits if_splits)
  next
    case PcDecline
    let ?n = "(nd d)\<lparr>sched := Notify (sched (nd d))\<rparr>"
    have "core_inv ?n (finished d)"
      by (rule core_inv_cong [OF core]) (use bus in \<open>simp_all add: Notify_def\<close>)
    then have "service_inv (goto_pc i st PcSelect (d\<lparr>nd := ?n\<rparr>))"
      by (rule service_inv_goto_nd [OF inv st]) simp_all
    with PcDecline step show ?thesis by simp
  next
    case PcDequeue
    with step inv_dequeue [OF inv st] show ?thesis by (auto split: prod.splits)
  next
    case (PcAssign p)
    with step inv_set_task [OF inv st] show ?thesis by (auto simp: Let_def)
  next
    case (PcStart p)
    with step inv_set_task [OF inv st] show ?thesis by (auto simp: Let_def)
  next
    case (PcSave p)
    with step quiet [of "PcSend p"] bus show ?thesis by (auto simp: Let_def)
  next
    case (PcSend p)
    with step service_inv_goto_quiet [OF inv st, of "PcSent p" "nd d"] quiet [of "PcUnsend p" "nd d"] bus
    show ?thesis by (auto split: if_splits)
  next
    case (PcUnsend p)
    with step inv_set_task [OF inv st] show ?thesis by auto
  next
    case (PcReenqueue p)
    have "p < next_task (nd d)" using stream_task_bound [OF inv st] PcReenqueue by simp
    from core_reenqueue [OF core this]
    have "service_inv (goto_pc i st PcUnstream (d\<lparr>nd := (nd d)\<lparr>sched := Enqueue (heap (nd d)) p (sched (nd d))\<rparr>\<rparr>))"
      by (rule service_inv_goto_nd [OF inv st]) simp_all
    with PcReenqueue step show ?thesis by simp
  next
    case (PcSent p)
    with step inv_publish [OF inv st] show ?thesis by auto
  next
    case PcUnstream
    with step quiet [of PcRequeue] bus show ?thesis by auto
  next
    case PcRequeue
    with step inv_requeue [OF inv st] show ?thesis by (auto simp: Let_def split: if_splits prod.splits)
  next
    case PcMarkDead
    have "node_bus_ok (mark_dead (stWorker st) (nd d))" using bus by (simp add: node_bus_ok_def)
    with PcMarkDead step quiet [of PcGoodbye] show ?thesis by auto
  next
    case PcGoodbye
    with step inv_publish [OF inv st] show ?thesis by auto
  next
    case PcCancel
    with step quiet [of PcDone] bus show ?thesis by auto
  next
    case PcDone
    with step show ?thesis by simp
  qed
qed

subsection \<open>The other handlers\<close>

lemma service_inv_node:
  assumes inv: "service_inv d" and core: "core_inv n' (finished d')"
    and nt: "next_task (nd d) \<le> next_task n'" and wake: "armed (sched (nd d)) \<longrightarrow> armed (sched n')"
    and d': "nd d' = n'" "streams d' = streams d" "panicked d' = panicked d"
  shows "service_inv d'"
  using assms by (auto simp: service_inv_def awake_def intro: less_le_trans)

lemma service_inv_env:
  assumes inv: "service_inv d"
    and n': "heap n' = heap (nd d)" "sched n' = sched (nd d)" "next_task n' = next_task (nd d)" "node_bus_ok n'"
  shows "service_inv (d\<lparr>nd := n'\<rparr>)"
  by (rule service_inv_node [OF inv])
    (use core_inv_same [OF service_core [OF inv] n'] n' in auto)

lemma service_inv_op:
  assumes inv: "service_inv d" and en: "op_enabled a (heap (nd d), sched (nd d))"
    and a: "a \<noteq> Take" "\<forall>p t. a \<noteq> Submit p t"
    and ex: "(heap n', sched n') = exec_op a (heap (nd d), sched (nd d))"
    and nt: "next_task n' = next_task (nd d)" and ok: "node_bus_ok n'"
  shows "service_inv (d\<lparr>nd := n', finished := finished d \<union> set_mset (op_out a (heap (nd d), sched (nd d)))\<rparr>)"
  using core_exec_op [OF service_core [OF inv] en a ex nt ok refl]
  by (intro service_inv_node [OF inv]) (use nt in auto)

lemma report_op_out: "set_mset (op_out (report_op env rep) (heap n, sched n)) = completes rep n"
  by (simp add: report_op_def completes_def split: option.split)

lemma inv_report:
  assumes inv: "service_inv d"
  shows "service_inv ((settle (ReportTaskStatus env rep (nd d)) d)\<lparr>finished := finished d \<union> completes rep (nd d)\<rparr>)"
proof -
  obtain cb rs where g: "reg_Get (rWorkerId rep) (regs (nd d)) = (cb, rs)" by force
  obtain n' where n': "ReportTaskStatus env rep (nd d) = Some n'"
      "(heap n', sched n') = exec_op (report_op env rep) (heap (nd d), sched (nd d))" "node_frame (nd d) n'" "node_bus_ok n'"
    using report_effect [OF service_bus [OF inv] g, of env] by blast
  have "op_enabled (report_op env rep) (heap (nd d), sched (nd d))" "report_op env rep \<noteq> Take"
    "\<forall>p t. report_op env rep \<noteq> Submit p t" by (simp_all add: report_op_def)
  from service_inv_op [OF inv this n'(2) _ n'(4)] n'(3)
  show ?thesis by (simp add: settle_def n'(1) report_op_out node_frame_def)
qed

lemma inv_tick:
  assumes inv: "service_inv d" and ok: "tick_ok tk (nd d)"
  shows "service_inv (settle (on_tick tk (nd d)) d)"
proof (cases tk)
  case (HealthTick now pub ks)
  then obtain n' where "checkWorkerHealth now pub ks (nd d) = Some n'" "node_bus_ok n'" "workers_only (nd d) n'"
    using checkWorkerHealth_effect [OF service_bus [OF inv]] ok by fastforce
  with HealthTick service_inv_env [OF inv, of n'] show ?thesis
    by (simp add: settle_def workers_only_def node_frame_def)
next
  case (RetryTick now)
  obtain c m s where r: "ProcessRetries now (heap (nd d), sched (nd d)) = (c, m, s)" by (metis prod_cases3)
  have "service_inv (d\<lparr>nd := (nd d)\<lparr>heap := m, sched := s\<rparr>, finished := finished d \<union>
      set_mset (op_out (Retries now) (heap (nd d), sched (nd d)))\<rparr>)"
    by (rule service_inv_op [OF inv]) (use r service_bus [OF inv] in simp_all)
  with RetryTick r show ?thesis by (simp add: settle_def)
next
  case (TimeoutTick now env ks)
  obtain c m s where r: "CheckTimeouts now env ks (heap (nd d), sched (nd d)) = (c, m, s)" by (metis prod_cases3)
  have "service_inv (d\<lparr>nd := (nd d)\<lparr>heap := m, sched := s\<rparr>, finished := finished d \<union>
      set_mset (op_out (Timeouts now env ks) (heap (nd d), sched (nd d)))\<rparr>)"
    by (rule service_inv_op [OF inv]) (use r ok TimeoutTick service_bus [OF inv] in simp_all)
  with TimeoutTick r show ?thesis by (simp add: settle_def)
qed

lemma SendHeartbeat_fields [simp]:
  "heap (SendHeartbeat t hb n) = heap n" "sched (SendHeartbeat t hb n) = sched n"
  "next_task (SendHeartbeat t hb n) = next_task n" "evbus (SendHeartbeat t hb n) = evbus n"
  by (simp_all add: SendHeartbeat_def Let_def split: option.split)

lemma on_breaker_fields [simp]:
  "heap (on_breaker w f n) = heap n" "sched (on_breaker w f n) = sched n"
  "next_task (on_breaker w f n) = next_task n" "evbus (on_breaker w f n) = evbus n"
  by (simp_all add: on_breaker_def split: prod.split)

lemma DisconnectWorker_fields [simp]:
  "heap (snd (DisconnectWorker w n)) = heap n" "sched (snd (DisconnectWorker w n)) = sched n"
  "next_task (snd (DisconnectWorker w n)) = next_task n" "evbus (snd (DisconnectWorker w n)) = evbus n"
  by (simp_all add: DisconnectWorker_def split: option.split)

lemma dstep_inv:
  assumes inv: "service_inv d" and step: "dstep a d = Some d'"
  shows "service_inv d'"
proof -
  note bus = service_bus [OF inv] and env = service_inv_env [OF inv]
  show ?thesis
  proof (cases a)
    case (Open i w h t)
    let ?st = "\<lparr>stWorker = w, stHostname = h, stStart = t, stPc = PcStream\<rparr>"
    have new: "streams d i = None" and d': "d' = d\<lparr>streams := (streams d)(i := Some ?st)\<rparr>"
      using step Open by (auto split: if_splits)
    have "awake d'"
    proof (cases "armed (sched (nd d))")
      case False
      then obtain j st where j: "streams d j = Some st" "carrying (stPc st)"
        using inv by (auto simp: service_inv_def awake_def)
      with new have "j \<noteq> i" by auto
      with j show ?thesis unfolding awake_def d' by auto
    qed (simp add: awake_def d')
    with inv show ?thesis by (auto simp: service_inv_def d')
  next
    case (Drop i)
    with step env bus show ?thesis by auto
  next
    case (Move i x)
    with step stream_step_inv [OF inv] show ?thesis by (auto split: option.splits)
  next
    case (SubmitTask t)
    then have fresh: "\<forall>p < next_task (nd d). tID (heap (nd d) p) \<noteq> tID t" and d': "d' = d\<lparr>nd := enqueue_new t (nd d)\<rparr>"
      using step by (auto split: if_splits)
    have f: "next_task (enqueue_new t (nd d)) = Suc (next_task (nd d))" "armed (sched (enqueue_new t (nd d)))"
      by (simp_all add: enqueue_new_def alloc_task_def enqueue_def Let_def)
    show ?thesis
      unfolding d' by (rule service_inv_node [OF inv]) (use core_submit [OF service_core [OF inv] fresh] f in auto)
  next
    case (Report re rep)
    with step inv_report [OF inv] show ?thesis by auto
  next
    case (Beat t hb)
    with step env [of "SendHeartbeat t hb (nd d)"] bus show ?thesis by (auto simp: node_bus_ok_def)
  next
    case (Tick tk)
    with step inv_tick [OF inv] show ?thesis by (auto split: if_splits)
  next
    case (Kill w)
    with step env [of "snd (DisconnectWorker w (nd d))"] bus show ?thesis by (auto simp: node_bus_ok_def)
  next
    case (RetryDLQ k)
    obtain b m s where r: "sched_RetryFromDLQ k (heap (nd d), sched (nd d)) = (b, m, s)" by (metis prod_cases3)
    have "service_inv (d\<lparr>nd := (nd d)\<lparr>heap := m, sched := s\<rparr>, finished := finished d \<union>
        set_mset (op_out (Revive k) (heap (nd d), sched (nd d)))\<rparr>)"
      by (rule service_inv_op [OF inv]) (use r bus in simp_all)
    moreover have "d' = d\<lparr>nd := (nd d)\<lparr>heap := m, sched := s\<rparr>\<rparr>" using RetryDLQ r step by simp
    ultimately show ?thesis by simp
  next
    case (TripCB now w)
    with step env [of "on_breaker w (Trip now) (nd d)"] bus show ?thesis by (auto simp: node_bus_ok_def)
  next
    case (ResetCB w)
    with step env [of "on_breaker w Reset (nd d)"] bus show ?thesis by (auto simp: node_bus_ok_def)
  qed
qed

lemma service_start_inv: "service_start d \<Longrightarrow> service_inv d"
  using pool_inv_New
  by (auto simp: service_start_def service_inv_def core_inv_def awake_def armed_def NewNodeServer_def node_bus_ok_def
      NewScheduler_def live_def sched_inv_def keyed_def)

interpretation service: inv_system service_start service_step service_inv
proof
  show "service_start d \<Longrightarrow> service_inv d" for d by (rule service_start_inv)
  show "service_inv d \<Longrightarrow> service_step d d' \<Longrightarrow> service_inv d'" for d d'
    by (auto simp: service_step_def intro: dstep_inv)
qed

lemma drun_reach:
  "reach service_start service_step d \<Longrightarrow> drun as d = Some d' \<Longrightarrow> reach service_start service_step d'"
proof (induction as arbitrary: d)
  case (Cons a as)
  then obtain d1 where d1: "dstep a d = Some d1" "drun as d1 = Some d'" by (auto split: option.splits)
  then have "service_step d d1" by (auto simp: service_step_def)
  with Cons d1 show ?case by (blast intro: reach_step)
qed simp

section \<open>Concrete executions\<close>

text \<open>A service without bus and store, its streams' worker, and the inputs of plain steps.\<close>

definition demo_start :: dsys where
  "demo_start = \<lparr>nd = NewNodeServer (\<lambda>_. New 0 [] []) (\<lambda>_. cb_New [] 1 1 0) (30 * Second) (60 * Second) None None,
     streams = (\<lambda>_. None), sent = [], finished = {}, panicked = False\<rparr>"

definition go :: "time \<Rightarrow> step_in" where
  "go now = \<lparr>si_now = now, si_done = False, si_sendok = True, si_order = []\<rparr>"

lemma demo_reach: "reach service_start service_step demo_start"
  by (rule reach_init) (simp add: service_start_def demo_start_def, metis option.simps(4))

section \<open>Properties of the dispatch loop\<close>

text \<open>
  C1: no wake-up is lost. Whatever the streams and handlers do, and however they interleave, whenever
  a task is queued there is a signal in the channel or a stream that has taken one and has yet to
  look at the queue or pass it on. In particular a breaker that declines a worker, and a stream that
  closes, never strand the queue.
\<close>

theorem no_lost_wakeup:
  assumes "reach service_start service_step d" and "queue (sched (nd d)) \<noteq> []"
  shows "notify (sched (nd d)) \<or>
    (\<exists>i st. streams d i = Some st \<and> (stPc st = PcGet \<or> (\<exists>cb. stPc st = PcAllow cb) \<or>
       stPc st = PcDecline \<or> stPc st = PcDequeue))"
proof -
  have "awake d" using service.reach_inv [OF assms(1)] by (simp add: service_inv_def)
  moreover have "carrying c \<longleftrightarrow> c = PcGet \<or> (\<exists>cb. c = PcAllow cb) \<or> c = PcDecline \<or> c = PcDequeue" for c
    by (cases c) auto
  ultimately show ?thesis using assms(2) by (auto simp: awake_def armed_def)
qed

theorem no_lost_wakeup_witness:
  "\<exists>d. drun [SubmitTask (New 5 ''a'' ''a.sh''), Open 0 ''w'' ''h'' 1, Move 0 (go 6), Move 0 (go 7), Move 0 (go 8),
        Move 0 (go 9)] demo_start = Some d \<and> queue (sched (nd d)) = [0] \<and> \<not> notify (sched (nd d)) \<and>
      map_option stPc (streams d 0) = Some PcGet"
proof -
  let ?as = "[SubmitTask (New 5 ''a'' ''a.sh''), Open 0 ''w'' ''h'' 1, Move 0 (go 6), Move 0 (go 7), Move 0 (go 8),
        Move 0 (go 9)]"
  have q: "map_option (\<lambda>d. (queue (sched (nd d)), notify (sched (nd d)), map_option stPc (streams d 0)))
      (drun ?as demo_start) = Some ([0], False, Some PcGet)" by code_simp
  then obtain d where d: "drun ?as demo_start = Some d" "queue (sched (nd d)) = [0]" "\<not> notify (sched (nd d))"
      "map_option stPc (streams d 0) = Some PcGet" by auto
  have "reach service_start service_step d" using demo_reach d(1) by (rule drun_reach)
  from no_lost_wakeup [OF this] d show ?thesis by blast
qed



text \<open>A stream at its \<open>select\<close> with a signal, an allowing breaker and a queue: eight steps to the sent task.\<close>

lemma dispatch_sends:
  assumes h: "heap_ordered (pq_Less (heap (nd d))) (queue (sched (nd d)))"
    and st: "streams d i = Some st" "stPc st = PcSelect"
    and sig: "notify (sched (nd d))" "queue (sched (nd d)) \<noteq> []"
    and cb: "reg_Get (stWorker st) (regs (nd d)) = (cb, rs)" "fst (Allow (si_now x) (cells rs cb))"
    and x: "\<not> si_done x" "si_sendok x"
  shows "\<exists>d' p a. drun (replicate 8 (Move i x)) d = Some d' \<and>
    p \<in> set (queue (sched (nd d))) \<and> (\<forall>q \<in> set (queue (sched (nd d))). \<not> pq_Less (heap (nd d)) q p) \<and>
    sent d' = sent d @ [(i, a)] \<and> a = mk_assignment (si_now x) (heap (nd d') p) \<and> aTaskId a = tID (heap (nd d) p) \<and>
    gm_get (inFlight (sched (nd d'))) (aTaskId a) = Some p \<and>
    (tState (heap (nd d) p) = StateQueued \<longrightarrow> tState (heap (nd d') p) = StateRunning \<and>
       tWorkerID (heap (nd d') p) = stWorker st \<and> aAttempt a = tAttempt (heap (nd d) p) + 1)"
proof -
  let ?m = "heap (nd d)" and ?q = "queue (sched (nd d))"
  obtain p q where pop: "heap_Pop (pq_Less ?m) ?q = Some (p, q)" using sig(2) by (cases "heap_Pop (pq_Less ?m) ?q") auto
  have p: "p \<in> set ?q" "\<forall>y \<in> set ?q. \<not> pq_Less ?m y p"
    using heap_Pop_mset [OF pop] pq.hq.pop_least [OF h pop]
    by (metis set_mset_mset union_single_eq_member, metis set_mset_mset)
  obtain b where al: "Allow (si_now x) (cells rs cb) = (True, b)" using cb(2) by (metis prod.collapse)
  show ?thesis
    using p st sig x pop al cb(1)
    by (simp add: eval_nat_numeral goto_pc_def Let_def Dequeue_def Notify_def set_task_def mk_assignment_def
        task_Assign_eq task_Start_eq)
qed

text \<open>
  The loop makes progress. A stream waiting at the \<open>select\<close> of a worker whose breaker lets calls
  through, with a signal pending and the queue not empty, sends in its next eight steps a task that
  no queued task precedes; a queued task is then running, counted as one more attempt, and assigned
  to that worker.
\<close>

theorem dispatch_progress:
  assumes "reach service_start service_step d"
    and st: "streams d i = Some st" "stPc st = PcSelect"
    and sig: "notify (sched (nd d))" "queue (sched (nd d)) \<noteq> []"
    and cb: "reg_Get (stWorker st) (regs (nd d)) = (cb, rs)" "fst (Allow (si_now x) (cells rs cb))"
    and x: "\<not> si_done x" "si_sendok x"
  shows "\<exists>d' p a. drun (replicate 8 (Move i x)) d = Some d' \<and>
    p \<in> set (queue (sched (nd d))) \<and> (\<forall>q \<in> set (queue (sched (nd d))). \<not> pq_Less (heap (nd d)) q p) \<and>
    sent d' = sent d @ [(i, a)] \<and> aTaskId a = tID (heap (nd d) p) \<and>
    gm_get (inFlight (sched (nd d'))) (aTaskId a) = Some p \<and>
    (tState (heap (nd d) p) = StateQueued \<longrightarrow> tState (heap (nd d') p) = StateRunning \<and>
       tWorkerID (heap (nd d') p) = stWorker st \<and> aAttempt a = tAttempt (heap (nd d) p) + 1)"
proof -
  have "heap_ordered (pq_Less (heap (nd d))) (queue (sched (nd d)))"
    using service.reach_inv [OF assms(1)] by (simp add: service_inv_def core_inv_def sched_inv_def)
  from dispatch_sends [OF this st sig cb x] show ?thesis by blast
qed

theorem dispatch_progress_witness:
  "\<exists>d d'. drun [SubmitTask (New 5 ''a'' ''a.sh''), Open 0 ''w'' ''h'' 1, Move 0 (go 6), Move 0 (go 7), Move 0 (go 8)]
        demo_start = Some d \<and> drun (replicate 8 (Move 0 (go 9))) d = Some d' \<and>
      (\<exists>a. sent d' = [(0, a)] \<and> aTaskId a = ''a'' \<and> aAttempt a = 1)"
proof -
  let ?as = "[SubmitTask (New 5 ''a'' ''a.sh''), Open 0 ''w'' ''h'' 1, Move 0 (go 6), Move 0 (go 7), Move 0 (go 8)]"
  have q: "map_option (\<lambda>d. (queue (sched (nd d)), notify (sched (nd d)), streams d 0, breakers (regs (nd d)),
        regFailureThreshold (regs (nd d)), sent d, heap (nd d) 0))
      (drun ?as demo_start) = Some ([0], True, Some \<lparr>stWorker = ''w'', stHostname = ''h'', stStart = 1, stPc = PcSelect\<rparr>,
        [], 5, [], New 5 ''a'' ''a.sh'')" by code_simp
  then obtain d where d: "drun ?as demo_start = Some d" "queue (sched (nd d)) = [0]" "notify (sched (nd d))"
      "streams d 0 = Some \<lparr>stWorker = ''w'', stHostname = ''h'', stStart = 1, stPc = PcSelect\<rparr>"
      "breakers (regs (nd d)) = []" "sent d = []" "heap (nd d) 0 = New 5 ''a'' ''a.sh''" by auto
  have r: "reach service_start service_step d" using demo_reach d(1) by (rule drun_reach)
  obtain cb rs where cb: "reg_Get ''w'' (regs (nd d)) = (cb, rs)" by force
  have al: "fst (Allow (si_now (go 9)) (cells rs cb))"
    using cb d(5) by (auto simp: reg_Get_def Get_read_def Get_write_def Let_def Allow_def cb_New_def)
  obtain d' p a where d': "drun (replicate 8 (Move 0 (go 9))) d = Some d'" "p \<in> set (queue (sched (nd d)))"
      "sent d' = sent d @ [(0, a)]" "aTaskId a = tID (heap (nd d) p)"
      "tState (heap (nd d) p) = StateQueued \<longrightarrow> aAttempt a = tAttempt (heap (nd d) p) + 1"
    using dispatch_progress [OF r d(4) _ d(3) _ _ al] d(2) cb by (auto simp: go_def)
  have "p = 0" using d'(2) d(2) by simp
  with d d' show ?thesis by (intro exI [of _ d] exI [of _ d']) (simp add: New_def)
qed

text \<open>
  C25: one attempt of a task can be handed to two workers. \<open>WorkerID\<close> still names the worker of the
  previous attempt while a retried task waits between \<open>Dequeue\<close> and \<open>Assign\<close>; if that worker's stream
  is torn down just then, the task is requeued although another stream is about to send it.
\<close>

theorem stale_owner_double_dispatch:
  "\<exists>d a b. reach service_start service_step d \<and> (1, a) \<in> set (sent d) \<and> (2, b) \<in> set (sent d) \<and>
     aTaskId a = aTaskId b \<and> aAttempt a = aAttempt b"
proof -
  let ?rt = "\<lparr>rt_now = 30, rt_jitter = 0, rt_f2i = 0\<rparr>"
  let ?rep = "\<lparr>rTaskId = ''a'', rWorkerId = ''w0'', rState = TASK_FAILED, rOutput = [], rErrorMessage = ''x'',
    rStartedAt = None, rCompletedAt = None, rExitCode = 1\<rparr>"
  let ?env = "\<lparr>re_done = 30, re_rt = ?rt, re_breaker = 30, re_publish = 30\<rparr>"
  let ?quit = "\<lparr>si_now = 9000000000, si_done = True, si_sendok = True, si_order = [''a'']\<rparr>"
  let ?as = "[SubmitTask (New 5 ''a'' ''a.sh''), Open 0 ''w0'' ''h'' 1] @ replicate 12 (Move 0 (go 10)) @
    [Report ?env ?rep, Tick (RetryTick 8000000000), Open 1 ''w1'' ''h'' 2] @ replicate 7 (Move 1 (go 8000000000)) @
    [Drop 0] @ replicate 3 (Move 0 ?quit) @ replicate 5 (Move 1 (go 9000000001)) @
    [Open 2 ''w2'' ''h'' 3] @ replicate 12 (Move 2 (go 9000000002))"
  have "map_option (\<lambda>d. map (\<lambda>(i, a). (i, aTaskId a, aAttempt a)) (sent d)) (drun ?as demo_start) =
    Some [(0, ''a'', 1), (1, ''a'', 2), (2, ''a'', 2)]" by code_simp
  then obtain d where d: "drun ?as demo_start = Some d"
    "map (\<lambda>(i, a). (i, aTaskId a, aAttempt a)) (sent d) = [(0, ''a'', 1), (1, ''a'', 2), (2, ''a'', 2)]"
    by auto
  have "reach service_start service_step d" using demo_reach d(1) by (rule drun_reach)
  moreover obtain e0 e1 e2 where s: "sent d = [e0, e1, e2]"
    using d(2) by (auto simp: map_eq_Cons_conv)
  moreover obtain a b where e: "e1 = (1, a)" "e2 = (2, b)" "aTaskId a = aTaskId b" "aAttempt a = aAttempt b"
    using d(2) s by (cases e1; cases e2) auto
  ultimately show ?thesis by (intro exI [of _ d] exI [of _ a] exI [of _ b]) simp
qed

text \<open>
  C26: a failed send leaves the task both queued and in flight: it is re-enqueued without being taken
  out of the in-flight map, and the clean-up of the stream no longer recognises it as the worker's.
\<close>

theorem failed_send_duplicates:
  "\<exists>d p. reach service_start service_step d \<and> p \<in> set (queue (sched (nd d))) \<and>
     gm_get (inFlight (sched (nd d))) (tID (heap (nd d) p)) = Some p \<and>
     map_option stPc (streams d 0) = Some PcDone \<and> InFlight (Stats (sched (nd d))) = 1"
proof -
  let ?fail = "\<lparr>si_now = 10, si_done = False, si_sendok = False, si_order = [''a'']\<rparr>"
  let ?as = "[SubmitTask (New 5 ''a'' ''a.sh''), Open 0 ''w'' ''h'' 1] @ replicate 18 (Move 0 ?fail)"
  have "map_option (\<lambda>d. (queue (sched (nd d)), inFlight (sched (nd d)), map_option stPc (streams d 0), tID (heap (nd d) 0)))
    (drun ?as demo_start) = Some ([0], [(''a'', 0)], Some PcDone, ''a'')" by code_simp
  then obtain d where d: "drun ?as demo_start = Some d" "queue (sched (nd d)) = [0]" "inFlight (sched (nd d)) = [(''a'', 0)]"
    "map_option stPc (streams d 0) = Some PcDone" "tID (heap (nd d) 0) = ''a''" by auto
  have "reach service_start service_step d" using demo_reach d(1) by (rule drun_reach)
  with d show ?thesis by (intro exI [of _ d] exI [of _ 0]) (simp add: gm_get_def Stats_def)
qed

text \<open>
  A worker that reconnects before its old stream is cleaned up ends with a live stream that the
  service believes dead: the old stream's clean-up marks the worker \<open>DEAD\<close>, takes the new stream's
  cancel function out of the table, so that it can no longer be disconnected, and requeues the task
  that runs on the new stream.
\<close>

theorem reconnect_loses_registration:
  "\<exists>d w. reach service_start service_step d \<and> map_option stPc (streams d 1) = Some PcSelect \<and>
     \<not> cancelled (nd d) 1 \<and> gm_get (workers (nd d)) ''w'' = Some w \<and> wiState w = WORKER_DEAD \<and>
     fst (DisconnectWorker ''w'' (nd d)) = False \<and> map fst (sent d) = [1] \<and> queue (sched (nd d)) = [0]"
proof -
  let ?quit = "\<lparr>si_now = 20, si_done = True, si_sendok = True, si_order = [''a'']\<rparr>"
  let ?as = "[Open 0 ''w'' ''h'' 1] @ replicate 3 (Move 0 (go 2)) @ [Drop 0, Open 1 ''w'' ''h'' 3] @
    replicate 3 (Move 1 (go 4)) @ [SubmitTask (New 5 ''a'' ''a.sh'')] @ replicate 9 (Move 1 (go 6)) @
    replicate 6 (Move 0 ?quit)"
  have "map_option (\<lambda>d. (map_option stPc (streams d 1), cancelled (nd d) 1,
      map_option wiState (gm_get (workers (nd d)) ''w''), fst (DisconnectWorker ''w'' (nd d)), map fst (sent d),
      queue (sched (nd d)))) (drun ?as demo_start) =
    Some (Some PcSelect, False, Some WORKER_DEAD, False, [1], [0])" by code_simp
  then obtain d where d: "drun ?as demo_start = Some d" "map_option stPc (streams d 1) = Some PcSelect"
    "\<not> cancelled (nd d) 1" "map_option wiState (gm_get (workers (nd d)) ''w'') = Some WORKER_DEAD"
    "fst (DisconnectWorker ''w'' (nd d)) = False" "map fst (sent d) = [1]" "queue (sched (nd d)) = [0]" by auto
  have "reach service_start service_step d" using demo_reach d(1) by (rule drun_reach)
  with d show ?thesis by auto
qed

end
