(* ===== verification/Payload.thy ===== *)
theory Payload
  imports Dispatch
begin

text \<open>
  What a task is, as opposed to where it stands: its identifier, its script or content and how to run
  it. Nothing in the service changes that part after submission, so a worker executes what was
  submitted, on the first attempt and on every later one.
\<close>

section \<open>The unchanging part of a task\<close>

record payload =
  plID :: string
  plScript :: string
  plType :: task_type
  plContent :: string
  plLanguage :: string
  plEntrypoint :: string
  plTimeoutSec :: int64

definition payload_of :: "task \<Rightarrow> payload" where
  "payload_of t =
     \<lparr>plID = tID t, plScript = tScript t, plType = tType t, plContent = tContent t, plLanguage = tLanguage t,
      plEntrypoint = tEntrypoint t, plTimeoutSec = tTimeoutSec t\<rparr>"

definition assigned_payload :: "assignment \<Rightarrow> payload" where
  "assigned_payload a =
     \<lparr>plID = aTaskId a, plScript = aScript a, plType = aType a, plContent = aContent a, plLanguage = aLanguage a,
      plEntrypoint = aEntrypoint a, plTimeoutSec = aTimeoutSeconds a\<rparr>"

text \<open>Two stores agree on it at every cell.\<close>

definition same_payloads :: "tasks \<Rightarrow> tasks \<Rightarrow> bool" where
  "same_payloads m m' \<longleftrightarrow> (\<forall>p. payload_of (m' p) = payload_of (m p))"

lemma same_payloads_refl [simp]: "same_payloads m m"
  by (simp add: same_payloads_def)

lemma same_payloads_trans [trans]: "same_payloads m m1 \<Longrightarrow> same_payloads m1 m2 \<Longrightarrow> same_payloads m m2"
  by (simp add: same_payloads_def)

lemma same_payloads_upd: "payload_of t = payload_of (m p) \<Longrightarrow> same_payloads m (m(p := t))"
  by (simp add: same_payloads_def)

lemma payload_methods [simp]:
  "payload_of (ignore_err t (task_Assign now w t)) = payload_of t"
  "payload_of (ignore_err t (task_Start now t)) = payload_of t"
  "payload_of (ignore_err t (task_Complete now out code t)) = payload_of t"
  "payload_of (ignore_err t (task_Fail now msg code t)) = payload_of t"
  "payload_of (ignore_err t (task_ScheduleRetry rt t)) = payload_of t"
  "payload_of (ignore_err t (task_Requeue t)) = payload_of t"
  "payload_of (ignore_err t (task_RetryFromDLQ t)) = payload_of t"
  by (simp_all add: task_method_eqs payload_of_def)

lemma payload_fields [simp]:
  "payload_of (t\<lparr>tState := x, tWorkerID := w\<rparr>) = payload_of t"
  by (simp add: payload_of_def)

section \<open>The scheduler keeps it\<close>

text \<open>A loop keeps what each turn keeps.\<close>

lemma fold_keeps:
  assumes "\<And>x st. same_payloads (h st) (h (f x st))"
  shows "same_payloads (h st) (h (fold f xs st))"
  by (induction xs arbitrary: st) (auto intro: same_payloads_trans assms)

lemma retry_or_dead_payload: "same_payloads m (fst (retry_or_dead rt p (m, s)))"
  by (simp add: retry_or_dead_def Let_def same_payloads_upd)

lemma requeue_payload: "same_payloads m (fst (snd (RequeueFromWorker ks w (m, s))))"
proof -
  have "same_payloads (fst (snd st)) (fst (snd (requeue_body w x st)))" for x st
    by (cases st; cases x) (simp add: requeue_body_def Let_def same_payloads_upd)
  then have "same_payloads m (fst (snd (fold (requeue_body w) (gm_range ks (inFlight s)) (0, m, s))))"
    using fold_keeps [of "\<lambda>st. fst (snd st)" "requeue_body w" "(0, m, s)"] by simp
  then show ?thesis by (auto simp: RequeueFromWorker_def split: prod.splits)
qed

lemma retries_payload: "same_payloads m (fst (snd (ProcessRetries now (m, s))))"
proof -
  have "same_payloads (fst (snd (snd st))) (fst (snd (snd (retries_body now x st))))" for x st
    by (cases st) (simp add: retries_body_def Let_def same_payloads_upd)
  then have "same_payloads m (fst (snd (snd (fold (retries_body now) (retryQueue s) (0, [], m, s)))))"
    using fold_keeps [of "\<lambda>st. fst (snd (snd st))" "retries_body now" "(0, [], m, s)"] by simp
  then show ?thesis by (auto simp: ProcessRetries_def Let_def split: prod.splits)
qed

lemma timeouts_payload: "same_payloads m (fst (snd (CheckTimeouts now env ks (m, s))))"
proof -
  have "same_payloads (fst (snd st)) (fst (snd (timeouts_body env x st)))" for x st
    by (cases st) (auto simp: timeouts_body_def Let_def intro: same_payloads_trans [OF same_payloads_upd retry_or_dead_payload])
  then show ?thesis
    using fold_keeps [of "\<lambda>st. fst (snd st)" "timeouts_body env" "(0, m, s)"] by (simp add: CheckTimeouts_def Let_def)
qed

lemma dlq_payload: "same_payloads m (fst (snd (sched_RetryFromDLQ k (m, s))))"
proof -
  have "same_payloads m (fst (snd (dlq_loop k pre ps (m, s))))" for pre ps
    by (induction ps arbitrary: pre) (simp_all add: Let_def same_payloads_upd)
  then show ?thesis by (simp add: sched_RetryFromDLQ_def)
qed

lemma complete_payload: "same_payloads m (fst (snd (sched_Complete now k out code (m, s))))"
  by (simp add: sched_Complete_def same_payloads_upd split: option.split)

lemma fail_payload: "same_payloads m (fst (snd (sched_Fail now rt k msg code (m, s))))"
  by (auto simp: sched_Fail_def Let_def split: option.split
      intro: same_payloads_trans [OF same_payloads_upd retry_or_dead_payload])

lemmas sched_payloads = requeue_payload retries_payload timeouts_payload dlq_payload complete_payload fail_payload

section \<open>The service keeps it\<close>

lemma publishEvent_frame:
  assumes "publishEvent now ty data n = Some n'"
  shows "heap n' = heap n \<and> next_task n' = next_task n"
proof (cases "evbus n")
  case (Some b)
  then have "map_option (\<lambda>b. n\<lparr>evbus := Some b\<rparr>) (Publish now (map fst (subscribers b))
      \<lparr>evType = ty, evTimestamp = zero_time, evData = data\<rparr> b) = Some n'"
    using assms by (simp add: publishEvent_def)
  then obtain b' where "n' = n\<lparr>evbus := Some b'\<rparr>" by (metis (no_types, lifting) map_option_eq_Some)
  then show ?thesis by simp
qed (use assms in \<open>simp add: publishEvent_def\<close>)

text \<open>From \<open>d\<close> to \<open>d'\<close> no cell was taken back, and the tasks there were keep their payloads.\<close>

definition keeps_tasks :: "dsys \<Rightarrow> dsys \<Rightarrow> bool" where
  "keeps_tasks d d' \<longleftrightarrow> next_task (nd d) \<le> next_task (nd d') \<and>
     (\<forall>p < next_task (nd d). payload_of (heap (nd d') p) = payload_of (heap (nd d) p))"

lemma keeps_tasksI:
  "same_payloads (heap (nd d)) (heap (nd d')) \<Longrightarrow> next_task (nd d') = next_task (nd d) \<Longrightarrow> keeps_tasks d d'"
  by (simp add: keeps_tasks_def same_payloads_def)

lemma keeps_tasks_trans: "keeps_tasks d d1 \<Longrightarrow> keeps_tasks d1 d2 \<Longrightarrow> keeps_tasks d d2"
  by (auto simp: keeps_tasks_def)

lemma keeps_settle:
  assumes "\<And>n'. r = Some n' \<Longrightarrow> same_payloads (heap (nd d)) (heap n') \<and> next_task n' = next_task (nd d)"
  shows "keeps_tasks d (settle r d)"
proof (cases r)
  case (Some n')
  from assms [OF this] Some show ?thesis by (intro keeps_tasksI) (simp_all add: settle_def)
qed (simp add: settle_def keeps_tasks_def)

lemma keeps_settle_goto:
  "keeps_tasks d (settle r d) \<Longrightarrow> keeps_tasks d (goto_pc i st c (settle r d))"
  by (simp add: keeps_tasks_def goto_pc_def)

lemma publish_keeps:
  assumes "heap n = heap (nd d)" and "next_task n = next_task (nd d)"
  shows "keeps_tasks d (settle (publishEvent now ty data n) d)"
  by (rule keeps_settle) (auto dest!: publishEvent_frame simp: assms)

lemma stream_step_keeps:
  assumes "stream_step i x st c d = Some d'"
  shows "keeps_tasks d d'"
proof (cases c)
  case (PcRequeue)
  let ?n = "observe [WorkersConnectedDec] (nd d)"
  obtain k m s where r: "RequeueFromWorker (si_order x) (stWorker st) (heap ?n, sched ?n) = (k, m, s)" by (metis prod_cases3)
  then have "same_payloads (heap (nd d)) m"
    using requeue_payload [of "heap ?n" "si_order x" "stWorker st" "sched ?n"] by simp
  with assms r PcRequeue show ?thesis
    by (auto simp: Let_def goto_pc_def intro!: keeps_tasksI split: if_splits)
next
  case PcAnnounce
  with assms show ?thesis by (auto intro!: keeps_settle_goto publish_keeps)
next
  case (PcSent p)
  with assms show ?thesis by (auto intro!: keeps_settle_goto publish_keeps)
next
  case PcGoodbye
  with assms show ?thesis by (auto intro!: keeps_settle_goto publish_keeps)
qed (use assms in \<open>auto simp: Let_def goto_pc_def keeps_tasks_def set_task_def register_worker_def mark_dead_def
      split: if_splits prod.splits option.splits\<close>)

lemma report_frame:
  assumes "ReportTaskStatus env rep n = Some n'"
  shows "same_payloads (heap n) (heap n') \<and> next_task n' = next_task n"
proof -
  obtain cb rs where g: "reg_Get (rWorkerId rep) (regs n) = (cb, rs)" by fastforce
  let ?n = "n\<lparr>regs := rs\<rparr>"
  obtain n1 where r: "(if rState rep = TASK_COMPLETED then report_completed env rep cb ?n else report_failed env rep cb ?n) = Some n1"
    and n1: "heap n' = heap n1" "next_task n' = next_task n1"
    using assms by (auto simp: ReportTaskStatus_def g Let_def split: option.splits)
  show ?thesis
  proof (cases "rState rep = TASK_COMPLETED")
    case True
    obtain t m s where c: "sched_Complete (re_done env) (rTaskId rep) (rOutput rep) (rExitCode rep) (heap n, sched n) = (t, m, s)"
      by (metis prod_cases3)
    have "same_payloads (heap n) m" using complete_payload [of "heap n"] c by (metis fst_conv snd_conv)
    with r True c n1 show ?thesis by (auto simp: report_completed_def Let_def dest!: publishEvent_frame)
  next
    case False
    obtain t m s where c: "sched_Fail (re_done env) (re_rt env) (rTaskId rep) (rErrorMessage rep) (rExitCode rep) (heap n, sched n) = (t, m, s)"
      by (metis prod_cases3)
    have "same_payloads (heap n) m" using fail_payload [of "heap n"] c by (metis fst_conv snd_conv)
    with r False c n1 show ?thesis
      by (auto simp: report_failed_def Let_def dest!: publishEvent_frame split: option.splits if_splits)
  qed
qed

lemma health_frame:
  assumes "checkWorkerHealth now pub ks n = Some n'"
  shows "heap n' = heap n \<and> next_task n' = next_task n"
proof -
  let ?Q = "\<lambda>r. case r of None \<Rightarrow> True | Some n' \<Rightarrow> heap n' = heap n \<and> next_task n' = next_task n"
  have "?Q r \<Longrightarrow> ?Q (health_body now pub x r)" for x r
    by (cases x; cases r) (auto simp: health_body_def Let_def dest!: publishEvent_frame split: option.split)
  then have "?Q r \<Longrightarrow> ?Q (fold (health_body now pub) xs r)" for xs r
    by (induction xs arbitrary: r) simp_all
  then have "?Q (fold (health_body now pub) (gm_range ks (workers n)) (Some n))" by simp
  with assms show ?thesis unfolding checkWorkerHealth_def by simp
qed

lemma tick_frame:
  assumes "on_tick tk n = Some n'"
  shows "same_payloads (heap n) (heap n') \<and> next_task n' = next_task n"
proof (cases tk)
  case (HealthTick now pub ks)
  with assms health_frame [of now pub ks n n'] show ?thesis by simp
next
  case (RetryTick now)
  obtain k m s where "ProcessRetries now (heap n, sched n) = (k, m, s)" by (metis prod_cases3)
  with RetryTick assms retries_payload [of "heap n" now "sched n"] show ?thesis by auto
next
  case (TimeoutTick now env ks)
  obtain k m s where "CheckTimeouts now env ks (heap n, sched n) = (k, m, s)" by (metis prod_cases3)
  with TimeoutTick assms timeouts_payload [of "heap n" now env ks "sched n"] show ?thesis by auto
qed

lemma dstep_keeps:
  assumes "dstep a d = Some d'"
  shows "keeps_tasks d d'"
proof (cases a)
  case (Move i x)
  with assms show ?thesis by (auto split: option.splits intro: stream_step_keeps)
next
  case (SubmitTask t)
  with assms show ?thesis
    by (auto simp: keeps_tasks_def enqueue_new_def alloc_task_def enqueue_def Let_def split: if_splits)
next
  case (Report env rep)
  have "keeps_tasks d (settle (ReportTaskStatus env rep (nd d)) d)"
    by (rule keeps_settle) (rule report_frame)
  with Report assms show ?thesis by (auto simp: keeps_tasks_def)
next
  case (Tick tk)
  have "keeps_tasks d (settle (on_tick tk (nd d)) d)" by (rule keeps_settle) (rule tick_frame)
  with Tick assms show ?thesis by (auto split: if_splits)
next
  case (RetryDLQ k)
  obtain r m s where "sched_RetryFromDLQ k (heap (nd d), sched (nd d)) = (r, m, s)" by (metis prod_cases3)
  with RetryDLQ assms dlq_payload [of "heap (nd d)" k "sched (nd d)"] show ?thesis by (auto intro!: keeps_tasksI)
qed (use assms in \<open>auto simp: keeps_tasks_def split: if_splits\<close>)

lemma drun_keeps: "drun as d = Some d' \<Longrightarrow> keeps_tasks d d'"
proof (induction as arbitrary: d)
  case (Cons a as)
  then obtain d1 where "dstep a d = Some d1" "drun as d1 = Some d'" by (auto split: option.splits)
  then show ?case using Cons.IH keeps_tasks_trans dstep_keeps by blast
qed (simp add: keeps_tasks_def)

section \<open>What the workers are sent\<close>

definition sent_ok :: "dsys \<Rightarrow> bool" where
  "sent_ok d \<longleftrightarrow> (\<forall>(i, a) \<in> set (sent d). \<exists>p < next_task (nd d). assigned_payload a = payload_of (heap (nd d) p))"

lemma assigned_payload_mk [simp]: "assigned_payload (mk_assignment now t) = payload_of t"
  by (simp add: assigned_payload_def mk_assignment_def payload_of_def)

lemma sent_ok_keeps:
  assumes "sent_ok d" and "keeps_tasks d d'" and "sent d' = sent d"
  shows "sent_ok d'"
  unfolding sent_ok_def assms(3)
proof clarify
  fix i a assume "(i, a) \<in> set (sent d)"
  with assms(1) obtain p where "p < next_task (nd d)" "assigned_payload a = payload_of (heap (nd d) p)"
    by (auto simp: sent_ok_def)
  with assms(2) show "\<exists>p < next_task (nd d'). assigned_payload a = payload_of (heap (nd d') p)"
    by (auto simp: keeps_tasks_def intro!: exI [of _ p])
qed

lemma sent_settle [simp]: "sent (settle r d) = sent d"
  by (simp add: settle_def split: option.split)

lemma stream_step_sent:
  assumes "stream_step i x st c d = Some d'"
  shows "sent d' = sent d \<or>
    (\<exists>p. c = PcSend p \<and> sent d' = sent d @ [(i, mk_assignment (si_now x) (heap (nd d) p))] \<and> nd d' = nd d)"
  using assms by (cases c) (auto simp: goto_pc_def Let_def split: if_splits prod.splits option.splits)

lemma dstep_sent: "dstep a d = Some d' \<Longrightarrow> \<forall>i x. a \<noteq> Move i x \<Longrightarrow> sent d' = sent d"
  by (cases a) (auto split: if_splits prod.splits)

lemma dstep_sent_ok:
  assumes inv: "service_inv d" and ok: "sent_ok d" and step: "dstep a d = Some d'"
  shows "sent_ok d'"
proof (cases "\<exists>i x. a = Move i x")
  case True
  then obtain i x where "a = Move i x" by blast
  then obtain st where st: "streams d i = Some st" and s: "stream_step i x st (stPc st) d = Some d'"
    using step by (auto split: option.splits)
  from stream_step_sent [OF s] show ?thesis
  proof
    assume "\<exists>p. stPc st = PcSend p \<and> sent d' = sent d @ [(i, mk_assignment (si_now x) (heap (nd d) p))] \<and> nd d' = nd d"
    then obtain p where p: "stPc st = PcSend p" "sent d' = sent d @ [(i, mk_assignment (si_now x) (heap (nd d) p))]" "nd d' = nd d"
      by blast
    have "p < next_task (nd d)" using stream_task_bound [OF inv st] p(1) by simp
    with ok p show ?thesis by (auto simp: sent_ok_def)
  qed (use ok dstep_keeps [OF step] in \<open>blast intro: sent_ok_keeps\<close>)
next
  case False
  then show ?thesis using dstep_sent [OF step] by (intro sent_ok_keeps [OF ok dstep_keeps [OF step]]) simp
qed

interpretation carried: inv_system service_start service_step "\<lambda>d. service_inv d \<and> sent_ok d"
proof
  show "service_start d \<Longrightarrow> service_inv d \<and> sent_ok d" for d
    by (simp add: service.inv_init) (simp add: service_start_def sent_ok_def)
  show "service_inv d \<and> sent_ok d \<Longrightarrow> service_step d d' \<Longrightarrow> service_inv d' \<and> sent_ok d'" for d d'
    by (auto simp: service_step_def intro: dstep_inv dstep_sent_ok)
qed

text \<open>C10: Every assignment ever sent to a worker, on whichever attempt and through whichever stream, carries
  exactly the identifier, script, type, content, language, entrypoint and timeout of a submitted task,
  and no step of the service changes that part of any task.\<close>

theorem assignments_carry_payload:
  assumes "reach service_start service_step d"
  shows "(\<forall>(i, a) \<in> set (sent d). \<exists>p < next_task (nd d). assigned_payload a = payload_of (heap (nd d) p)) \<and>
    (\<forall>d'. service_step d d' \<longrightarrow> next_task (nd d) \<le> next_task (nd d') \<and>
       (\<forall>p < next_task (nd d). payload_of (heap (nd d') p) = payload_of (heap (nd d) p)))"
  using carried.reach_inv [OF assms] dstep_keeps
  by (auto simp: sent_ok_def service_step_def keeps_tasks_def)

theorem assignments_carry_payload_witness:
  "\<exists>d. drun ([SubmitTask (NewInline 5 ''a'' ''echo hi'' ''bash''), Open 0 ''w'' ''h'' 1, Move 0 (go 6), Move 0 (go 7), Move 0 (go 8)] @
        replicate 8 (Move 0 (go 9))) demo_start = Some d \<and>
      (\<exists>a. sent d = [(0, a)] \<and> assigned_payload a = payload_of (NewInline 5 ''a'' ''echo hi'' ''bash''))"
proof -
  let ?as = "[SubmitTask (NewInline 5 ''a'' ''echo hi'' ''bash''), Open 0 ''w'' ''h'' 1, Move 0 (go 6), Move 0 (go 7),
    Move 0 (go 8)] @ replicate 8 (Move 0 (go 9))"
  have q: "map_option (\<lambda>d. (map fst (sent d), next_task (nd d), payload_of (heap (nd d) 0))) (drun ?as demo_start) =
      Some ([0], 1, payload_of (NewInline 5 ''a'' ''echo hi'' ''bash''))" by code_simp
  then obtain d a where d: "drun ?as demo_start = Some d" "sent d = [(0, a)]" "next_task (nd d) = 1"
      "payload_of (heap (nd d) 0) = payload_of (NewInline 5 ''a'' ''echo hi'' ''bash'')" by (auto simp: map_eq_Cons_conv)
  have "\<exists>p < next_task (nd d). assigned_payload a = payload_of (heap (nd d) p)"
    using assignments_carry_payload [OF drun_reach [OF demo_reach d(1)]] d(2) by auto
  with d show ?thesis by auto
qed

end
