(* ===== verification/Results.thy ===== *)
theory Results
  imports Payload
begin

text \<open>
  What is recorded of a task's run, its output or its error, and which steps of the service record
  it: the reports of the workers, and the timeout check. Every other step keeps what is recorded or
  takes the task back to the queue.
\<close>

section \<open>The recorded result\<close>

text \<open>The result a task shows: its output when completed, its error when failed, waiting for a retry or dead.\<close>

definition result_of :: "task \<Rightarrow> (string + string) option" where
  "result_of t =
     (case tState t of
        StateCompleted \<Rightarrow> Some (Inr (tOutput t))
      | StateFailed \<Rightarrow> Some (Inl (tError t))
      | StateRetrying \<Rightarrow> Some (Inl (tError t))
      | StateDead \<Rightarrow> Some (Inl (tError t))
      | _ \<Rightarrow> None)"

definition timeout_result :: "string + string" where
  "timeout_result = Inl ''task execution timed out''"

text \<open>From \<open>m\<close> to \<open>m'\<close>, a result that is new at a cell is one that \<open>src\<close> gives for it.\<close>

definition results_from :: "(ref \<Rightarrow> string + string \<Rightarrow> bool) \<Rightarrow> tasks \<Rightarrow> tasks \<Rightarrow> bool" where
  "results_from src m m' \<longleftrightarrow> (\<forall>p v. result_of (m' p) = Some v \<longrightarrow> result_of (m p) = Some v \<or> src p v)"

lemma results_refl [simp]: "results_from src m m"
  by (simp add: results_from_def)

lemma results_trans: "results_from src m m1 \<Longrightarrow> results_from src m1 m2 \<Longrightarrow> results_from src m m2"
  unfolding results_from_def by blast

lemma results_upd:
  "(\<And>v. result_of t = Some v \<Longrightarrow> result_of (m p) = Some v \<or> src p v) \<Longrightarrow> results_from src m (m(p := t))"
  by (simp add: results_from_def)

lemma results_mono: "results_from src m m' \<Longrightarrow> (\<And>p v. src p v \<Longrightarrow> src' p v) \<Longrightarrow> results_from src' m m'"
  unfolding results_from_def by blast

text \<open>The methods that record nothing new, and the two that do.\<close>

lemma result_methods:
  "result_of (ignore_err t (task_Assign now w t)) = Some v \<Longrightarrow> result_of t = Some v"
  "result_of (ignore_err t (task_Start now t)) = Some v \<Longrightarrow> result_of t = Some v"
  "result_of (ignore_err t (task_ScheduleRetry rt t)) = Some v \<Longrightarrow> result_of t = Some v"
  "result_of (ignore_err t (task_Requeue t)) = Some v \<Longrightarrow> result_of t = Some v"
  "result_of (ignore_err t (task_RetryFromDLQ t)) = Some v \<Longrightarrow> result_of t = Some v"
  "result_of (t\<lparr>tState := StateQueued, tWorkerID := w\<rparr>) = Some v \<Longrightarrow> result_of t = Some v"
  by (auto simp: result_of_def task_method_eqs split: if_splits state.splits)

lemma result_Complete:
  "result_of (ignore_err t (task_Complete now out code t)) = Some v \<Longrightarrow> result_of t = Some v \<or> v = Inr out"
  by (auto simp: result_of_def task_method_eqs split: if_splits state.splits)

lemma result_Fail:
  "result_of (ignore_err t (task_Fail now msg code t)) = Some v \<Longrightarrow> result_of t = Some v \<or> v = Inl msg"
  by (auto simp: result_of_def task_method_eqs split: if_splits state.splits)

lemma quiet_updates:
  "results_from src m (m(p := ignore_err (m p) (task_Assign now w (m p))))"
  "results_from src m (m(p := ignore_err (m p) (task_Start now (m p))))"
  "results_from src m (m(p := ignore_err (m p) (task_ScheduleRetry rt (m p))))"
  "results_from src m (m(p := ignore_err (m p) (task_Requeue (m p))))"
  "results_from src m (m(p := ignore_err (m p) (task_RetryFromDLQ (m p))))"
  "results_from src m (m(p := (m p)\<lparr>tState := StateQueued, tWorkerID := v\<rparr>))"
  by (rule results_upd, drule result_methods, simp)+

section \<open>The scheduler\<close>

lemma fold_results:
  assumes "\<And>x st. results_from src (h st) (h (f x st))"
  shows "results_from src (h st) (h (fold f xs st))"
  by (induction xs arbitrary: st) (auto intro: results_trans assms)

lemma retry_or_dead_results: "results_from src m (fst (retry_or_dead rt p (m, s)))"
  by (auto simp: retry_or_dead_def Let_def simp: quiet_updates)

lemma requeue_results: "results_from src m (fst (snd (RequeueFromWorker ks w (m, s))))"
proof -
  have "results_from src (fst (snd st)) (fst (snd (requeue_body w x st)))" for x st
    by (cases st; cases x) (auto simp: requeue_body_def Let_def simp: quiet_updates)
  then have "results_from src m (fst (snd (fold (requeue_body w) (gm_range ks (inFlight s)) (0, m, s))))"
    using fold_results [of src "\<lambda>st. fst (snd st)" "requeue_body w" "(0, m, s)"] by simp
  then show ?thesis by (auto simp: RequeueFromWorker_def split: prod.splits)
qed

lemma retries_results: "results_from src m (fst (snd (ProcessRetries now (m, s))))"
proof -
  have "results_from src (fst (snd (snd st))) (fst (snd (snd (retries_body now x st))))" for x st
    by (cases st) (auto simp: retries_body_def Let_def simp: quiet_updates)
  then have "results_from src m (fst (snd (snd (fold (retries_body now) (retryQueue s) (0, [], m, s)))))"
    using fold_results [of src "\<lambda>st. fst (snd (snd st))" "retries_body now" "(0, [], m, s)"] by simp
  then show ?thesis by (auto simp: ProcessRetries_def Let_def split: prod.splits)
qed

lemma fail_results_upd:
  "(\<And>v. v = Inl msg \<Longrightarrow> src p v) \<Longrightarrow> results_from src m (m(p := ignore_err (m p) (task_Fail now msg code (m p))))"
  by (rule results_upd) (use result_Fail in blast)

lemma timeouts_results:
  assumes "\<And>p. src p timeout_result"
  shows "results_from src m (fst (snd (CheckTimeouts now env ks (m, s))))"
proof -
  have "results_from src (fst (snd st)) (fst (snd (timeouts_body env x st)))" for x st
    by (cases st) (auto simp: timeouts_body_def Let_def
        intro!: results_trans [OF fail_results_upd retry_or_dead_results] assms [unfolded timeout_result_def])
  then show ?thesis
    using fold_results [of src "\<lambda>st. fst (snd st)" "timeouts_body env" "(0, m, s)"] by (simp add: CheckTimeouts_def Let_def)
qed

lemma dlq_results: "results_from src m (fst (snd (sched_RetryFromDLQ k (m, s))))"
proof -
  have "results_from src m (fst (snd (dlq_loop k pre ps (m, s))))" for pre ps
    by (induction ps arbitrary: pre) (auto simp: Let_def simp: quiet_updates)
  then show ?thesis by (simp add: sched_RetryFromDLQ_def)
qed

lemma complete_results:
  assumes "\<And>p. gm_get (inFlight s) k = Some p \<Longrightarrow> src p (Inr out)"
  shows "results_from src m (fst (snd (sched_Complete now k out code (m, s))))"
proof (cases "gm_get (inFlight s) k")
  case (Some p)
  have "results_from src m (m(p := ignore_err (m p) (task_Complete now out code (m p))))"
    by (rule results_upd) (use assms [OF Some] result_Complete in blast)
  with Some show ?thesis by (simp add: sched_Complete_def)
qed (simp add: sched_Complete_def)

lemma fail_results:
  assumes "\<And>p. gm_get (inFlight s) k = Some p \<Longrightarrow> src p (Inl msg)"
  shows "results_from src m (fst (snd (sched_Fail now rt k msg code (m, s))))"
  using assms by (auto simp: sched_Fail_def Let_def split: option.split
      intro!: results_trans [OF fail_results_upd retry_or_dead_results])

section \<open>The service\<close>

text \<open>What a report gives the task it names.\<close>

definition reported_result :: "task_report \<Rightarrow> string + string" where
  "reported_result rep = (if rState rep = TASK_COMPLETED then Inr (rOutput rep) else Inl (rErrorMessage rep))"

definition result_source :: "dact \<Rightarrow> node \<Rightarrow> ref \<Rightarrow> string + string \<Rightarrow> bool" where
  "result_source a n p v \<longleftrightarrow>
     v = timeout_result \<or>
     (case a of Report env rep \<Rightarrow> gm_get (inFlight (sched n)) (rTaskId rep) = Some p \<and> v = reported_result rep | _ \<Rightarrow> False)"

lemma report_results:
  assumes "ReportTaskStatus env rep n = Some n'"
  shows "results_from (\<lambda>p v. gm_get (inFlight (sched n)) (rTaskId rep) = Some p \<and> v = reported_result rep) (heap n) (heap n')"
proof -
  let ?src = "\<lambda>p v. gm_get (inFlight (sched n)) (rTaskId rep) = Some p \<and> v = reported_result rep"
  obtain cb rs where g: "reg_Get (rWorkerId rep) (regs n) = (cb, rs)" by fastforce
  let ?n = "n\<lparr>regs := rs\<rparr>"
  obtain n1 where r: "(if rState rep = TASK_COMPLETED then report_completed env rep cb ?n else report_failed env rep cb ?n) = Some n1"
    and n1: "heap n' = heap n1"
    using assms by (auto simp: ReportTaskStatus_def g Let_def split: option.splits)
  show ?thesis
  proof (cases "rState rep = TASK_COMPLETED")
    case True
    obtain t m s where c: "sched_Complete (re_done env) (rTaskId rep) (rOutput rep) (rExitCode rep) (heap n, sched n) = (t, m, s)"
      by (metis prod_cases3)
    have "results_from ?src (heap n) m"
      using complete_results [of "sched n" "rTaskId rep" ?src "rOutput rep" "heap n"] c True
      by (metis fst_conv snd_conv reported_result_def)
    with r True c n1 show ?thesis by (auto simp: report_completed_def Let_def dest!: publishEvent_frame)
  next
    case False
    obtain t m s where c: "sched_Fail (re_done env) (re_rt env) (rTaskId rep) (rErrorMessage rep) (rExitCode rep) (heap n, sched n) = (t, m, s)"
      by (metis prod_cases3)
    have "results_from ?src (heap n) m"
      using fail_results [of "sched n" "rTaskId rep" ?src "rErrorMessage rep" "heap n"] c False
      by (metis fst_conv snd_conv reported_result_def)
    with r False c n1 show ?thesis
      by (auto simp: report_failed_def Let_def dest!: publishEvent_frame split: option.splits if_splits)
  qed
qed

lemma settle_results:
  "(\<And>n'. r = Some n' \<Longrightarrow> results_from src (heap (nd d)) (heap n')) \<Longrightarrow> results_from src (heap (nd d)) (heap (nd (settle r d)))"
  by (cases r) (simp_all add: settle_def)

lemma nd_goto_pc [simp]: "nd (goto_pc i st c d) = nd d"
  by (simp add: goto_pc_def)

lemma publish_results:
  "heap n = heap (nd d) \<Longrightarrow> results_from src (heap (nd d)) (heap (nd (settle (publishEvent now ty data n) d)))"
  by (rule settle_results) (auto dest!: publishEvent_frame)

lemma stream_step_results:
  assumes "stream_step i x st c d = Some d'"
  shows "results_from src (heap (nd d)) (heap (nd d'))"
proof (cases c)
  case (PcAssign p)
  with assms show ?thesis by (auto simp: set_task_def Let_def simp: quiet_updates)
next
  case (PcStart p)
  with assms show ?thesis by (auto simp: set_task_def Let_def simp: quiet_updates)
next
  case (PcUnsend p)
  with assms show ?thesis by (auto simp: set_task_def simp: quiet_updates)
next
  case PcRequeue
  let ?n = "observe [WorkersConnectedDec] (nd d)"
  obtain k m s where r: "RequeueFromWorker (si_order x) (stWorker st) (heap ?n, sched ?n) = (k, m, s)" by (metis prod_cases3)
  then have "results_from src (heap (nd d)) m"
    using requeue_results [of src "heap ?n" "si_order x" "stWorker st" "sched ?n"] by simp
  with assms r PcRequeue show ?thesis by (auto simp: Let_def split: if_splits)
next
  case PcAnnounce
  with assms show ?thesis by (auto intro!: publish_results)
next
  case (PcSent p)
  with assms show ?thesis by (auto intro!: publish_results)
next
  case PcGoodbye
  with assms show ?thesis by (auto intro!: publish_results)
qed (use assms in \<open>auto simp: Let_def register_worker_def mark_dead_def split: if_splits prod.splits option.splits\<close>)

lemma tick_results:
  assumes "on_tick tk n = Some n'" "\<And>p. src p timeout_result"
  shows "results_from src (heap n) (heap n')"
proof (cases tk)
  case (HealthTick now pub ks)
  with assms health_frame [of now pub ks n n'] show ?thesis by simp
next
  case (RetryTick now)
  obtain k m s where "ProcessRetries now (heap n, sched n) = (k, m, s)" by (metis prod_cases3)
  with RetryTick assms retries_results [of src "heap n" now "sched n"] show ?thesis by auto
next
  case (TimeoutTick now env ks)
  obtain k m s where "CheckTimeouts now env ks (heap n, sched n) = (k, m, s)" by (metis prod_cases3)
  with TimeoutTick assms timeouts_results [of src "heap n" now env ks "sched n"] show ?thesis by auto
qed

text \<open>A step of the service records only timeouts and what a report says; a submission queues its task.\<close>

lemma dstep_results:
  assumes "dstep a d = Some d'" "\<And>t. a = SubmitTask t \<Longrightarrow> result_of t = None"
  shows "results_from (result_source a (nd d)) (heap (nd d)) (heap (nd d'))"
proof (cases a)
  case (Move i x)
  with assms show ?thesis by (auto split: option.splits intro: stream_step_results)
next
  case (SubmitTask t)
  with assms show ?thesis
    by (auto simp: enqueue_new_def alloc_task_def enqueue_def Let_def intro!: results_upd split: if_splits)
next
  case (Report env rep)
  have "results_from (result_source a (nd d)) (heap (nd d)) (heap (nd (settle (ReportTaskStatus env rep (nd d)) d)))"
    by (rule settle_results) (auto simp: Report result_source_def intro: results_mono [OF report_results])
  with Report assms show ?thesis by auto
next
  case (Tick tk)
  have "results_from (result_source a (nd d)) (heap (nd d)) (heap (nd (settle (on_tick tk (nd d)) d)))"
    by (rule settle_results) (auto intro: tick_results simp: result_source_def)
  with Tick assms show ?thesis by (auto split: if_splits)
next
  case (RetryDLQ k)
  obtain r m s where "sched_RetryFromDLQ k (heap (nd d), sched (nd d)) = (r, m, s)" by (metis prod_cases3)
  with RetryDLQ assms dlq_results [of "result_source a (nd d)" "heap (nd d)" k "sched (nd d)"] show ?thesis by auto
qed (use assms in \<open>auto split: if_splits\<close>)

end
