(* ===== verification/GoBase64.thy ===== *)
theory GoBase64
  imports Prelude
begin

text \<open>
  \<open>base64.StdEncoding\<close> of the Go library, which carries archives from the upload handler of the master
  to the worker inside a text field: the standard alphabet, padding required, line breaks skipped.
\<close>

definition std_alphabet :: string where
  "std_alphabet = ''ABCDEFGHIJKLMNOPQRSTUVWXYZabcdefghijklmnopqrstuvwxyz0123456789+/''"

definition sextet_char :: "nat \<Rightarrow> char" where
  "sextet_char n = std_alphabet ! n"

definition char_sextet :: "char \<Rightarrow> nat option" where
  "char_sextet c = map_of (zip std_alphabet [0..<64]) c"

text \<open>The four sextets of three bytes, and back.\<close>

definition sextet1 :: "nat \<Rightarrow> nat" where "sextet1 x = x div 4"

definition sextet2 :: "nat \<Rightarrow> nat \<Rightarrow> nat" where "sextet2 x y = x mod 4 * 16 + y div 16"

definition sextet3 :: "nat \<Rightarrow> nat \<Rightarrow> nat" where "sextet3 y z = y mod 16 * 4 + z div 64"

definition sextet4 :: "nat \<Rightarrow> nat" where "sextet4 z = z mod 64"

definition sextets :: "nat \<Rightarrow> nat \<Rightarrow> nat \<Rightarrow> nat list" where
  "sextets x y z = [sextet1 x, sextet2 x y, sextet3 y z, sextet4 z]"

definition bytes_of :: "nat \<Rightarrow> nat \<Rightarrow> nat \<Rightarrow> nat \<Rightarrow> string" where
  "bytes_of p q r w =
     [char_of (p * 4 + q div 16), char_of (q mod 16 * 16 + r div 4), char_of (r mod 4 * 64 + w)]"

fun EncodeToString :: "string \<Rightarrow> string" where
  "EncodeToString [] = []"
| "EncodeToString [a] = map sextet_char (take 2 (sextets (of_char a) 0 0)) @ ''==''"
| "EncodeToString [a, b] = map sextet_char (take 3 (sextets (of_char a) (of_char b) 0)) @ ''=''"
| "EncodeToString (a # b # c # s) =
     map sextet_char (sextets (of_char a) (of_char b) (of_char c)) @ EncodeToString s"

text \<open>The quanta of a text without line breaks. Padding is allowed in the last quantum only.\<close>

fun decode_quanta :: "string \<Rightarrow> string option" where
  "decode_quanta [] = Some []"
| "decode_quanta (a # b # c # d # s) =
     (case (char_sextet a, char_sextet b) of
        (Some p, Some q) \<Rightarrow>
          if c = CHR ''='' then (if d = CHR ''='' \<and> s = [] then Some (take 1 (bytes_of p q 0 0)) else None)
          else (case char_sextet c of
            None \<Rightarrow> None
          | Some r \<Rightarrow>
              if d = CHR ''='' then (if s = [] then Some (take 2 (bytes_of p q r 0)) else None)
              else (case char_sextet d of
                None \<Rightarrow> None
              | Some w \<Rightarrow> map_option ((@) (bytes_of p q r w)) (decode_quanta s)))
      | _ \<Rightarrow> None)"
| "decode_quanta _ = None"

definition DecodeString :: "string \<Rightarrow> string option" where
  "DecodeString s = decode_quanta (filter (\<lambda>c. c \<noteq> CHR 0x0A \<and> c \<noteq> CHR 0x0D) s)"

section \<open>Decoding what was encoded\<close>

lemma alphabet_table:
  "n < 64 \<Longrightarrow> char_sextet (sextet_char n) = Some n \<and> sextet_char n \<notin> set ''='' \<and>
     sextet_char n \<noteq> CHR 0x0A \<and> sextet_char n \<noteq> CHR 0x0D"
proof -
  have "list_all (\<lambda>n. char_sextet (sextet_char n) = Some n \<and> sextet_char n \<notin> set ''='' \<and>
     sextet_char n \<noteq> CHR 0x0A \<and> sextet_char n \<noteq> CHR 0x0D) [0..<64]"
    by code_simp
  moreover assume "n < 64"
  ultimately show ?thesis by (simp add: list_all_iff del: upt_rec_numeral)
qed

lemma sextet_char_facts [simp]:
  assumes "n < 64"
  shows "char_sextet (sextet_char n) = Some n" "sextet_char n \<noteq> CHR ''=''"
    "sextet_char n \<noteq> CHR 0x0A" "sextet_char n \<noteq> CHR 0x0D"
  using alphabet_table [OF assms] by simp_all

lemma of_char_byte [simp]: "of_char c < (256 :: nat)"
proof -
  have "(of_char c :: nat) = of_char (char_of (of_char c :: nat))" by simp
  also have "\<dots> = of_char c mod 256" by (rule of_char_of)
  finally show ?thesis by (metis mod_less_divisor zero_less_numeral)
qed

lemma sextet_small [simp]:
  assumes "x < 256"
  shows "sextet1 x < 64" "y < 256 \<Longrightarrow> sextet2 x y < 64" "z < 256 \<Longrightarrow> sextet3 x z < 64"
  using assms by (auto simp: sextet1_def sextet2_def sextet3_def)

lemma sextet4_small [simp]: "sextet4 z < 64"
  by (simp add: sextet4_def)

lemma byte_sextet:
  assumes "y < 256" and "z < 256"
  shows "sextet1 x * 4 + sextet2 x y div 16 = x"
    "sextet2 x y mod 16 * 16 + sextet3 y z div 4 = y"
    "sextet3 y z mod 4 * 64 + sextet4 z = z"
proof -
  have "y div 16 < 16" "z div 64 < 4" using assms by auto
  then show "sextet1 x * 4 + sextet2 x y div 16 = x"
    "sextet2 x y mod 16 * 16 + sextet3 y z div 4 = y"
    "sextet3 y z mod 4 * 64 + sextet4 z = z"
    by (auto simp: sextet1_def sextet2_def sextet3_def sextet4_def)
qed

lemma bytes_of_sextets:
  "y < 256 \<Longrightarrow> z < 256 \<Longrightarrow> bytes_of (sextet1 x) (sextet2 x y) (sextet3 y z) (sextet4 z) = [char_of x, char_of y, char_of z]"
  by (simp add: bytes_of_def byte_sextet)

lemma bytes_of_padded:
  "take 1 (bytes_of (sextet1 x) (sextet2 x 0) 0 0) = [char_of x]"
  "y < 256 \<Longrightarrow> take 2 (bytes_of (sextet1 x) (sextet2 x y) (sextet3 y 0) 0) = [char_of x, char_of y]"
  using byte_sextet(1,2) [of y 0 x] byte_sextet(1) [of 0 0 x] by (simp_all add: bytes_of_def)

lemma no_breaks: "filter (\<lambda>c. c \<noteq> CHR 0x0A \<and> c \<noteq> CHR 0x0D) (EncodeToString s) = EncodeToString s"
  by (induction s rule: EncodeToString.induct) (simp_all add: sextets_def)

lemma decode_encode: "decode_quanta (EncodeToString s) = Some s"
  by (induction s rule: EncodeToString.induct)
    (simp_all add: sextets_def bytes_of_sextets bytes_of_padded [simplified])

lemma base64_roundtrip [simp]: "DecodeString (EncodeToString s) = Some s"
  by (simp add: DecodeString_def no_breaks decode_encode)

end
