(* ===== verification/Executor.thy ===== *)
theory Executor
  imports Dispatch GoBase64
begin

text \<open>
  The execution of one task by a worker, \<open>executeTask\<close> and the functions it dispatches to in
  \<open>src/internal/worker/worker.go\<close>. The operating system is outside the program: its calls are the fields
  of a record, each a function of the world that returns its result and the world after it. A
  deferred call runs on every path that leaves the function after it.
\<close>

section \<open>Errors and the operating system\<close>

text \<open>
  An error is what \<open>exec\<close> returns for a process that ended unsuccessfully, another error, or one that
  \<open>fmt.Errorf\<close> has wrapped behind a prefix; only the first is a \<open>*exec.ExitError\<close> to a type assertion.
\<close>

datatype go_error = ExitError int64 string | PlainError string | Wrapped string go_error

primrec Error :: "go_error \<Rightarrow> string" where
  "Error (ExitError code text) = text"
| "Error (PlainError text) = text"
| "Error (Wrapped prefix e) = prefix @ Error e"

record command =
  cmdName :: string
  cmdArgs :: "string list"
  cmdDir :: string

type_synonym exec_result = "string \<times> go_error option"

record 'w os =
  os_CreateTemp :: "string \<Rightarrow> 'w \<Rightarrow> (go_error + string) \<times> 'w"
  os_WriteString :: "string \<Rightarrow> string \<Rightarrow> 'w \<Rightarrow> go_error option \<times> 'w"
  os_Close :: "string \<Rightarrow> 'w \<Rightarrow> 'w"
  os_Chmod :: "string \<Rightarrow> nat \<Rightarrow> 'w \<Rightarrow> go_error option \<times> 'w"
  os_Remove :: "string \<Rightarrow> 'w \<Rightarrow> 'w"
  os_MkdirTemp :: "string \<Rightarrow> 'w \<Rightarrow> (go_error + string) \<times> 'w"
  os_RemoveAll :: "string \<Rightarrow> 'w \<Rightarrow> 'w"
  os_Join :: "string \<Rightarrow> string \<Rightarrow> string"
  os_WriteFile :: "string \<Rightarrow> string \<Rightarrow> nat \<Rightarrow> 'w \<Rightarrow> go_error option \<times> 'w"
  os_CombinedOutput :: "command \<Rightarrow> 'w \<Rightarrow> exec_result \<times> 'w"
  os_corrupt :: "string \<Rightarrow> string"

text \<open>\<open>exec.Command\<close> with the directory of the process left empty; \<open>os_corrupt\<close> is the text of the error
  \<open>DecodeString\<close> returns, which names an offset.\<close>

definition Command :: "string \<Rightarrow> string list \<Rightarrow> command" where
  "Command name args = \<lparr>cmdName = name, cmdArgs = args, cmdDir = []\<rparr>"

definition interpreters :: "(string, string) gomap" where
  "interpreters =
     [(''bash'', ''/bin/bash''), (''sh'', ''/bin/sh''), (''python'', ''python3''), (''node'', ''node'')]"

section \<open>The three modes\<close>

definition executeScriptPath :: "'w os \<Rightarrow> assignment \<Rightarrow> 'w \<Rightarrow> exec_result \<times> 'w" where
  "executeScriptPath os task w = os_CombinedOutput os (Command ''/bin/bash'' [aScript task]) w"

definition inline_ext :: "string \<Rightarrow> string" where
  "inline_ext lang = (if lang = ''python'' then ''.py'' else if lang = ''node'' then ''.js'' else ''.sh'')"

text \<open>What happens between the creation of the temporary file and its deferred removal.\<close>

definition run_inline :: "'w os \<Rightarrow> string \<Rightarrow> string \<Rightarrow> string \<Rightarrow> 'w \<Rightarrow> exec_result \<times> 'w" where
  "run_inline os interpreter tmpFile content w =
     (case os_WriteString os tmpFile content w of
        (Some err, w) \<Rightarrow> (([], Some (Wrapped ''write script: '' err)), os_Close os tmpFile w)
      | (None, w) \<Rightarrow>
          let w = os_Close os tmpFile w in
          case os_Chmod os tmpFile 493 w of
            (Some err, w) \<Rightarrow> (([], Some (Wrapped ''chmod temp file: '' err)), w)
          | (None, w) \<Rightarrow> os_CombinedOutput os (Command interpreter [tmpFile]) w)"

definition executeInline :: "'w os \<Rightarrow> assignment \<Rightarrow> 'w \<Rightarrow> exec_result \<times> 'w" where
  "executeInline os task w =
     (let lang = (if aLanguage task = [] then ''bash'' else aLanguage task) in
      case gm_get interpreters lang of
        None \<Rightarrow> (([], Some (PlainError
                  (''unsupported language: '' @ lang @ '' (supported: bash, python, node)''))), w)
      | Some interpreter \<Rightarrow>
          (case os_CreateTemp os (''mw-inline-*'' @ inline_ext lang) w of
             (Inl err, w) \<Rightarrow> (([], Some (Wrapped ''create temp file: '' err)), w)
           | (Inr tmpFile, w) \<Rightarrow>
               (case run_inline os interpreter tmpFile (aContent task) w of
                  (r, w) \<Rightarrow> (r, os_Remove os tmpFile w))))"

text \<open>What happens between the creation of the temporary directory and its deferred removal.\<close>

definition run_archive :: "'w os \<Rightarrow> assignment \<Rightarrow> string \<Rightarrow> string \<Rightarrow> 'w \<Rightarrow> exec_result \<times> 'w" where
  "run_archive os task archiveData tmpDir w =
     (let archivePath = os_Join os tmpDir ''archive.tar.gz'' in
      case os_WriteFile os archivePath archiveData 420 w of
        (Some err, w) \<Rightarrow> (([], Some (Wrapped ''write archive: '' err)), w)
      | (None, w) \<Rightarrow>
          (case os_CombinedOutput os (Command ''tar'' [''xzf'', archivePath, ''-C'', tmpDir]) w of
             ((extractOut, Some err), w) \<Rightarrow> ((extractOut, Some (Wrapped ''extract archive: '' err)), w)
           | ((_, None), w) \<Rightarrow>
               let entrypoint = (if aEntrypoint task = [] then ''./run.sh'' else aEntrypoint task);
                   lang = (if aLanguage task = [] then ''bash'' else aLanguage task);
                   interpreter = (case gm_get interpreters lang of None \<Rightarrow> ''/bin/bash'' | Some i \<Rightarrow> i)
               in os_CombinedOutput os ((Command interpreter [''-c'', entrypoint])\<lparr>cmdDir := tmpDir\<rparr>) w))"

definition executeArchive :: "'w os \<Rightarrow> assignment \<Rightarrow> 'w \<Rightarrow> exec_result \<times> 'w" where
  "executeArchive os task w =
     (case DecodeString (aContent task) of
        None \<Rightarrow> (([], Some (Wrapped ''decode base64 archive: '' (PlainError (os_corrupt os (aContent task))))), w)
      | Some archiveData \<Rightarrow>
          (case os_MkdirTemp os ''mw-archive-*'' w of
             (Inl err, w) \<Rightarrow> (([], Some (Wrapped ''create temp dir: '' err)), w)
           | (Inr tmpDir, w) \<Rightarrow>
               (case run_archive os task archiveData tmpDir w of
                  (r, w) \<Rightarrow> (r, os_RemoveAll os tmpDir w))))"

section \<open>The report\<close>

definition execute :: "'w os \<Rightarrow> assignment \<Rightarrow> 'w \<Rightarrow> exec_result \<times> 'w" where
  "execute os task w =
     (case aType task of
        TaskTypeInline \<Rightarrow> executeInline os task w
      | TaskTypeArchive \<Rightarrow> executeArchive os task w
      | _ \<Rightarrow> executeScriptPath os task w)"

definition exit_code :: "go_error \<Rightarrow> int32" where
  "exit_code e = (case e of ExitError code _ \<Rightarrow> scast code | _ \<Rightarrow> - 1)"

definition mk_report :: "string \<Rightarrow> assignment \<Rightarrow> time \<Rightarrow> time \<Rightarrow> exec_result \<Rightarrow> task_report" where
  "mk_report workerID task startedAt completedAt r =
     (let report = \<lparr>rTaskId = aTaskId task, rWorkerId = workerID, rState = TASK_UNKNOWN, rOutput = fst r,
            rErrorMessage = [], rStartedAt = Some startedAt, rCompletedAt = Some completedAt, rExitCode = 0\<rparr>
      in case snd r of
           Some execErr \<Rightarrow>
             report\<lparr>rState := TASK_FAILED, rErrorMessage := Error execErr, rExitCode := exit_code execErr\<rparr>
         | None \<Rightarrow> report\<lparr>rState := TASK_COMPLETED, rExitCode := 0\<rparr>)"

text \<open>\<open>executeTask\<close> up to the report it sends; an error of the call that sends it is logged only.\<close>

definition executeTask :: "'w os \<Rightarrow> string \<Rightarrow> time \<Rightarrow> time \<Rightarrow> assignment \<Rightarrow> 'w \<Rightarrow> task_report \<times> 'w" where
  "executeTask os workerID startedAt completedAt task w =
     (case execute os task w of (r, w) \<Rightarrow> (mk_report workerID task startedAt completedAt r, w))"

section \<open>Files\<close>

text \<open>
  What the inline mode relies on of the operating system, over a view of the files of a world: a new
  temporary file is empty and was not there before, a successful write appends the text, closing and
  changing the mode leave contents alone, and removal removes. A process may do anything to files.
\<close>

definition os_files_ok :: "'w os \<Rightarrow> ('w \<Rightarrow> string \<Rightarrow> string option) \<Rightarrow> bool" where
  "os_files_ok os files \<longleftrightarrow>
     (\<forall>pat w f w'. os_CreateTemp os pat w = (Inr f, w') \<longrightarrow> files w f = None \<and> files w' f = Some []) \<and>
     (\<forall>f s w w' old. os_WriteString os f s w = (None, w') \<longrightarrow> files w f = Some old \<longrightarrow> files w' f = Some (old @ s)) \<and>
     (\<forall>f w. files (os_Close os f w) = files w) \<and>
     (\<forall>f mode w r w'. os_Chmod os f mode w = (r, w') \<longrightarrow> files w' = files w) \<and>
     (\<forall>f w. files (os_Remove os f w) f = None)"

text \<open>A small operating system for the examples: a world is its files, a process prints the file it is
  given and succeeds unless that says otherwise.\<close>

definition mem_os :: "(string \<rightharpoonup> string) os" where
  "mem_os =
     \<lparr>os_CreateTemp = (\<lambda>pat w. let f = ''/tmp/'' @ pat in if w f = None then (Inr f, w(f \<mapsto> [])) else (Inl (PlainError ''exists''), w)),
      os_WriteString = (\<lambda>f s w. case w f of None \<Rightarrow> (Some (PlainError ''no file''), w) | Some old \<Rightarrow> (None, w(f \<mapsto> old @ s))),
      os_Close = (\<lambda>_ w. w), os_Chmod = (\<lambda>_ _ w. (None, w)), os_Remove = (\<lambda>f w. w(f := None)),
      os_MkdirTemp = (\<lambda>pat w. (Inr (''/tmp/'' @ pat), w)), os_RemoveAll = (\<lambda>_ w. w),
      os_Join = (\<lambda>d f. d @ ''/'' @ f),
      os_WriteFile = (\<lambda>f s _ w. (None, w(f \<mapsto> s))),
      os_CombinedOutput = (\<lambda>c w. case cmdArgs c of
         [f] \<Rightarrow> (case w f of
            Some text \<Rightarrow> ((text, if text = ''exit 3'' then Some (ExitError 3 ''exit status 3'') else None), w)
          | None \<Rightarrow> (([], Some (PlainError ''no such file'')), w))
       | _ \<Rightarrow> (([], None), w)),
      os_corrupt = (\<lambda>_. ''illegal base64 data'')\<rparr>"

definition sample_task :: "task_type \<Rightarrow> string \<Rightarrow> string \<Rightarrow> assignment" where
  "sample_task ty lang content =
     mk_assignment 9 ((New 0 ''t1'' ''/a.sh'')\<lparr>tType := ty, tLanguage := lang, tContent := content\<rparr>)"

lemma run_inline_cases:
  assumes os: "os_files_ok os files" and f: "files w f = Some []"
    and run: "run_inline os interp f content w = (r, w')"
  shows "(\<exists>w1. files w1 f = Some content \<and> r = fst (os_CombinedOutput os (Command interp [f]) w1)) \<or>
    (\<exists>e pre. pre \<in> {''write script: '', ''chmod temp file: ''} \<and> r = ([], Some (Wrapped pre e)))"
proof -
  obtain e1 w1 where 1: "os_WriteString os f content w = (e1, w1)" by fastforce
  obtain e2 w2 where 2: "os_Chmod os f 493 (os_Close os f w1) = (e2, w2)" by fastforce
  show ?thesis
  proof (cases e1)
    case None
    with os f 1 2 have w2: "files w2 f = Some content" unfolding os_files_ok_def by fastforce
    show ?thesis
    proof (cases e2)
      case None
      with \<open>e1 = None\<close> 1 2 run have "r = fst (os_CombinedOutput os (Command interp [f]) w2)"
        by (simp add: run_inline_def Let_def)
      with w2 show ?thesis by blast
    qed (use 1 2 run None in \<open>auto simp: run_inline_def Let_def\<close>)
  qed (use 1 run in \<open>auto simp: run_inline_def\<close>)
qed


text \<open>The archive a worker unpacks is the one that was encoded.\<close>

lemma execute_archive:
  assumes "aType a = TaskTypeArchive" and "aContent a = EncodeToString data"
  shows "execute os a w = (case os_MkdirTemp os ''mw-archive-*'' w of
      (Inl err, w) \<Rightarrow> (([], Some (Wrapped ''create temp dir: '' err)), w)
    | (Inr tmpDir, w) \<Rightarrow> (case run_archive os a data tmpDir w of (r, w) \<Rightarrow> (r, os_RemoveAll os tmpDir w)))"
  using assms by (simp add: execute_def executeArchive_def)

lemma mem_os_ok: "os_files_ok mem_os id"
  by (auto simp: os_files_ok_def mem_os_def Let_def split: if_splits option.splits)


end
