(* ===== verification/WorkerLoop.thy ===== *)
theory WorkerLoop
  imports Executor
begin

text \<open>
  The worker process, \<open>Start\<close> of \<open>src/internal/worker/worker.go\<close>: the receiving goroutine, the select loop,
  the counting semaphore, one goroutine per task, the heartbeat loop and the two ways out. Every
  goroutine has a program counter that moves from one shared access to the next; \<open>wstep\<close> is executable,
  the runtime's and the environment's choices are in the action. The process ends with \<open>Start\<close>.
\<close>

section \<open>State\<close>

text \<open>What \<open>stream.Recv\<close> fails with, and how \<open>Start\<close> returns: after the shutdown branch, because the master
  closed the stream, or with an error; a panic in any goroutine ends the process too.\<close>

datatype stream_err = EOF | StreamErr string

datatype outcome = Shutdown | StreamClosed | StreamFailed string | Panicked

datatype main_pc =
    MainSelect | MainAcquire assignment | MainAdd assignment | MainCount assignment | MainGo assignment
  | MainWait "assignment option" | MainReturn outcome

text \<open>A task's goroutine: the execution, then its deferred calls, last one first.\<close>

datatype job_pc = JobRun | JobRelease | JobUncount | JobDone | JobExit

datatype recv_pc = RecvCall | RecvHand assignment | RecvPut stream_err | RecvExit

text \<open>
  \<open>wSem\<close> is the number of elements in the channel \<open>sem\<close>, \<open>wCap\<close> its capacity. Three fields only observe: the
  assignments received, the reports sent, the heartbeats sent.
\<close>

record worker =
  wID :: string
  wCap :: nat
  wSem :: nat
  wActive :: int32
  wGroup :: nat
  wCtxDone :: bool
  wErrChan :: "stream_err option"
  wMain :: main_pc
  wRecv :: recv_pc
  wJobs :: "(assignment \<times> job_pc) list"
  wGot :: "assignment list"
  wReports :: "task_report list"
  wBeats :: "heartbeat list"

text \<open>\<open>NewWorker\<close>, given the host name, the process number and the configured limit.\<close>

definition maxConcurrent :: "int64 \<Rightarrow> int64" where
  "maxConcurrent n = (if n \<le>s 0 then 16 else n)"

definition NewWorker :: "string \<Rightarrow> int \<Rightarrow> int64 \<Rightarrow> worker" where
  "NewWorker hostname pid limit =
     \<lparr>wID = ''worker-'' @ hostname @ ''-'' @ fmt_int pid, wCap = nat (sint (maxConcurrent limit)), wSem = 0,
      wActive = 0, wGroup = 0, wCtxDone = False, wErrChan = None, wMain = MainSelect, wRecv = RecvCall,
      wJobs = [], wGot = [], wReports = [], wBeats = []\<rparr>"

section \<open>Steps\<close>

text \<open>
  The choices: a signal arrives; \<open>Recv\<close> returns; the ready branch a \<open>select\<close> takes; a goroutine moves, its
  execution with the result and clock readings it has; the ticker fires.
\<close>

datatype select_branch = OnDone | OnError | OnTask

datatype wact =
    Signal
  | Receive "stream_err + assignment" | PutError
  | Select select_branch
  | Acquire bool
  | Proceed
  | Job nat time time exec_result
  | HeartbeatTick

text \<open>The receiving goroutine. The channel of errors has room for the one error it ever sends.\<close>

fun recv_step :: "stream_err + assignment \<Rightarrow> worker \<Rightarrow> worker option" where
  "recv_step r w =
     (case wRecv w of
        RecvCall \<Rightarrow>
          (case r of
             Inl e \<Rightarrow> Some (w\<lparr>wRecv := RecvPut e\<rparr>)
           | Inr a \<Rightarrow> Some (w\<lparr>wRecv := RecvHand a, wGot := wGot w @ [a]\<rparr>))
      | _ \<Rightarrow> None)"

definition put_error :: "worker \<Rightarrow> worker option" where
  "put_error w =
     (case (wRecv w, wErrChan w) of
        (RecvPut e, None) \<Rightarrow> Some (w\<lparr>wErrChan := Some e, wRecv := RecvExit\<rparr>)
      | _ \<Rightarrow> None)"

text \<open>The outer \<open>select\<close>; receiving from the unbuffered \<open>taskChan\<close> takes the sender along.\<close>

fun select_step :: "select_branch \<Rightarrow> worker \<Rightarrow> worker option" where
  "select_step OnDone w = (if wCtxDone w then Some (w\<lparr>wMain := MainWait None\<rparr>) else None)"
| "select_step OnError w =
     (case wErrChan w of
        None \<Rightarrow> None
      | Some EOF \<Rightarrow> Some (w\<lparr>wErrChan := None, wMain := MainReturn StreamClosed\<rparr>)
      | Some (StreamErr text) \<Rightarrow>
          Some (w\<lparr>wErrChan := None, wMain := MainReturn (StreamFailed (''task stream error: '' @ text))\<rparr>))"
| "select_step OnTask w =
     (case wRecv w of
        RecvHand a \<Rightarrow> Some (w\<lparr>wRecv := RecvCall, wMain := MainAcquire a\<rparr>)
      | _ \<Rightarrow> None)"

text \<open>The inner \<open>select\<close>: a free slot, or the signal.\<close>

definition acquire_step :: "bool \<Rightarrow> assignment \<Rightarrow> worker \<Rightarrow> worker option" where
  "acquire_step slot a w =
     (if slot then (if wSem w < wCap w then Some (w\<lparr>wSem := wSem w + 1, wMain := MainAdd a\<rparr>) else None)
      else (if wCtxDone w then Some (w\<lparr>wMain := MainWait (Some a)\<rparr>) else None))"

text \<open>The main goroutine where it has no choice; \<open>wg.Wait\<close> blocks while the group is not empty.\<close>

definition proceed_step :: "worker \<Rightarrow> worker option" where
  "proceed_step w =
     (case wMain w of
        MainAdd a \<Rightarrow> Some (w\<lparr>wGroup := wGroup w + 1, wMain := MainCount a\<rparr>)
      | MainCount a \<Rightarrow> Some (w\<lparr>wActive := wActive w + 1, wMain := MainGo a\<rparr>)
      | MainGo a \<Rightarrow> Some (w\<lparr>wJobs := wJobs w @ [(a, JobRun)], wMain := MainSelect\<rparr>)
      | MainWait _ \<Rightarrow> if wGroup w = 0 then Some (w\<lparr>wMain := MainReturn Shutdown\<rparr>) else None
      | _ \<Rightarrow> None)"

text \<open>A task's goroutine. Receiving from the empty semaphore would block, leaving the empty group panics.\<close>

definition job_step :: "nat \<Rightarrow> time \<Rightarrow> time \<Rightarrow> exec_result \<Rightarrow> worker \<Rightarrow> worker option" where
  "job_step i startedAt completedAt r w =
     (if i < length (wJobs w) then
        case wJobs w ! i of
          (a, JobRun) \<Rightarrow> Some (w\<lparr>wJobs := (wJobs w)[i := (a, JobRelease)],
                             wReports := wReports w @ [mk_report (wID w) a startedAt completedAt r]\<rparr>)
        | (a, JobRelease) \<Rightarrow>
            if 0 < wSem w then Some (w\<lparr>wJobs := (wJobs w)[i := (a, JobUncount)], wSem := wSem w - 1\<rparr>) else None
        | (a, JobUncount) \<Rightarrow> Some (w\<lparr>wJobs := (wJobs w)[i := (a, JobDone)], wActive := wActive w - 1\<rparr>)
        | (a, JobDone) \<Rightarrow>
            if 0 < wGroup w then Some (w\<lparr>wJobs := (wJobs w)[i := (a, JobExit)], wGroup := wGroup w - 1\<rparr>)
            else Some (w\<lparr>wMain := MainReturn Panicked\<rparr>)
        | (a, JobExit) \<Rightarrow> None
      else None)"

text \<open>One turn of the heartbeat loop.\<close>

definition beat_step :: "worker \<Rightarrow> worker option" where
  "beat_step w =
     (if wCtxDone w then None
      else Some (w\<lparr>wBeats := wBeats w @ [\<lparr>hbWorkerId = wID w, hbActiveTasks = wActive w\<rparr>]\<rparr>))"

fun wstep :: "wact \<Rightarrow> worker \<Rightarrow> worker option" where
  "wstep act w =
     (case wMain w of
        MainReturn _ \<Rightarrow> None
      | _ \<Rightarrow>
        (case act of
           Signal \<Rightarrow> Some (w\<lparr>wCtxDone := True\<rparr>)
         | Receive r \<Rightarrow> recv_step r w
         | PutError \<Rightarrow> put_error w
         | Select b \<Rightarrow> (case wMain w of MainSelect \<Rightarrow> select_step b w | _ \<Rightarrow> None)
         | Acquire slot \<Rightarrow> (case wMain w of MainAcquire a \<Rightarrow> acquire_step slot a w | _ \<Rightarrow> None)
         | Proceed \<Rightarrow> proceed_step w
         | Job i s c r \<Rightarrow> job_step i s c r w
         | HeartbeatTick \<Rightarrow> beat_step w))"

fun wrun :: "wact list \<Rightarrow> worker \<Rightarrow> worker option" where
  "wrun [] w = Some w"
| "wrun (a # as) w = (case wstep a w of None \<Rightarrow> None | Some w \<Rightarrow> wrun as w)"

definition worker_step :: "worker \<Rightarrow> worker \<Rightarrow> bool" where
  "worker_step w w' \<longleftrightarrow> (\<exists>a. wstep a w = Some w')"

definition worker_start :: "worker \<Rightarrow> bool" where
  "worker_start w \<longleftrightarrow> (\<exists>hostname pid limit. w = NewWorker hostname pid limit)"

section \<open>What the counters count\<close>

fun holds_slot :: "job_pc \<Rightarrow> bool" where
  "holds_slot pc \<longleftrightarrow> pc = JobRun \<or> pc = JobRelease"

fun is_counted :: "job_pc \<Rightarrow> bool" where
  "is_counted pc \<longleftrightarrow> holds_slot pc \<or> pc = JobUncount"

fun in_group :: "job_pc \<Rightarrow> bool" where
  "in_group pc \<longleftrightarrow> is_counted pc \<or> pc = JobDone"

definition jobs_at :: "(job_pc \<Rightarrow> bool) \<Rightarrow> worker \<Rightarrow> nat" where
  "jobs_at P w = size {#j \<in># mset (wJobs w). P (snd j)#}"

text \<open>What the main goroutine has taken for a task it has not started yet, and the task it holds.\<close>

fun main_slots :: "main_pc \<Rightarrow> nat" where
  "main_slots (MainAdd a) = 1"
| "main_slots (MainCount a) = 1"
| "main_slots (MainGo a) = 1"
| "main_slots _ = 0"

fun main_group :: "main_pc \<Rightarrow> nat" where
  "main_group (MainCount a) = 1"
| "main_group (MainGo a) = 1"
| "main_group _ = 0"

fun main_active :: "main_pc \<Rightarrow> nat" where
  "main_active (MainGo a) = 1"
| "main_active _ = 0"

fun main_holds :: "main_pc \<Rightarrow> assignment multiset" where
  "main_holds (MainAcquire a) = {#a#}"
| "main_holds (MainAdd a) = {#a#}"
| "main_holds (MainCount a) = {#a#}"
| "main_holds (MainGo a) = {#a#}"
| "main_holds (MainWait (Some a)) = {#a#}"
| "main_holds _ = {#}"

fun recv_holds :: "recv_pc \<Rightarrow> assignment multiset" where
  "recv_holds (RecvHand a) = {#a#}"
| "recv_holds _ = {#}"

definition ctx_ok :: "worker \<Rightarrow> bool" where
  "ctx_ok w \<longleftrightarrow>
     (case wMain w of
        MainWait _ \<Rightarrow> wCtxDone w
      | MainReturn out \<Rightarrow> out \<noteq> Panicked \<and> (out = Shutdown \<longrightarrow> wCtxDone w \<and> wGroup w = 0)
      | _ \<Rightarrow> True)"

definition chan_ok :: "worker \<Rightarrow> bool" where
  "chan_ok w \<longleftrightarrow> (wErrChan w \<noteq> None \<longrightarrow> wRecv w = RecvExit)"

definition reports_ok :: "worker \<Rightarrow> bool" where
  "reports_ok w \<longleftrightarrow>
     mset (map rTaskId (wReports w)) = image_mset (aTaskId \<circ> fst) {#j \<in># mset (wJobs w). snd j \<noteq> JobRun#} \<and>
     (\<forall>rep \<in> set (wReports w). rWorkerId rep = wID w)"

definition counters_ok :: "worker \<Rightarrow> bool" where
  "counters_ok w \<longleftrightarrow>
     0 < wCap w \<and> wSem w = jobs_at holds_slot w + main_slots (wMain w) \<and> wSem w \<le> wCap w \<and>
     wActive w = of_nat (jobs_at is_counted w + main_active (wMain w)) \<and>
     wGroup w = jobs_at in_group w + main_group (wMain w)"

definition got_ok :: "worker \<Rightarrow> bool" where
  "got_ok w \<longleftrightarrow> (\<forall>out. wMain w \<noteq> MainReturn out) \<longrightarrow>
     mset (wGot w) = image_mset fst (mset (wJobs w)) + recv_holds (wRecv w) + main_holds (wMain w)"

text \<open>The steps the goroutines have left before the group is empty, and the return itself.\<close>

fun steps_left :: "job_pc \<Rightarrow> nat" where
  "steps_left JobRun = 4"
| "steps_left JobRelease = 3"
| "steps_left JobUncount = 2"
| "steps_left JobDone = 1"
| "steps_left JobExit = 0"

definition shutdown_work :: "worker \<Rightarrow> nat" where
  "shutdown_work w = (\<Sum>j \<in># mset (wJobs w). steps_left (snd j)) +
     (case wMain w of MainReturn _ \<Rightarrow> 0 | _ \<Rightarrow> 1)"

fun environment :: "wact \<Rightarrow> bool" where
  "environment Signal = True"
| "environment (Receive r) = True"
| "environment PutError = True"
| "environment _ = False"

definition worker_inv :: "worker \<Rightarrow> bool" where
  "worker_inv w \<longleftrightarrow> counters_ok w \<and> got_ok w \<and> reports_ok w \<and> ctx_ok w \<and> chan_ok w"

lemmas worker_inv_defs = worker_inv_def counters_ok_def got_ok_def reports_ok_def ctx_ok_def chan_ok_def jobs_at_def

text \<open>Replacing one element of a list, on its multiset.\<close>

lemma mset_update_obtain:
  assumes "i < length xs"
  obtains M where "mset xs = add_mset (xs ! i) M" "\<And>y. mset (xs[i := y]) = add_mset y M"
  by (rule that [of "mset xs - {#xs ! i#}"]) (use assms in \<open>simp_all add: mset_update\<close>)

lemma counters_job_step:
  assumes "counters_ok w" and i: "i < length (wJobs w)" and step: "job_step i s c r w = Some w'"
  shows "counters_ok w' \<and> wMain w' = wMain w"
proof -
  obtain a pc where j: "wJobs w ! i = (a, pc)" by fastforce
  obtain M where M: "mset (wJobs w) = add_mset (a, pc) M" "\<And>y. mset ((wJobs w)[i := y]) = add_mset y M"
    using mset_update_obtain [OF i] j by metis
  show ?thesis using assms
    by (cases pc) (auto simp: job_step_def j counters_ok_def jobs_at_def M split: if_splits)
qed

lemma NewWorker_inv: "worker_inv (NewWorker hostname pid limit)"
  by (simp add: worker_inv_defs NewWorker_def maxConcurrent_def word_sle_eq)

lemma job_step_frame:
  assumes i: "i < length (wJobs w)" and step: "job_step i s c r w = Some w'" and "wMain w' = wMain w"
  shows "image_mset fst (mset (wJobs w')) = image_mset fst (mset (wJobs w)) \<and> wGot w' = wGot w \<and>
    wRecv w' = wRecv w \<and> wErrChan w' = wErrChan w \<and> wCtxDone w' = wCtxDone w \<and> wID w' = wID w \<and> wCap w' = wCap w \<and>
    wGroup w' \<le> wGroup w"
proof -
  obtain a pc where j: "wJobs w ! i = (a, pc)" by fastforce
  obtain M where M: "mset (wJobs w) = add_mset (a, pc) M" "\<And>y. mset ((wJobs w)[i := y]) = add_mset y M"
    using mset_update_obtain [OF i] j by metis
  show ?thesis using assms by (cases pc) (auto simp: job_step_def j M split: if_splits)
qed

lemma reports_job_step:
  assumes "reports_ok w" and i: "i < length (wJobs w)" and step: "job_step i s c r w = Some w'"
  shows "reports_ok w'"
proof -
  obtain a pc where j: "wJobs w ! i = (a, pc)" by fastforce
  obtain M where M: "mset (wJobs w) = add_mset (a, pc) M" "\<And>y. mset ((wJobs w)[i := y]) = add_mset y M"
    using mset_update_obtain [OF i] j by metis
  show ?thesis using assms
    by (cases pc) (auto simp: job_step_def j reports_ok_def M mk_report_def Let_def split: if_splits option.splits)
qed

lemma job_step_inv:
  assumes inv: "worker_inv w" and main: "\<forall>out. wMain w \<noteq> MainReturn out"
    and step: "job_step i s c r w = Some w'"
  shows "worker_inv w'"
proof -
  have i: "i < length (wJobs w)" using step by (simp add: job_step_def split: if_splits)
  have c: "counters_ok w' \<and> wMain w' = wMain w"
    using counters_job_step [OF _ i step] inv by (simp add: worker_inv_def)
  moreover have "reports_ok w'" using reports_job_step [OF _ i step] inv by (simp add: worker_inv_def)
  moreover have "got_ok w'" "ctx_ok w'" "chan_ok w'"
    using job_step_frame [OF i step] c inv main
    by (auto simp: worker_inv_def got_ok_def ctx_ok_def chan_ok_def split: main_pc.splits)
  ultimately show ?thesis by (simp add: worker_inv_def)
qed

text \<open>The main goroutine, the receiver and the environment leave the jobs alone, but for the start of one.\<close>

lemma proceed_step_inv:
  assumes "worker_inv w" and "proceed_step w = Some w'"
  shows "worker_inv w'"
  using assms by (cases "wMain w") (auto simp: proceed_step_def worker_inv_defs split: if_splits)

lemma acquire_step_inv:
  assumes "worker_inv w" and "wMain w = MainAcquire a" and "acquire_step slot a w = Some w'"
  shows "worker_inv w'"
  using assms by (auto simp: acquire_step_def worker_inv_defs split: if_splits)

lemma select_step_inv:
  assumes "worker_inv w" and "wMain w = MainSelect" and "select_step b w = Some w'"
  shows "worker_inv w'"
  using assms
  by (cases b) (auto simp: worker_inv_defs split: if_splits option.splits stream_err.splits recv_pc.splits)

lemma counters_ok_frame [simp]:
  "counters_ok (w\<lparr>wRecv := x\<rparr>) = counters_ok w" "counters_ok (w\<lparr>wGot := g\<rparr>) = counters_ok w"
  "counters_ok (w\<lparr>wErrChan := e\<rparr>) = counters_ok w" "counters_ok (w\<lparr>wBeats := bs\<rparr>) = counters_ok w"
  "counters_ok (w\<lparr>wCtxDone := d\<rparr>) = counters_ok w"
  by (simp_all add: counters_ok_def jobs_at_def)

lemma reports_ok_frame [simp]:
  "reports_ok (w\<lparr>wRecv := x\<rparr>) = reports_ok w" "reports_ok (w\<lparr>wGot := g\<rparr>) = reports_ok w"
  "reports_ok (w\<lparr>wErrChan := e\<rparr>) = reports_ok w" "reports_ok (w\<lparr>wBeats := bs\<rparr>) = reports_ok w"
  "reports_ok (w\<lparr>wCtxDone := d\<rparr>) = reports_ok w"
  by (simp_all add: reports_ok_def)

lemma ctx_ok_frame [simp]:
  "ctx_ok (w\<lparr>wRecv := x\<rparr>) = ctx_ok w" "ctx_ok (w\<lparr>wGot := g\<rparr>) = ctx_ok w"
  "ctx_ok (w\<lparr>wErrChan := e\<rparr>) = ctx_ok w" "ctx_ok (w\<lparr>wBeats := bs\<rparr>) = ctx_ok w"
  "ctx_ok w \<Longrightarrow> ctx_ok (w\<lparr>wCtxDone := True\<rparr>)"
  by (cases "wMain w"; simp add: ctx_ok_def)+

lemma recv_step_inv:
  assumes "worker_inv w" and "recv_step r w = Some w'"
  shows "worker_inv w'"
  using assms by (auto simp: worker_inv_def got_ok_def chan_ok_def split: recv_pc.splits sum.splits)

lemma put_error_inv:
  assumes "worker_inv w" and "put_error w = Some w'"
  shows "worker_inv w'"
  using assms by (auto simp: put_error_def worker_inv_def got_ok_def chan_ok_def split: recv_pc.splits option.splits)

lemma worker_inv_beats: "worker_inv (w\<lparr>wBeats := bs\<rparr>) = worker_inv w"
  by (simp add: worker_inv_def got_ok_def chan_ok_def)

lemma worker_inv_signal: "worker_inv w \<Longrightarrow> worker_inv (w\<lparr>wCtxDone := True\<rparr>)"
  by (simp add: worker_inv_def got_ok_def chan_ok_def)

lemma wstep_inv:
  assumes inv: "worker_inv w" and step: "wstep act w = Some w'"
  shows "worker_inv w'"
proof -
  have main: "\<forall>out. wMain w \<noteq> MainReturn out" using step by auto
  show ?thesis
  proof (cases act)
    case Signal
    with step main have "w' = w\<lparr>wCtxDone := True\<rparr>" by (cases "wMain w") auto
    with inv show ?thesis by (simp add: worker_inv_signal)
  next
    case HeartbeatTick
    with step main have "w' = w\<lparr>wBeats := wBeats w @ [\<lparr>hbWorkerId = wID w, hbActiveTasks = wActive w\<rparr>]\<rparr>"
      by (cases "wMain w") (auto simp: beat_step_def split: if_splits)
    with inv show ?thesis by (simp add: worker_inv_beats)
  next
    case (Receive r)
    with step main have "recv_step r w = Some w'" by (cases "wMain w") auto
    with inv show ?thesis by (rule recv_step_inv)
  next
    case PutError
    with step main have "put_error w = Some w'" by (cases "wMain w") auto
    with inv show ?thesis by (rule put_error_inv)
  next
    case (Select b)
    with step have "wMain w = MainSelect" "select_step b w = Some w'" by (auto split: main_pc.splits)
    with inv show ?thesis by (rule select_step_inv)
  next
    case (Acquire slot)
    with step obtain a where "wMain w = MainAcquire a" "acquire_step slot a w = Some w'"
      by (auto split: main_pc.splits)
    with inv show ?thesis by (rule acquire_step_inv)
  next
    case Proceed
    with step main have "proceed_step w = Some w'" by (cases "wMain w") auto
    with inv show ?thesis by (rule proceed_step_inv)
  next
    case (Job i s c r)
    with step main have "job_step i s c r w = Some w'" by (cases "wMain w") auto
    with inv main show ?thesis by (rule job_step_inv)
  qed
qed

interpretation worker: inv_system worker_start worker_step worker_inv
  by unfold_locales (auto simp: worker_start_def worker_step_def NewWorker_inv intro: wstep_inv simp del: wstep.simps)

lemma wrun_reach:
  "reach worker_start worker_step w \<Longrightarrow> wrun as w = Some w' \<Longrightarrow> reach worker_start worker_step w'"
proof (induction as arbitrary: w)
  case (Cons a as)
  from Cons.prems(2) obtain w1 where w1: "wstep a w = Some w1" "wrun as w1 = Some w'" by (auto split: option.splits simp del: wstep.simps)
  then have "worker_step w w1" by (auto simp: worker_step_def simp del: wstep.simps)
  with Cons.prems(1) w1(2) show ?case by (blast intro: Cons.IH reach_step)
qed simp

section \<open>Progress of the goroutines\<close>

lemma job_enabled:
  assumes inv: "worker_inv w" and main: "\<forall>out. wMain w \<noteq> MainReturn out"
    and i: "i < length (wJobs w)" "snd (wJobs w ! i) \<noteq> JobExit"
  obtains w' where "wstep (Job i s c r) w = Some w'" "shutdown_work w = Suc (shutdown_work w')" "wMain w' = wMain w"
proof -
  obtain a pc where j: "wJobs w ! i = (a, pc)" by fastforce
  obtain M where M: "mset (wJobs w) = add_mset (a, pc) M" "\<And>y. mset ((wJobs w)[i := y]) = add_mset y M"
    using mset_update_obtain [OF i(1)] j by metis
  have cnt: "wSem w = jobs_at holds_slot w + main_slots (wMain w)" "wGroup w = jobs_at in_group w + main_group (wMain w)"
    using inv by (simp_all add: worker_inv_def counters_ok_def)
  have "\<exists>w'. job_step i s c r w = Some w' \<and> shutdown_work w = Suc (shutdown_work w') \<and> wMain w' = wMain w"
    using i cnt by (cases pc) (simp_all add: job_step_def j shutdown_work_def jobs_at_def M)
  moreover have "wstep (Job i s c r) w = job_step i s c r w" using main by (cases "wMain w") auto
  ultimately show ?thesis using that by auto
qed

lemma unfinished_job:
  assumes inv: "worker_inv w" and "main_group (wMain w) = 0" and "wGroup w \<noteq> 0"
  obtains i where "i < length (wJobs w)" "snd (wJobs w ! i) \<noteq> JobExit"
proof -
  have "jobs_at in_group w \<noteq> 0" using assms by (simp add: worker_inv_def counters_ok_def)
  then have "{#j \<in># mset (wJobs w). in_group (snd j)#} \<noteq> {#}" by (simp add: jobs_at_def del: in_group.simps)
  then obtain j where "j \<in> set (wJobs w)" "in_group (snd j)" by (auto simp del: in_group.simps simp: filter_mset_eq_conv)
  then show ?thesis using that by (auto simp: in_set_conv_nth)
qed

lemma shutdown_reached:
  "worker_inv w \<Longrightarrow> wMain w = MainWait d \<Longrightarrow>
     \<exists>as w'. length as \<le> shutdown_work w \<and> wrun as w = Some w' \<and> wMain w' = MainReturn Shutdown"
proof (induction "shutdown_work w" arbitrary: w rule: less_induct)
  case less
  show ?case
  proof (cases "wGroup w = 0")
    case True
    then have "wrun [Proceed] w = Some (w\<lparr>wMain := MainReturn Shutdown\<rparr>)" using less.prems by (simp add: proceed_step_def)
    moreover have "1 \<le> shutdown_work w" using less.prems by (simp add: shutdown_work_def)
    ultimately show ?thesis by (intro exI [of _ "[Proceed]"]) simp
  next
    case False
    then obtain i where i: "i < length (wJobs w)" "snd (wJobs w ! i) \<noteq> JobExit"
      using unfinished_job [OF less.prems(1)] less.prems(2) by auto
    obtain w1 where w1: "wstep (Job i 0 0 ([], None)) w = Some w1" "shutdown_work w = Suc (shutdown_work w1)" "wMain w1 = wMain w"
      using job_enabled [OF less.prems(1) _ i] less.prems(2) by (metis main_pc.distinct(41))
    have "worker_inv w1" using wstep_inv [OF less.prems(1) w1(1)] .
    then obtain as w' where "length as \<le> shutdown_work w1" "wrun as w1 = Some w'" "wMain w' = MainReturn Shutdown"
      using less.hyps [of w1] w1 less.prems(2) by auto
    then show ?thesis using w1
      by (intro exI [of _ "Job i 0 0 ([], None) # as"]) (simp del: wstep.simps)
  qed
qed

lemma wait_step:
  assumes inv: "worker_inv w" and main: "wMain w = MainWait d" and step: "wstep act w = Some w'"
  shows "(wMain w' = MainWait d \<or> wMain w' = MainReturn Shutdown) \<and>
    (if environment act then shutdown_work w' = shutdown_work w else shutdown_work w' < shutdown_work w)"
proof (cases act)
  case (Job i s c r)
  with step main have j: "job_step i s c r w = Some w'" by simp
  then have i: "i < length (wJobs w)" "snd (wJobs w ! i) \<noteq> JobExit"
    by (auto simp: job_step_def split: if_splits prod.splits)
  obtain w1 where "wstep (Job i s c r) w = Some w1" "shutdown_work w = Suc (shutdown_work w1)" "wMain w1 = wMain w"
    using job_enabled [OF inv _ i] main by (metis main_pc.distinct(41))
  with step Job main show ?thesis by simp
next
  case HeartbeatTick
  moreover have "wCtxDone w" using inv main by (simp add: worker_inv_def ctx_ok_def)
  ultimately show ?thesis using step main by (simp add: beat_step_def)
qed (use step main in \<open>auto simp: shutdown_work_def put_error_def proceed_step_def split: recv_pc.splits sum.splits
      option.splits if_splits\<close>)

section \<open>Properties of the worker process\<close>

text \<open>Workers and runs for the examples.\<close>

definition sample_worker :: worker where
  "sample_worker = NewWorker ''host'' 7 2"

lemma sample_reach: "reach worker_start worker_step sample_worker"
  by (rule reach_init) (auto simp: worker_start_def sample_worker_def)

definition take_task :: "assignment \<Rightarrow> wact list" where
  "take_task a = [Receive (Inr a), Select OnTask, Acquire True, Proceed, Proceed, Proceed]"




definition shutdown_run :: "wact list" where
  "shutdown_run = take_task (sample_task TaskTypeInline [] ''a'') @
     [Signal, Select OnDone, Job 0 1 2 (''ok'', None), Job 0 0 0 ([], None), Job 0 0 0 ([], None), Job 0 0 0 ([], None), Proceed]"


text \<open>The code does not make every shutdown graceful: after the signal the cancelled stream's error is as
  ready as the signal itself, and when the loop picks it the process returns with an error while a task
  is still executing and unreported.\<close>

theorem shutdown_can_abandon_tasks:
  "\<exists>w a. reach worker_start worker_step w \<and> wCtxDone w \<and>
     wMain w = MainReturn (StreamFailed ''task stream error: context canceled'') \<and> wJobs w = [(a, JobRun)] \<and> wReports w = []"
proof -
  let ?as = "take_task (sample_task TaskTypeInline [] ''a'') @
    [Signal, Receive (Inl (StreamErr ''context canceled'')), PutError, Select OnError]"
  obtain w where w: "wrun ?as sample_worker = Some w" "wCtxDone w"
      "wMain w = MainReturn (StreamFailed ''task stream error: context canceled'')"
      "wJobs w = [(sample_task TaskTypeInline [] ''a'', JobRun)]" "wReports w = []"
    by (simp add: take_task_def sample_worker_def NewWorker_def maxConcurrent_def acquire_step_def proceed_step_def put_error_def
        word_sle_eq)
  then show ?thesis using wrun_reach [OF sample_reach w(1)] by blast
qed

text \<open>C13: Once the shutdown branch waits, it stays there until it returns; every step of a goroutine or of the
  wait uses up some of the work that is left, the environment adds none, and some run of no more steps
  than that work ends the process.\<close>

theorem shutdown_terminates:
  assumes "reach worker_start worker_step w" and "wMain w = MainWait d"
  shows "(\<forall>act w'. wstep act w = Some w' \<longrightarrow>
      (wMain w' = MainWait d \<or> wMain w' = MainReturn Shutdown) \<and>
      (if environment act then shutdown_work w' = shutdown_work w else shutdown_work w' < shutdown_work w)) \<and>
    (\<exists>as w'. length as \<le> shutdown_work w \<and> wrun as w = Some w' \<and> wMain w' = MainReturn Shutdown)"
  using worker.reach_inv [OF assms(1)] wait_step [OF _ assms(2)] shutdown_reached [OF _ assms(2)] by blast

theorem shutdown_terminates_witness:
  "\<exists>w. wrun (take 8 shutdown_run) sample_worker = Some w \<and> shutdown_work w = 5 \<and>
     (\<exists>as w'. length as \<le> 5 \<and> wrun as w = Some w' \<and> wMain w' = MainReturn Shutdown)"
proof -
  obtain w where w: "wrun (take 8 shutdown_run) sample_worker = Some w" "wMain w = MainWait None" "shutdown_work w = 5"
    by (simp add: shutdown_run_def take_task_def sample_worker_def NewWorker_def maxConcurrent_def acquire_step_def
        proceed_step_def shutdown_work_def word_sle_eq)
  then show ?thesis using shutdown_terminates [OF wrun_reach [OF sample_reach w(1)] w(2)] by auto
qed

end
