(* ===== verification/Cluster.thy ===== *)
theory Cluster
  imports Results WorkerLoop
begin

text \<open>
  Master and workers together: the service of \<open>Dispatch\<close>, one worker process of \<open>WorkerLoop\<close> per stream,
  and the network between them. Assignments arrive in the order they were sent, as far as they arrive;
  a report is delivered once, at any later time, or lost. The property is the end-to-end one: what the
  master records of a task comes from executing that task.
\<close>

section \<open>The system\<close>

text \<open>\<open>clNet\<close> holds the reports sent and not yet delivered, each with the worker that sent it.\<close>

record cluster =
  clService :: dsys
  clWorkers :: "nat \<Rightarrow> worker option"
  clNet :: "(nat \<times> task_report) list"

definition sent_to :: "nat \<Rightarrow> dsys \<Rightarrow> assignment list" where
  "sent_to i d = map snd (filter (\<lambda>x. fst x = i) (sent d))"

datatype cact =
    Service dact
  | Join nat string int int64 string time
  | Deliver nat
  | Work nat wact
  | Arrive nat report_env
  | Lose nat

fun cstep :: "cact \<Rightarrow> cluster \<Rightarrow> cluster option" where
  "cstep (Service a) c = map_option (\<lambda>d. c\<lparr>clService := d\<rparr>) (dstep a (clService c))"
| "cstep (Join i hostname pid limit host now) c =
     (let w = NewWorker hostname pid limit in
      if clWorkers c i = None
      then map_option (\<lambda>d. c\<lparr>clService := d, clWorkers := (clWorkers c)(i \<mapsto> w)\<rparr>) (dstep (Open i (wID w) host now) (clService c))
      else None)"
| "cstep (Deliver i) c =
     (case clWorkers c i of
        None \<Rightarrow> None
      | Some w \<Rightarrow>
          if length (wGot w) < length (sent_to i (clService c))
          then map_option (\<lambda>w'. c\<lparr>clWorkers := (clWorkers c)(i \<mapsto> w')\<rparr>)
                 (wstep (Receive (Inr (sent_to i (clService c) ! length (wGot w)))) w)
          else None)"
| "cstep (Work i act) c =
     (case clWorkers c i of
        None \<Rightarrow> None
      | Some w \<Rightarrow>
          map_option (\<lambda>w'. c\<lparr>clWorkers := (clWorkers c)(i \<mapsto> w'),
                              clNet := clNet c @ map (Pair i) (drop (length (wReports w)) (wReports w'))\<rparr>)
            (wstep act w))"
| "cstep (Arrive k env) c =
     (if k < length (clNet c)
      then map_option (\<lambda>d. c\<lparr>clService := d, clNet := take k (clNet c) @ drop (Suc k) (clNet c)\<rparr>)
             (dstep (Report env (snd (clNet c ! k))) (clService c))
      else None)"
| "cstep (Lose k) c =
     (if k < length (clNet c) then Some (c\<lparr>clNet := take k (clNet c) @ drop (Suc k) (clNet c)\<rparr>) else None)"

text \<open>
  Which actions can happen: reports and streams come from workers only, a submitted task is new, a
  worker receives from its stream only, and an execution has a result that \<open>runs\<close> allows for its
  assignment.
\<close>

fun work_ok :: "(assignment \<Rightarrow> exec_result \<Rightarrow> bool) \<Rightarrow> wact \<Rightarrow> worker \<Rightarrow> bool" where
  "work_ok runs (Receive (Inr a)) w = False"
| "work_ok runs (Job j s c r) w = (j < length (wJobs w) \<and> snd (wJobs w ! j) = JobRun \<longrightarrow> runs (fst (wJobs w ! j)) r)"
| "work_ok runs _ w = True"

fun cact_ok :: "(assignment \<Rightarrow> exec_result \<Rightarrow> bool) \<Rightarrow> cact \<Rightarrow> cluster \<Rightarrow> bool" where
  "cact_ok runs (Service (Open i w h t)) c = False"
| "cact_ok runs (Service (Report env rep)) c = False"
| "cact_ok runs (Service (SubmitTask t)) c = (tState t = StateQueued)"
| "cact_ok runs (Work i act) c = (case clWorkers c i of None \<Rightarrow> False | Some w \<Rightarrow> work_ok runs act w)"
| "cact_ok runs _ c = True"

definition cluster_step :: "(assignment \<Rightarrow> exec_result \<Rightarrow> bool) \<Rightarrow> cluster \<Rightarrow> cluster \<Rightarrow> bool" where
  "cluster_step runs c c' \<longleftrightarrow> (\<exists>a. cact_ok runs a c \<and> cstep a c = Some c')"

definition cluster_start :: "cluster \<Rightarrow> bool" where
  "cluster_start c \<longleftrightarrow> service_start (clService c) \<and> (\<forall>p. result_of (heap (nd (clService c)) p) = None) \<and>
     (\<forall>i. clWorkers c i = None) \<and> clNet c = []"

fun crun :: "cact list \<Rightarrow> cluster \<Rightarrow> cluster option" where
  "crun [] c = Some c"
| "crun (a # as) c = (case cstep a c of None \<Rightarrow> None | Some c \<Rightarrow> crun as c)"

fun crun_ok :: "(assignment \<Rightarrow> exec_result \<Rightarrow> bool) \<Rightarrow> cact list \<Rightarrow> cluster \<Rightarrow> bool" where
  "crun_ok runs [] c = True"
| "crun_ok runs (a # as) c = (cact_ok runs a c \<and> (case cstep a c of None \<Rightarrow> True | Some c \<Rightarrow> crun_ok runs as c))"

section \<open>What a worker reports\<close>

text \<open>A report made by a worker: it has executed an assignment it received, with this result.\<close>

definition made_by :: "(assignment \<Rightarrow> exec_result \<Rightarrow> bool) \<Rightarrow> worker \<Rightarrow> assignment \<Rightarrow> exec_result \<Rightarrow> task_report \<Rightarrow> bool" where
  "made_by runs w a r rep \<longleftrightarrow> a \<in> set (wGot w) \<and> runs a r \<and> (\<exists>s c. rep = mk_report (wID w) a s c r) \<and> rep \<in> set (wReports w)"

lemma job_step_reports:
  assumes "job_step j s c r w = Some w'"
  shows "wID w' = wID w \<and> wGot w' = wGot w \<and>
    (wReports w' = wReports w \<or>
      (j < length (wJobs w) \<and> snd (wJobs w ! j) = JobRun \<and> wReports w' = wReports w @ [mk_report (wID w) (fst (wJobs w ! j)) s c r]))"
  using assms by (auto simp: job_step_def split: if_splits prod.splits job_pc.splits)

lemma wstep_reports:
  assumes "wstep act w = Some w'"
  shows "wID w' = wID w \<and>
    wGot w' = wGot w @ (case act of Receive (Inr a) \<Rightarrow> [a] | _ \<Rightarrow> []) \<and>
    (wReports w' = wReports w \<or>
      (\<exists>j s c r. act = Job j s c r \<and> (\<forall>out. wMain w \<noteq> MainReturn out) \<and> j < length (wJobs w) \<and> snd (wJobs w ! j) = JobRun \<and>
        wReports w' = wReports w @ [mk_report (wID w) (fst (wJobs w ! j)) s c r]))"
proof -
  have run: "\<forall>out. wMain w \<noteq> MainReturn out" using assms by (auto split: main_pc.splits)
  show ?thesis
  proof (cases act)
    case (Job j s c r)
    then have "job_step j s c r w = Some w'" using assms by (auto split: main_pc.splits)
    from job_step_reports [OF this] Job run show ?thesis by auto
  next
    case (Select b)
    then show ?thesis using assms by (cases b) (auto split: main_pc.splits recv_pc.splits option.splits stream_err.splits if_splits)
  qed (use assms in \<open>auto simp: put_error_def acquire_step_def proceed_step_def beat_step_def
      split: main_pc.splits recv_pc.splits option.splits sum.splits if_splits\<close>)
qed

text \<open>A job's assignment is one the worker received.\<close>

lemma job_received:
  assumes "worker_inv w" "\<forall>out. wMain w \<noteq> MainReturn out" "j < length (wJobs w)"
  shows "fst (wJobs w ! j) \<in> set (wGot w)"
proof -
  have "mset (wGot w) = image_mset fst (mset (wJobs w)) + recv_holds (wRecv w) + main_holds (wMain w)"
    using assms(1,2) by (auto simp: worker_inv_def got_ok_def)
  then have "set (wGot w) = fst ` set (wJobs w) \<union> set_mset (recv_holds (wRecv w)) \<union> set_mset (main_holds (wMain w))"
    by (metis set_mset_mset set_mset_union set_image_mset)
  then show ?thesis using assms(3) by auto
qed

section \<open>What the service keeps\<close>

lemma stream_step_next: "stream_step i x st c d = Some d' \<Longrightarrow> next_task (nd d') = next_task (nd d)"
proof -
  have pub: "heap n = heap (nd d) \<Longrightarrow> next_task n = next_task (nd d) \<Longrightarrow>
      next_task (nd (settle (publishEvent now ty data n) d)) = next_task (nd d)" for now ty data n
    by (auto simp: settle_def dest!: publishEvent_frame split: option.split)
  show "stream_step i x st c d = Some d' \<Longrightarrow> next_task (nd d') = next_task (nd d)"
    by (cases c) (auto simp: Let_def set_task_def register_worker_def mark_dead_def pub split: if_splits prod.splits option.splits)
qed

lemma dstep_next: "dstep a d = Some d' \<Longrightarrow> \<forall>t. a \<noteq> SubmitTask t \<Longrightarrow> next_task (nd d') = next_task (nd d)"
proof (cases a)
  case (Report env rep)
  assume "dstep a d = Some d'"
  with Report show ?thesis
    by (cases "ReportTaskStatus env rep (nd d)") (auto simp: settle_def dest: report_frame)
next
  case (Tick tk)
  assume "dstep a d = Some d'"
  with Tick show ?thesis by (cases "on_tick tk (nd d)") (auto simp: settle_def dest: tick_frame split: if_splits)
qed (auto split: option.splits if_splits prod.splits dest: stream_step_next)

lemma dstep_sent_grows: "dstep a d = Some d' \<Longrightarrow> \<exists>xs. sent d' = sent d @ xs"
proof (cases "\<exists>i x. a = Move i x")
  case True
  assume s: "dstep a d = Some d'"
  then obtain i x st where "stream_step i x st (stPc st) d = Some d'" using True by (auto split: option.splits)
  from stream_step_sent [OF this] show ?thesis by auto
next
  case False
  assume "dstep a d = Some d'"
  then show ?thesis using dstep_sent [of a d d'] False by auto
qed

lemma sent_to_grows: "dstep a d = Some d' \<Longrightarrow> \<exists>xs. sent_to i d' = sent_to i d @ xs"
  using dstep_sent_grows by (fastforce simp: sent_to_def)

section \<open>The invariant\<close>

definition worker_ok :: "(assignment \<Rightarrow> exec_result \<Rightarrow> bool) \<Rightarrow> nat \<Rightarrow> dsys \<Rightarrow> worker \<Rightarrow> bool" where
  "worker_ok runs i d w \<longleftrightarrow> worker_inv w \<and> (\<exists>xs. sent_to i d = wGot w @ xs) \<and>
     (\<forall>rep \<in> set (wReports w). \<exists>a r. made_by runs w a r rep)"

text \<open>The result of an execution, as it reaches the task.\<close>

definition exec_verdict :: "exec_result \<Rightarrow> string + string" where
  "exec_verdict r = (case snd r of None \<Rightarrow> Inr (fst r) | Some e \<Rightarrow> Inl (Error e))"

definition executed :: "(assignment \<Rightarrow> exec_result \<Rightarrow> bool) \<Rightarrow> cluster \<Rightarrow> ref \<Rightarrow> string + string \<Rightarrow> bool" where
  "executed runs c p v \<longleftrightarrow>
     (\<exists>i w a r rep. clWorkers c i = Some w \<and> (i, a) \<in> set (sent (clService c)) \<and>
        assigned_payload a = payload_of (heap (nd (clService c)) p) \<and> made_by runs w a r rep \<and> v = exec_verdict r)"

definition cluster_inv :: "(assignment \<Rightarrow> exec_result \<Rightarrow> bool) \<Rightarrow> cluster \<Rightarrow> bool" where
  "cluster_inv runs c \<longleftrightarrow>
     service_inv (clService c) \<and> sent_ok (clService c) \<and>
     (\<forall>i w. clWorkers c i = Some w \<longrightarrow> worker_ok runs i (clService c) w) \<and>
     (\<forall>(i, rep) \<in> set (clNet c). \<exists>w. clWorkers c i = Some w \<and> rep \<in> set (wReports w)) \<and>
     (\<forall>p < next_task (nd (clService c)). \<forall>v. result_of (heap (nd (clService c)) p) = Some v \<longrightarrow>
        v = timeout_result \<or> executed runs c p v)"

lemma reported_mk_report [simp]: "reported_result (mk_report wid a s c r) = exec_verdict r" "rTaskId (mk_report wid a s c r) = aTaskId a"
  by (auto simp: reported_result_def mk_report_def exec_verdict_def Let_def split: option.split)

text \<open>Executions stay: workers only receive and report more, the service only sends more.\<close>

definition extends :: "cluster \<Rightarrow> cluster \<Rightarrow> bool" where
  "extends c c' \<longleftrightarrow> keeps_tasks (clService c) (clService c') \<and> set (sent (clService c)) \<subseteq> set (sent (clService c')) \<and>
     (\<forall>i w. clWorkers c i = Some w \<longrightarrow> (\<exists>w'. clWorkers c' i = Some w' \<and> wID w' = wID w \<and>
        set (wGot w) \<subseteq> set (wGot w') \<and> set (wReports w) \<subseteq> set (wReports w')))"

lemma executed_extends:
  assumes "executed runs c p v" "extends c c'" "p < next_task (nd (clService c))"
  shows "executed runs c' p v"
proof -
  obtain i w a r rep where e: "clWorkers c i = Some w" "(i, a) \<in> set (sent (clService c))"
    "assigned_payload a = payload_of (heap (nd (clService c)) p)" "made_by runs w a r rep" "v = exec_verdict r"
    using assms(1) unfolding executed_def by blast
  obtain w' where w': "clWorkers c' i = Some w'" "wID w' = wID w" "set (wGot w) \<subseteq> set (wGot w')" "set (wReports w) \<subseteq> set (wReports w')"
    using assms(2) e(1) unfolding extends_def by blast
  have "made_by runs w' a r rep" using e(4) w' by (auto simp: made_by_def)
  moreover have "(i, a) \<in> set (sent (clService c'))" using e(2) assms(2) by (auto simp: extends_def)
  moreover have "payload_of (heap (nd (clService c')) p) = payload_of (heap (nd (clService c)) p)"
    using assms(2,3) by (simp add: extends_def keeps_tasks_def)
  ultimately show ?thesis using e(3,5) w'(1) unfolding executed_def by metis
qed

lemma executed_mono:
  "executed runs c p v \<Longrightarrow> (\<And>a r. runs a r \<Longrightarrow> runs' a r) \<Longrightarrow> executed runs' c p v"
  unfolding executed_def made_by_def by blast

text \<open>A task that is new has no result.\<close>

lemma dstep_new_result:
  assumes step: "dstep a d = Some d'" and sub: "\<And>t. a = SubmitTask t \<Longrightarrow> result_of t = None"
    and p: "\<not> p < next_task (nd d)" "p < next_task (nd d')"
  shows "result_of (heap (nd d') p) = None"
proof -
  obtain t where t: "a = SubmitTask t" using p dstep_next [OF step] by force
  then have "heap (nd d') p = t"
    using step p by (auto simp: enqueue_new_def alloc_task_def enqueue_def Let_def split: if_splits)
  then show ?thesis using sub [OF t] by simp
qed

lemma worker_ok_dstep: "worker_ok runs i d w \<Longrightarrow> dstep a d = Some d' \<Longrightarrow> worker_ok runs i d' w"
  using sent_to_grows [of a d d' i] by (auto simp: worker_ok_def)

lemma extends_dstep:
  assumes "dstep a (clService c) = Some d'"
  shows "extends c (c\<lparr>clService := d', clNet := net\<rparr>)"
  using dstep_keeps [OF assms] dstep_sent_grows [OF assms] by (auto simp: extends_def)

text \<open>A service step that records only what is accounted for keeps the invariant.\<close>

lemma cluster_inv_dstep:
  assumes inv: "cluster_inv runs c" and step: "dstep a (clService c) = Some d'"
    and sub: "\<And>t. a = SubmitTask t \<Longrightarrow> result_of t = None"
    and src: "\<And>p v. result_source a (nd (clService c)) p v \<Longrightarrow> p < next_task (nd (clService c)) \<Longrightarrow>
       v = timeout_result \<or> executed runs c p v"
    and net: "set net \<subseteq> set (clNet c)"
  shows "cluster_inv runs (c\<lparr>clService := d', clNet := net\<rparr>)"
proof -
  let ?d = "clService c" and ?c' = "c\<lparr>clService := d', clNet := net\<rparr>"
  have ext: "extends c ?c'" using extends_dstep [OF step] .
  have "v = timeout_result \<or> executed runs ?c' p v"
    if p: "p < next_task (nd d')" and v: "result_of (heap (nd d') p) = Some v" for p v
  proof (cases "p < next_task (nd ?d)")
    case True
    have "result_of (heap (nd ?d) p) = Some v \<or> result_source a (nd ?d) p v"
      using dstep_results [OF step sub] v unfolding results_from_def by blast
    then have "v = timeout_result \<or> executed runs c p v" using inv src True unfolding cluster_inv_def by blast
    then show ?thesis using executed_extends [OF _ ext True] by blast
  next
    case False
    then show ?thesis using dstep_new_result [OF step sub False p] v by simp
  qed
  moreover have "service_inv d'" "sent_ok d'"
    using inv dstep_inv [OF _ step] dstep_sent_ok [OF _ _ step] by (simp_all add: cluster_inv_def)
  ultimately show ?thesis using inv worker_ok_dstep [OF _ step] net by (fastforce simp: cluster_inv_def)
qed

text \<open>So does a worker that joins, receives or reports.\<close>

lemma cluster_inv_net:
  "cluster_inv runs c \<Longrightarrow> (j, rep) \<in> set (clNet c) \<Longrightarrow> \<exists>w. clWorkers c j = Some w \<and> rep \<in> set (wReports w)"
  unfolding cluster_inv_def by (drule conjunct2, drule conjunct2, drule conjunct2, drule conjunct1) auto

lemma cluster_inv_worker:
  assumes inv: "cluster_inv runs c" and ok: "worker_ok runs i (clService c) w'"
    and grows: "\<And>w. clWorkers c i = Some w \<Longrightarrow> wID w' = wID w \<and> set (wGot w) \<subseteq> set (wGot w') \<and> set (wReports w) \<subseteq> set (wReports w')"
    and net: "\<And>j rep. (j, rep) \<in> set net \<Longrightarrow> (j, rep) \<in> set (clNet c) \<or> (j = i \<and> rep \<in> set (wReports w'))"
  shows "cluster_inv runs (c\<lparr>clWorkers := (clWorkers c)(i \<mapsto> w'), clNet := net\<rparr>)"
proof -
  let ?c' = "c\<lparr>clWorkers := (clWorkers c)(i \<mapsto> w'), clNet := net\<rparr>"
  have ext: "extends c ?c'" using grows by (auto simp: extends_def keeps_tasks_def)
  have 1: "\<exists>w. clWorkers ?c' j = Some w \<and> rep \<in> set (wReports w)" if "(j, rep) \<in> set net" for j rep
  proof (cases "j = i \<and> rep \<in> set (wReports w')")
    case False
    then have "(j, rep) \<in> set (clNet c)" using net that by blast
    then obtain w where "clWorkers c j = Some w" "rep \<in> set (wReports w)" using cluster_inv_net [OF inv] by blast
    then show ?thesis using grows by auto
  qed simp
  have 2: "v = timeout_result \<or> executed runs ?c' p v"
    if p: "p < next_task (nd (clService c))" and "result_of (heap (nd (clService c)) p) = Some v" for p v
    using that inv executed_extends [OF _ ext p] unfolding cluster_inv_def by blast
  have 3: "worker_ok runs j (clService c) w" if "clWorkers ?c' j = Some w" for j w
    using that inv ok by (cases "j = i") (auto simp: cluster_inv_def)
  have 4: "service_inv (clService c)" "sent_ok (clService c)" using inv by (simp_all add: cluster_inv_def)
  have whole: "cluster_inv runs c'" if "clService c' = clService c" "clNet c' = net"
      "\<And>j rep. (j, rep) \<in> set net \<Longrightarrow> \<exists>w. clWorkers c' j = Some w \<and> rep \<in> set (wReports w)"
      "\<And>p v. p < next_task (nd (clService c)) \<Longrightarrow> result_of (heap (nd (clService c)) p) = Some v \<Longrightarrow>
        v = timeout_result \<or> executed runs c' p v"
      "\<And>j w. clWorkers c' j = Some w \<Longrightarrow> worker_ok runs j (clService c) w" for c'
    unfolding cluster_inv_def that(1,2)
  proof (intro conjI allI impI ballI)
    show "case x of (j, rep) \<Rightarrow> \<exists>w. clWorkers c' j = Some w \<and> rep \<in> set (wReports w)" if "x \<in> set net" for x
      using \<open>\<And>j rep. (j, rep) \<in> set net \<Longrightarrow> \<exists>w. clWorkers c' j = Some w \<and> rep \<in> set (wReports w)\<close> that by (cases x) blast
  qed (use 4 that(4,5) in blast)+
  show ?thesis by (rule whole) (simp, simp, erule 1, erule (1) 2, erule 3)
qed

lemma worker_ok_new: "worker_ok runs i d (NewWorker hostname pid limit)"
  by (simp add: worker_ok_def NewWorker_inv) (simp add: NewWorker_def)

lemma worker_ok_receive:
  assumes ok: "worker_ok runs i d w" and more: "length (wGot w) < length (sent_to i d)"
    and step: "wstep (Receive (Inr (sent_to i d ! length (wGot w)))) w = Some w'"
  shows "worker_ok runs i d w'"
proof -
  let ?a = "sent_to i d ! length (wGot w)"
  obtain xs where xs: "sent_to i d = wGot w @ xs" using ok by (auto simp: worker_ok_def)
  then have "xs \<noteq> []" using more by auto
  then have "sent_to i d = (wGot w @ [?a]) @ tl xs" using xs by (cases xs) auto
  then have "\<exists>ys. sent_to i d = (wGot w @ [?a]) @ ys" by blast
  moreover have "worker_inv w'" using wstep_inv [OF _ step] ok by (simp add: worker_ok_def)
  moreover have "wID w' = wID w" "wGot w' = wGot w @ [?a]" "wReports w' = wReports w"
    using wstep_reports [OF step] by auto
  ultimately show ?thesis using ok by (fastforce simp: worker_ok_def made_by_def)
qed

lemma worker_ok_work:
  assumes ok: "worker_ok runs i d w" and allowed: "work_ok runs act w" and step: "wstep act w = Some w'"
  shows "worker_ok runs i d w'"
proof -
  have inv: "worker_inv w" using ok by (simp add: worker_ok_def)
  have same: "wID w' = wID w" "wGot w' = wGot w"
    using wstep_reports [OF step] allowed by (auto split: wact.splits sum.splits)
  have old: "\<exists>a r. made_by runs w' a r rep" if "rep \<in> set (wReports w)" "set (wReports w) \<subseteq> set (wReports w')" for rep
    using ok that same by (fastforce simp: worker_ok_def made_by_def)
  have "\<exists>a r. made_by runs w' a r rep" if rep: "rep \<in> set (wReports w')" for rep
  proof -
    consider (none) "wReports w' = wReports w"
      | (one) j s e r where "act = Job j s e r" "\<forall>out. wMain w \<noteq> MainReturn out" "j < length (wJobs w)" "snd (wJobs w ! j) = JobRun"
          "wReports w' = wReports w @ [mk_report (wID w) (fst (wJobs w ! j)) s e r]"
      using wstep_reports [OF step] by blast
    then show ?thesis
    proof cases
      case none
      with old rep show ?thesis by simp
    next
      case one
      have a: "fst (wJobs w ! j) \<in> set (wGot w)" by (rule job_received [OF inv one(2,3)])
      have "runs (fst (wJobs w ! j)) r" using allowed one(1,3,4) by simp
      then have "made_by runs w' (fst (wJobs w ! j)) r (mk_report (wID w) (fst (wJobs w ! j)) s e r)"
        using a same one(5) by (auto simp: made_by_def)
      with rep old [of rep] one(5) show ?thesis by (cases "rep \<in> set (wReports w)") (fastforce simp del: split_paired_Ex)+
    qed
  qed
  moreover have "worker_inv w'" by (rule wstep_inv [OF inv step])
  ultimately show ?thesis using ok same by (auto simp: worker_ok_def)
qed

text \<open>A report that arrives speaks of the task whose payload its assignment carried.\<close>

lemma report_executed:
  assumes inv: "cluster_inv runs c" and net: "(i, rep) \<in> set (clNet c)"
    and get: "gm_get (inFlight (sched (nd (clService c)))) (rTaskId rep) = Some p" and p: "p < next_task (nd (clService c))"
  shows "executed (\<lambda>a r. runs a r \<and> (\<exists>k s e. rep = mk_report k a s e r)) c p (reported_result rep)"
proof -
  let ?n = "nd (clService c)"
  obtain w where w: "clWorkers c i = Some w" "rep \<in> set (wReports w)" using cluster_inv_net [OF inv net] by blast
  then have ok: "worker_ok runs i (clService c) w" using inv unfolding cluster_inv_def by blast
  then obtain a r where m: "made_by runs w a r rep" using w(2) unfolding worker_ok_def by blast
  then have "a \<in> set (sent_to i (clService c))" using ok by (auto simp: made_by_def worker_ok_def)
  then have sent: "(i, a) \<in> set (sent (clService c))" by (auto simp: sent_to_def)
  then obtain q where q: "q < next_task ?n" "assigned_payload a = payload_of (heap ?n q)"
    using inv unfolding cluster_inv_def sent_ok_def by blast
  have core: "keyed (heap ?n) (inFlight (sched ?n))" "inj_on (\<lambda>p. tID (heap ?n p)) {..<next_task ?n}"
    using inv by (auto simp: cluster_inv_def service_inv_def core_inv_def sched_inv_def)
  have "rTaskId rep = aTaskId a" "reported_result rep = exec_verdict r" using m by (auto simp: made_by_def)
  moreover have "aTaskId a = tID (heap ?n q)" using q(2) by (simp add: assigned_payload_def payload_of_def)
  moreover have "tID (heap ?n p) = rTaskId rep" by (rule keyed_get [OF core(1) get])
  ultimately have "p = q" using core(2) p q(1) by (auto simp: inj_on_def)
  moreover have "made_by (\<lambda>a r. runs a r \<and> (\<exists>k s e. rep = mk_report k a s e r)) w a r rep"
    using m unfolding made_by_def by blast
  ultimately show ?thesis using q(2) w(1) sent \<open>reported_result rep = exec_verdict r\<close> unfolding executed_def by blast
qed

lemma cstep_inv:
  assumes inv: "cluster_inv runs c" and ok: "cact_ok runs a c" and step: "cstep a c = Some c'"
  shows "cluster_inv runs c'"
proof (cases a)
  case (Service b)
  then obtain d' where d': "dstep b (clService c) = Some d'" "c' = c\<lparr>clService := d'\<rparr>" using step by auto
  have b: "\<And>t. b = SubmitTask t \<Longrightarrow> result_of t = None" "\<And>env rep. b \<noteq> Report env rep"
    using ok Service by (auto simp: result_of_def)
  have "result_source b n p v \<Longrightarrow> v = timeout_result" for n p v
    using b(2) by (auto simp: result_source_def split: dact.splits)
  then show ?thesis using cluster_inv_dstep [OF inv d'(1), of "clNet c"] b(1) d'(2) by fastforce
next
  case (Join i hostname pid limit host now)
  let ?w = "NewWorker hostname pid limit"
  obtain d' where d': "clWorkers c i = None" "dstep (Open i (wID ?w) host now) (clService c) = Some d'"
    "c' = c\<lparr>clService := d', clWorkers := (clWorkers c)(i \<mapsto> ?w)\<rparr>"
    using step Join by (auto simp: Let_def split: if_splits)
  have 1: "cluster_inv runs (c\<lparr>clService := d'\<rparr>)"
    using cluster_inv_dstep [OF inv d'(2), of "clNet c"] by (simp add: result_source_def)
  show ?thesis
    using cluster_inv_worker [OF 1, of i ?w "clNet c"] d' by (simp add: worker_ok_new)
next
  case (Deliver i)
  then obtain w w' where w: "clWorkers c i = Some w" "length (wGot w) < length (sent_to i (clService c))"
    "wstep (Receive (Inr (sent_to i (clService c) ! length (wGot w)))) w = Some w'" "c' = c\<lparr>clWorkers := (clWorkers c)(i \<mapsto> w')\<rparr>"
    using step by (auto simp del: wstep.simps split: option.splits if_splits)
  have "worker_ok runs i (clService c) w" using inv w(1) unfolding cluster_inv_def by blast
  from worker_ok_receive [OF this w(2,3)] show ?thesis
    using cluster_inv_worker [OF inv, of i w' "clNet c"] w wstep_reports [OF w(3)] by fastforce
next
  case (Work i act)
  then obtain w w' where w: "clWorkers c i = Some w" "wstep act w = Some w'"
    "c' = c\<lparr>clWorkers := (clWorkers c)(i \<mapsto> w'), clNet := clNet c @ map (Pair i) (drop (length (wReports w)) (wReports w'))\<rparr>"
    using step by (auto simp del: wstep.simps split: option.splits)
  have "worker_ok runs i (clService c) w" using inv w(1) unfolding cluster_inv_def by blast
  moreover have "work_ok runs act w" using ok Work w(1) by simp
  ultimately have "worker_ok runs i (clService c) w'" by (rule worker_ok_work [OF _ _ w(2)])
  then show ?thesis unfolding w(3)
    by (rule cluster_inv_worker [OF inv]) (use w(1) wstep_reports [OF w(2)] in \<open>auto dest: in_set_dropD\<close>)
next
  case (Arrive k env)
  let ?rep = "snd (clNet c ! k)" and ?net = "take k (clNet c) @ drop (Suc k) (clNet c)"
  obtain d' where d': "k < length (clNet c)" "dstep (Report env ?rep) (clService c) = Some d'" "c' = c\<lparr>clService := d', clNet := ?net\<rparr>"
    using step Arrive by (auto split: if_splits)
  have "(fst (clNet c ! k), ?rep) \<in> set (clNet c)" using d'(1) by simp
  note executed = executed_mono [OF report_executed [OF inv this] conjunct1]
  show ?thesis unfolding d'(3)
    by (rule cluster_inv_dstep [OF inv d'(2)])
      (use executed in \<open>auto simp: result_source_def dest: in_set_takeD in_set_dropD\<close>)
next
  case (Lose k)
  then have "c' = c\<lparr>clNet := take k (clNet c) @ drop (Suc k) (clNet c)\<rparr>" using step by (auto split: if_splits)
  with inv show ?thesis by (fastforce simp: cluster_inv_def executed_def dest: in_set_takeD in_set_dropD)
qed

interpretation cluster: inv_system cluster_start "cluster_step runs" "cluster_inv runs"
proof
  show "cluster_inv runs c" if "cluster_start c" for c
  proof -
    have "service_start (clService c)" using that by (simp add: cluster_start_def)
    then have "service_inv (clService c) \<and> sent_ok (clService c)" by (rule carried.inv_init)
    with that show ?thesis by (simp add: cluster_start_def cluster_inv_def)
  qed
  show "cluster_inv runs c'" if "cluster_inv runs c" "cluster_step runs c c'" for c c'
    using that cstep_inv unfolding cluster_step_def by blast
qed

lemma crun_reach:
  "reach cluster_start (cluster_step runs) c \<Longrightarrow> crun_ok runs as c \<Longrightarrow> crun as c = Some c' \<Longrightarrow>
     reach cluster_start (cluster_step runs) c'"
proof (induction as arbitrary: c)
  case (Cons a as)
  then obtain c1 where c1: "cstep a c = Some c1" "crun as c1 = Some c'" by (auto split: option.splits simp del: cstep.simps)
  then have "cluster_step runs c c1" "crun_ok runs as c1" using Cons.prems(2) by (auto simp: cluster_step_def simp del: cstep.simps)
  with Cons.prems(1) c1(2) show ?case by (blast intro: Cons.IH reach_step)
qed simp

section \<open>Results come from executions\<close>

text \<open>The executions that the worker's code has on an operating system, whatever its state.\<close>

definition ran_on :: "'w os \<Rightarrow> assignment \<Rightarrow> exec_result \<Rightarrow> bool" where
  "ran_on os a r \<longleftrightarrow> (\<exists>world. fst (execute os a world) = r)"

lemma executed_ran:
  assumes "executed (ran_on os) c p v"
  shows "\<exists>i w a rep started completed world. clWorkers c i = Some w \<and>
       (i, a) \<in> set (sent (clService c)) \<and> a \<in> set (wGot w) \<and> assigned_payload a = payload_of (heap (nd (clService c)) p) \<and>
       rep = fst (executeTask os (wID w) started completed a world) \<and> rep \<in> set (wReports w) \<and> v = reported_result rep"
proof -
  obtain i w a r rep where e: "clWorkers c i = Some w" "(i, a) \<in> set (sent (clService c))"
    "assigned_payload a = payload_of (heap (nd (clService c)) p)" "made_by (ran_on os) w a r rep" "v = exec_verdict r"
    using assms unfolding executed_def by blast
  obtain world s d where m: "fst (execute os a world) = r" "rep = mk_report (wID w) a s d r" "a \<in> set (wGot w)" "rep \<in> set (wReports w)"
    using e(4) unfolding made_by_def ran_on_def by blast
  have "rep = fst (executeTask os (wID w) s d a world)"
    using m(1,2) by (cases "execute os a world") (simp add: executeTask_def)
  moreover have "v = reported_result rep" using e(5) m(2) by simp
  ultimately show ?thesis using e(1-3) m(3,4) by blast
qed

text \<open>C2: What the master records of a task's run comes from running that task. In every state that the
  master, its workers and the network reach together, with reports arriving late, out of order or not
  at all and tasks retried on other workers, the output or error recorded of a task is a timeout or
  the result in a report that a worker sent: the worker had received from its own stream an assignment
  with exactly this task's payload, executed it, and reported what the execution gave.\<close>

theorem recorded_results_were_executed:
  assumes "reach cluster_start (cluster_step (ran_on os)) c"
    and "p < next_task (nd (clService c))" and "result_of (heap (nd (clService c)) p) = Some v"
  shows "v = timeout_result \<or>
    (\<exists>i w a rep started completed world. clWorkers c i = Some w \<and>
       (i, a) \<in> set (sent (clService c)) \<and> a \<in> set (wGot w) \<and> assigned_payload a = payload_of (heap (nd (clService c)) p) \<and>
       rep = fst (executeTask os (wID w) started completed a world) \<and> rep \<in> set (wReports w) \<and> v = reported_result rep)"
  using cluster.reach_inv [OF assms(1)] assms(2,3) executed_ran unfolding cluster_inv_def by blast

definition demo_cluster :: cluster where
  "demo_cluster = \<lparr>clService = demo_start, clWorkers = (\<lambda>_. None), clNet = []\<rparr>"

definition demo_cluster_run :: "cact list" where
  "demo_cluster_run =
     [Service (SubmitTask (NewInline 5 ''a'' ''echo hi'' ''bash'')), Join 0 ''host'' 7 2 ''h'' 1] @
     map (\<lambda>now. Service (Move 0 (go now))) [6, 7, 8] @ replicate 8 (Service (Move 0 (go 9))) @
     [Deliver 0] @ map (Work 0) [Select OnTask, Acquire True, Proceed, Proceed, Proceed, Job 0 10 11 (''echo hi'', None)] @
     [Arrive 0 \<lparr>re_done = 12, re_rt = \<lparr>rt_now = 12, rt_jitter = 0, rt_f2i = 0\<rparr>, re_breaker = 12, re_publish = 12\<rparr>]"

lemma demo_cluster_start: "cluster_start demo_cluster"
proof -
  have "service_start demo_start" by (simp add: service_start_def demo_start_def, metis option.simps(4))
  then show ?thesis
    by (simp add: cluster_start_def demo_cluster_def demo_start_def NewNodeServer_def New_def result_of_def)
qed

lemma demo_cluster_reach: "reach cluster_start (cluster_step runs) demo_cluster"
  using demo_cluster_start by (rule reach_init)

lemma crun_ok_mono:
  assumes "\<And>a r. runs a r \<Longrightarrow> runs' a r"
  shows "crun_ok runs as c \<Longrightarrow> crun_ok runs' as c"
proof (induction as arbitrary: c)
  case (Cons a as)
  have work: "work_ok runs act w \<Longrightarrow> work_ok runs' act w" for act w
    using assms by (cases "(runs, act, w)" rule: work_ok.cases) auto
  have "cact_ok runs a c \<Longrightarrow> cact_ok runs' a c"
    using work by (cases "(runs, a, c)" rule: cact_ok.cases) (auto split: option.splits)
  with Cons show ?case by (auto split: option.splits simp del: cstep.simps)
qed simp

theorem recorded_results_were_executed_witness:
  "\<exists>c i w a rep started completed world. crun demo_cluster_run demo_cluster = Some c \<and>
     result_of (heap (nd (clService c)) 0) = Some (Inr ''echo hi'') \<and> clWorkers c i = Some w \<and>
     rep = fst (executeTask mem_os (wID w) started completed a world) \<and> rep \<in> set (wReports w) \<and>
     reported_result rep = Inr ''echo hi'' \<and> assigned_payload a = payload_of (NewInline 5 ''a'' ''echo hi'' ''bash'')"
proof -
  have ok: "crun_ok (\<lambda>a r. fst (execute mem_os a Map.empty) = r) demo_cluster_run demo_cluster" by code_simp
  then have ok: "crun_ok (ran_on mem_os) demo_cluster_run demo_cluster"
    by (rule crun_ok_mono [rotated]) (auto simp: ran_on_def)
  have "map_option (\<lambda>c. (next_task (nd (clService c)), result_of (heap (nd (clService c)) 0), payload_of (heap (nd (clService c)) 0)))
      (crun demo_cluster_run demo_cluster) =
    Some (1, Some (Inr ''echo hi''), payload_of (NewInline 5 ''a'' ''echo hi'' ''bash''))" by code_simp
  then obtain c where c: "crun demo_cluster_run demo_cluster = Some c" "next_task (nd (clService c)) = 1"
    "result_of (heap (nd (clService c)) 0) = Some (Inr ''echo hi'')"
    "payload_of (heap (nd (clService c)) 0) = payload_of (NewInline 5 ''a'' ''echo hi'' ''bash'')" by auto
  have "reach cluster_start (cluster_step (ran_on mem_os)) c" using demo_cluster_reach ok c(1) by (rule crun_reach)
  moreover have "Inr ''echo hi'' \<noteq> timeout_result" by (simp add: timeout_result_def)
  ultimately obtain i w a rep started completed world where "clWorkers c i = Some w"
    "assigned_payload a = payload_of (heap (nd (clService c)) 0)" "rep = fst (executeTask mem_os (wID w) started completed a world)"
    "rep \<in> set (wReports w)" "Inr ''echo hi'' = reported_result rep"
    using recorded_results_were_executed [OF _ _ c(3)] c(2) by (metis zero_less_one)
  with c show ?thesis by metis
qed

end
