(* ===== verification/Progress.thy ===== *)
theory Progress
  imports Cluster
begin

text \<open>
  Progress of the whole system: from a state of \<open>Cluster\<close> in which a worker is idle and a task is queued,
  some run of at most sixteen steps sends the task, executes it and records what the execution gave.
\<close>

section \<open>Runs\<close>

lemma crun_append: "crun (as @ bs) c = (case crun as c of None \<Rightarrow> None | Some c1 \<Rightarrow> crun bs c1)"
  by (induction as arbitrary: c) (auto simp del: cstep.simps split: option.split)

lemma crun_ok_append:
  "crun_ok runs (as @ bs) c = (crun_ok runs as c \<and> (case crun as c of None \<Rightarrow> True | Some c1 \<Rightarrow> crun_ok runs bs c1))"
  by (induction as arbitrary: c) (auto simp del: cstep.simps cact_ok.simps split: option.split)

text \<open>The service's own steps, seen in the whole system.\<close>

lemma crun_moves:
  "drun (replicate n (Move i x)) (clService c) = Some d' \<Longrightarrow>
     crun (replicate n (Service (Move i x))) c = Some (c\<lparr>clService := d'\<rparr>) \<and> crun_ok runs (replicate n (Service (Move i x))) c"
proof (induction n arbitrary: c)
  case (Suc n)
  then obtain d1 where "dstep (Move i x) (clService c) = Some d1" "drun (replicate n (Move i x)) d1 = Some d'"
    by (auto split: option.splits)
  with Suc.IH [of "c\<lparr>clService := d1\<rparr>"] show ?case by (simp del: dstep.simps)
qed simp

section \<open>The worker's part\<close>

text \<open>A worker at its \<open>select\<close> with a free slot, and the goroutine it starts for an assignment.\<close>

definition idle :: "worker \<Rightarrow> bool" where
  "idle w \<longleftrightarrow> wMain w = MainSelect \<and> wRecv w = RecvCall \<and> wSem w < wCap w"

definition working :: "assignment \<Rightarrow> worker \<Rightarrow> worker" where
  "working a w = w\<lparr>wGot := wGot w @ [a], wSem := wSem w + 1, wGroup := wGroup w + 1, wActive := wActive w + 1,
     wJobs := wJobs w @ [(a, JobRun)]\<rparr>"

definition accepting :: "wact list" where
  "accepting = [Select OnTask, Acquire True, Proceed, Proceed, Proceed]"

lemma worker_takes:
  assumes "idle w" and "clWorkers c i = Some w" and "sent_to i (clService c) = wGot w @ [a]"
  shows "crun (Deliver i # map (Work i) accepting) c = Some (c\<lparr>clWorkers := (clWorkers c)(i \<mapsto> working a w)\<rparr>) \<and>
    crun_ok runs (Deliver i # map (Work i) accepting) c"
proof -
  have "working a w = w\<lparr>wGot := wGot w @ [a], wRecv := RecvCall, wSem := wSem w + 1, wGroup := wGroup w + 1, wActive := wActive w + 1,
      wJobs := wJobs w @ [(a, JobRun)], wMain := MainSelect\<rparr>"
    using assms(1) by (cases w) (simp add: working_def idle_def)
  then show ?thesis
    using assms by (simp add: accepting_def idle_def acquire_step_def proceed_step_def)
qed

lemma worker_reports:
  assumes "idle w" and "clWorkers c i = Some (working a w)" and "runs a r"
  shows "\<exists>w'. crun [Work i (Job (length (wJobs w)) s e r)] c =
      Some (c\<lparr>clWorkers := (clWorkers c)(i \<mapsto> w'), clNet := clNet c @ [(i, mk_report (wID w) a s e r)]\<rparr>) \<and>
    crun_ok runs [Work i (Job (length (wJobs w)) s e r)] c"
  using assms by (auto simp: idle_def working_def job_step_def)

section \<open>The report's part\<close>

text \<open>A report on a running task records the verdict of its execution.\<close>

lemma report_records:
  assumes bus: "node_bus_ok n" and fly: "gm_get (inFlight (sched n)) (aTaskId a) = Some p"
    and running: "tState (heap n p) = StateRunning" and rep: "rep = mk_report wid a s e r"
  shows "\<exists>n'. ReportTaskStatus env rep n = Some n' \<and> result_of (heap n' p) = Some (exec_verdict r)"
proof -
  obtain cb rs where g: "reg_Get (rWorkerId rep) (regs n) = (cb, rs)" by fastforce
  obtain n' where n': "ReportTaskStatus env rep n = Some n'" "(heap n', sched n') = exec_op (report_op env rep) (heap n, sched n)"
    using report_effect [OF bus g, of env] by blast
  have "result_of (heap n' p) = Some (exec_verdict r)"
  proof (cases "snd r")
    case None
    then have "(heap n', sched n') = snd (sched_Complete (re_done env) (aTaskId a) (fst r) 0 (heap n, sched n))"
      using n'(2) by (simp add: rep report_op_def mk_report_def Let_def)
    then show ?thesis
      using fly running None by (simp add: sched_Complete_def task_Complete_eq result_of_def exec_verdict_def)
  next
    case (Some err)
    then have "(heap n', sched n') =
        snd (sched_Fail (re_done env) (re_rt env) (aTaskId a) (Error err) (exit_code err) (heap n, sched n))"
      using n'(2) by (simp add: rep report_op_def mk_report_def Let_def)
    then show ?thesis
      using fly running Some
      by (cases "tMaxRetries (heap n p) \<le>s tAttempt (heap n p)")
        (simp_all add: sched_Fail_def retry_or_dead_def Let_def task_Fail_eq task_ScheduleRetry_eq result_of_def exec_verdict_def)
  qed
  with n'(1) show ?thesis by blast
qed

lemma report_arrives:
  assumes "clNet c = net @ [(i, rep)]" and "ReportTaskStatus env rep (nd (clService c)) = Some n'"
  shows "\<exists>c'. crun [Arrive (length net) env] c = Some c' \<and> nd (clService c') = n' \<and>
    sent (clService c') = sent (clService c) \<and> crun_ok runs [Arrive (length net) env] c"
  using assms by (simp add: settle_def)

section \<open>From the queue to the result\<close>

text \<open>C3: A queued task gets executed. From every reachable state in which a stream waits with a signal pending
  and a breaker that lets calls through, and its worker is idle with nothing under way, a run of at
  most sixteen steps, each of them allowed, takes a task that no queued task precedes, sends its
  payload to the worker, and records for it exactly what the execution gave: its output, or its error.\<close>

theorem queued_task_gets_executed:
  assumes reach: "reach cluster_start (cluster_step (ran_on os)) c"
    and st: "streams (clService c) i = Some st" "stPc st = PcSelect"
    and sig: "notify (sched (nd (clService c)))" "queue (sched (nd (clService c))) \<noteq> []"
      "\<forall>p \<in> set (queue (sched (nd (clService c)))). tState (heap (nd (clService c)) p) = StateQueued"
    and cb: "reg_Get (stWorker st) (regs (nd (clService c))) = (cb, rs)" "fst (Allow (si_now x) (cells rs cb))"
    and x: "\<not> si_done x" "si_sendok (x :: step_in)"
    and w: "clWorkers c i = Some w" "idle w" "sent_to i (clService c) = wGot w"
  shows "\<exists>p a as c'. p \<in> set (queue (sched (nd (clService c)))) \<and>
    (\<forall>q \<in> set (queue (sched (nd (clService c)))). \<not> pq_Less (heap (nd (clService c))) q p) \<and>
    length as \<le> 16 \<and> crun_ok (ran_on os) as c \<and> crun as c = Some c' \<and> (i, a) \<in> set (sent (clService c')) \<and>
    assigned_payload a = payload_of (heap (nd (clService c)) p) \<and>
    result_of (heap (nd (clService c')) p) = Some (exec_verdict (fst (execute os a world)))"
proof -
  let ?d = "clService c" and ?m = "replicate 8 (Service (Move i x))"
  have inv: "service_inv ?d" using cluster.reach_inv [OF reach] by (simp add: cluster_inv_def)
  then have h: "heap_ordered (pq_Less (heap (nd ?d))) (queue (sched (nd ?d)))" by (simp add: service_inv_def core_inv_def sched_inv_def)
  obtain d1 p a where d1: "drun (replicate 8 (Move i x)) ?d = Some d1" "p \<in> set (queue (sched (nd ?d)))"
    "\<forall>q \<in> set (queue (sched (nd ?d))). \<not> pq_Less (heap (nd ?d)) q p" "sent d1 = sent ?d @ [(i, a)]"
    "a = mk_assignment (si_now x) (heap (nd d1) p)" "gm_get (inFlight (sched (nd d1))) (aTaskId a) = Some p"
    "tState (heap (nd ?d) p) = StateQueued \<longrightarrow> tState (heap (nd d1) p) = StateRunning"
    using dispatch_sends [OF h st sig(1,2) cb x] by blast
  define c1 where "c1 = c\<lparr>clService := d1\<rparr>"
  have moves: "crun ?m c = Some c1" "crun_ok (ran_on os) ?m c" using crun_moves [OF d1(1)] by (simp_all add: c1_def)
  define c2 where "c2 = c1\<lparr>clWorkers := (clWorkers c1)(i \<mapsto> working a w)\<rparr>"
  have "sent_to i (clService c1) = wGot w @ [a]" using w(3) d1(4) by (simp add: c1_def sent_to_def)
  then have takes: "crun (Deliver i # map (Work i) accepting) c1 = Some c2" "crun_ok (ran_on os) (Deliver i # map (Work i) accepting) c1"
    using worker_takes [OF w(2), of c1 i a] w(1) by (simp_all add: c1_def c2_def)
  let ?r = "fst (execute os a world)" and ?job = "[Work i (Job (length (wJobs w)) 0 0 (fst (execute os a world)))]"
  have "ran_on os a ?r" by (auto simp: ran_on_def)
  then obtain w' where "crun ?job c2 = Some (c2\<lparr>clWorkers := (clWorkers c2)(i \<mapsto> w'), clNet := clNet c2 @ [(i, mk_report (wID w) a 0 0 ?r)]\<rparr>)"
    and job: "crun_ok (ran_on os) ?job c2"
    using worker_reports [OF w(2), of c2 i a "ran_on os" ?r 0 0] by (auto simp: c2_def)
  then obtain c3 where c3: "crun ?job c2 = Some c3" "clNet c3 = clNet c2 @ [(i, mk_report (wID w) a 0 0 ?r)]" "clService c3 = d1"
    by (auto simp: c2_def c1_def)
  have core: "core_inv (nd ?d) (finished ?d)" using inv by (simp add: service_inv_def)
  have p: "p < next_task (nd ?d)" using core d1(2) by (auto simp: core_inv_def live_def)
  have "cluster_inv (ran_on os) c1" using cluster.reach_inv [OF crun_reach [OF reach moves(2,1)]] .
  then have "service_inv d1" by (simp add: c1_def cluster_inv_def)
  then have bus: "node_bus_ok (nd d1)" by (rule service_bus)
  let ?env = "\<lparr>re_done = 0, re_rt = \<lparr>rt_now = 0, rt_jitter = 0, rt_f2i = 0\<rparr>, re_breaker = 0, re_publish = 0\<rparr>"
  have "tState (heap (nd d1) p) = StateRunning" using d1(2,7) sig(3) by blast
  then obtain n' where n': "ReportTaskStatus ?env (mk_report (wID w) a 0 0 ?r) (nd d1) = Some n'"
    "result_of (heap n' p) = Some (exec_verdict ?r)"
    using report_records [OF bus d1(6) _ refl] by blast
  let ?arrive = "[Arrive (length (clNet c2)) ?env]"
  obtain c4 where c4: "crun ?arrive c3 = Some c4" "nd (clService c4) = n'" "crun_ok (ran_on os) ?arrive c3" "sent (clService c4) = sent d1"
    using report_arrives [OF c3(2), of ?env n' "ran_on os"] n'(1) c3(3) by auto
  let ?as = "?m @ (Deliver i # map (Work i) accepting) @ ?job @ ?arrive"
  have "crun ?as c = Some c4" using moves(1) takes(1) c3(1) c4(1) by (simp only: crun_append option.case)
  moreover have "crun_ok (ran_on os) ?as c"
    using moves takes c3(1) job c4(3) by (simp only: crun_ok_append crun_append option.case simp_thms)
  moreover have "length ?as \<le> 16" by (simp add: accepting_def)
  moreover have "assigned_payload a = payload_of (heap (nd ?d) p)"
    using drun_keeps [OF d1(1)] p by (simp add: d1(5) keeps_tasks_def)
  moreover have "(i, a) \<in> set (sent (clService c4))" using c4(4) d1(4) by simp
  ultimately show ?thesis using d1(2,3) n'(2) c4(2) by blast
qed

definition waiting_run :: "cact list" where
  "waiting_run = [Service (SubmitTask (NewInline 5 ''a'' ''echo hi'' ''bash'')), Join 0 ''host'' 7 2 ''h'' 1,
     Service (Move 0 (go 6)), Service (Move 0 (go 7)), Service (Move 0 (go 8))]"

theorem queued_task_gets_executed_witness:
  "\<exists>c as c' a. crun waiting_run demo_cluster = Some c \<and> result_of (heap (nd (clService c)) 0) = None \<and>
     length as \<le> 16 \<and> crun as c = Some c' \<and> assigned_payload a = payload_of (NewInline 5 ''a'' ''echo hi'' ''bash'') \<and>
     result_of (heap (nd (clService c')) 0) = Some (exec_verdict (fst (execute mem_os a Map.empty)))"
proof -
  let ?t = "NewInline 5 ''a'' ''echo hi'' ''bash''" and ?st = "\<lparr>stWorker = ''worker-host-7'', stHostname = ''h'', stStart = 1, stPc = PcSelect\<rparr>"
  have "crun_ok (\<lambda>a r. False) waiting_run demo_cluster" by code_simp
  then have ok: "crun_ok (ran_on mem_os) waiting_run demo_cluster" by (rule crun_ok_mono [rotated]) simp
  have "map_option (\<lambda>c. let d = clService c in (queue (sched (nd d)), notify (sched (nd d)), streams d 0, breakers (regs (nd d)),
        regFailureThreshold (regs (nd d)), sent d, heap (nd d) 0)) (crun waiting_run demo_cluster) =
      Some ([0], True, Some ?st, [], 5, [], ?t)" by code_simp
  moreover have "map_option (\<lambda>c. clWorkers c 0) (crun waiting_run demo_cluster) = Some (Some (NewWorker ''host'' 7 2))" by code_simp
  ultimately obtain c where c: "crun waiting_run demo_cluster = Some c" "queue (sched (nd (clService c))) = [0]"
    "notify (sched (nd (clService c)))" "streams (clService c) 0 = Some ?st" "breakers (regs (nd (clService c))) = []"
    "sent (clService c) = []" "heap (nd (clService c)) 0 = ?t" "clWorkers c 0 = Some (NewWorker ''host'' 7 2)"
    by (auto simp: Let_def)
  have reach: "reach cluster_start (cluster_step (ran_on mem_os)) c" using demo_cluster_reach ok c(1) by (rule crun_reach)
  obtain cb rs where cb: "reg_Get ''worker-host-7'' (regs (nd (clService c))) = (cb, rs)" by force
  have al: "fst (Allow (si_now (go 9)) (cells rs cb))"
    using cb c(5) by (auto simp: reg_Get_def Get_read_def Get_write_def Let_def Allow_def cb_New_def)
  have idle: "idle (NewWorker ''host'' 7 2)" "sent_to 0 (clService c) = wGot (NewWorker ''host'' 7 2)"
    by (simp_all add: idle_def NewWorker_def maxConcurrent_def word_sle_eq sent_to_def c(6))
  have q: "queue (sched (nd (clService c))) \<noteq> []" "\<forall>p \<in> set (queue (sched (nd (clService c)))). tState (heap (nd (clService c)) p) = StateQueued"
    using c(2,7) by (simp_all add: NewInline_def New_def)
  have cb': "reg_Get (stWorker ?st) (regs (nd (clService c))) = (cb, rs)" using cb by simp
  obtain p a as c' where e: "p \<in> set (queue (sched (nd (clService c))))" "length as \<le> 16" "crun as c = Some c'"
    "assigned_payload a = payload_of (heap (nd (clService c)) p)"
    "result_of (heap (nd (clService c')) p) = Some (exec_verdict (fst (execute mem_os a Map.empty)))"
    using queued_task_gets_executed [OF reach c(4) _ c(3) q cb' al _ _ c(8) idle, of Map.empty] by (auto simp: go_def)
  have "p = 0" using e(1) c(2) by simp
  moreover have "result_of (heap (nd (clService c)) 0) = None" by (simp add: c(7) NewInline_def New_def result_of_def)
  ultimately show ?thesis using e c(1,7) by metis
qed

end
