(* ===== verification/TaskBoard.thy ===== *)
theory TaskBoard
  imports Scheduler
begin

text \<open>
  What the scheduler is for, without its data structures: a board on which every live task stands in
  one of four places. Each call moves the tasks it concerns, named by a condition on the single task,
  and leaves all others where they are. The scheduler with its heap, in-flight map and queues
  implements the board.
\<close>

section \<open>The board\<close>

datatype place = Queued | Flying | Waiting | Buried

type_synonym board = "tasks \<times> (ref \<Rightarrow> place option)"

text \<open>The tasks that \<open>hit\<close> selects change by \<open>f\<close> and go to the place \<open>g\<close> gives them then.\<close>

definition move_tasks :: "(ref \<Rightarrow> bool) \<Rightarrow> (ref \<Rightarrow> task \<Rightarrow> task) \<Rightarrow> (task \<Rightarrow> place option) \<Rightarrow> board \<Rightarrow> board" where
  "move_tasks hit f g =
     (\<lambda>(m, pl). (\<lambda>p. if hit p then f p (m p) else m p, \<lambda>p. if hit p then g (f p (m p)) else pl p))"

definition failed_task :: "time \<Rightarrow> rt_env \<Rightarrow> string \<Rightarrow> int32 \<Rightarrow> task \<Rightarrow> task" where
  "failed_task now rt msg code t =
     (let t = ignore_err t (task_Fail now msg code t) in ignore_err t (task_ScheduleRetry rt t))"

definition after_failure :: "task \<Rightarrow> place option" where
  "after_failure t = Some (if tState t = StateDead then Buried else Waiting)"

text \<open>The order of dispatch: higher priority, then earlier submission.\<close>

definition precedes :: "tasks \<Rightarrow> ref \<Rightarrow> ref \<Rightarrow> bool" where
  "precedes m q p \<longleftrightarrow> sint (tPriority (m p)) < sint (tPriority (m q)) \<or>
     (tPriority (m p) = tPriority (m q) \<and> tCreatedAt (m q) < tCreatedAt (m p))"

lemma move_none: "(\<And>p. \<not> hit p) \<Longrightarrow> move_tasks hit f g b = b"
  by (simp add: move_tasks_def split: prod.split)

lemma move_one: "(\<And>p. hit p \<longleftrightarrow> p = q) \<Longrightarrow> move_tasks hit f g (m, pl) = (m(q := f q (m q)), pl(q := g (f q (m q))))"
  by (auto simp: move_tasks_def)

fun board_step :: "sched_op \<Rightarrow> board \<Rightarrow> board \<Rightarrow> bool" where
  "board_step (Submit p t) (m, pl) b = (b = (m(p := t), pl(p \<mapsto> Queued)))"
| "board_step Take (m, pl) b =
     (if \<forall>p. pl p \<noteq> Some Queued then b = (m, pl)
      else \<exists>p. pl p = Some Queued \<and> (\<forall>q. pl q = Some Queued \<longrightarrow> \<not> precedes m q p) \<and> b = (m, pl(p \<mapsto> Flying)))"
| "board_step (Finish now k out code) (m, pl) b =
     (b = move_tasks (\<lambda>p. pl p = Some Flying \<and> tID (m p) = k) (\<lambda>p t. ignore_err t (task_Complete now out code t)) (\<lambda>t. None) (m, pl))"
| "board_step (Failed now rt k msg code) (m, pl) b =
     (b = move_tasks (\<lambda>p. pl p = Some Flying \<and> tID (m p) = k) (\<lambda>p. failed_task now rt msg code) after_failure (m, pl))"
| "board_step (WorkerGone ks w) (m, pl) b =
     (b = move_tasks (\<lambda>p. pl p = Some Flying \<and> tWorkerID (m p) = w) (\<lambda>p. requeued) (\<lambda>t. Some Queued) (m, pl))"
| "board_step (Retries now) (m, pl) b =
     (b = move_tasks (\<lambda>p. pl p = Some Waiting \<and> time_After now (tNextRetryAt (m p))) (\<lambda>p. retried) (\<lambda>t. Some Queued) (m, pl))"
| "board_step (Timeouts now env ks) (m, pl) b =
     (b = move_tasks (\<lambda>p. pl p = Some Flying \<and> timed_out now (m p)) (\<lambda>p. expired (env p)) after_failure (m, pl))"
| "board_step (Revive k) (m, pl) b =
     (b = move_tasks (\<lambda>p. pl p = Some Buried \<and> tID (m p) = k) (\<lambda>p t. ignore_err t (task_RetryFromDLQ t)) (\<lambda>t. Some Queued) (m, pl))"
| "board_step (Touch p t) (m, pl) b = (b = (m(p := t), pl))"

text \<open>Runs of a specification, and the interface of an implementation: each of its enabled operations is a
  step that the specification allows between the states it stands for.\<close>

fun spec_run :: "('o \<Rightarrow> 'b \<Rightarrow> 'b \<Rightarrow> bool) \<Rightarrow> 'o list \<Rightarrow> 'b \<Rightarrow> 'b \<Rightarrow> bool" where
  "spec_run spec [] b b' = (b' = b)"
| "spec_run spec (a # as) b b' = (\<exists>b1. spec a b b1 \<and> spec_run spec as b1 b')"

locale implementation =
  fixes enabled :: "'o \<Rightarrow> 's \<Rightarrow> bool" and exec :: "'o \<Rightarrow> 's \<Rightarrow> 's" and inv :: "'s \<Rightarrow> bool"
    and abs :: "'s \<Rightarrow> 'b" and spec :: "'o \<Rightarrow> 'b \<Rightarrow> 'b \<Rightarrow> bool"
  assumes inv_exec: "inv s \<Longrightarrow> enabled a s \<Longrightarrow> inv (exec a s)"
    and simulates: "inv s \<Longrightarrow> enabled a s \<Longrightarrow> spec a (abs s) (abs (exec a s))"
begin

lemma run_simulates: "inv s \<Longrightarrow> run_ok enabled exec as s \<Longrightarrow> spec_run spec as (abs s) (abs (fold exec as s))"
  by (induction as arbitrary: s) (auto intro: simulates inv_exec)

end

section \<open>The board of a scheduler\<close>

definition place_of :: "scheduler \<Rightarrow> ref \<Rightarrow> place option" where
  "place_of s p =
     (if p \<in> set (queue s) then Some Queued
      else if p \<in> snd ` set (inFlight s) then Some Flying
      else if p \<in> set (retryQueue s) then Some Waiting
      else if p \<in> set (deadLetter s) then Some Buried else None)"

definition board_of :: "tasks \<times> scheduler \<Rightarrow> board" where
  "board_of = (\<lambda>(m, s). (m, place_of s))"

text \<open>Each live task is in one of the four, once, and is known by its identifier.\<close>

definition separate :: "scheduler \<Rightarrow> bool" where
  "separate s \<longleftrightarrow> distinct (queue s @ map snd (inFlight s) @ retryQueue s @ deadLetter s)"

lemma pool_separate:
  assumes "pool_inv (m, s)"
  shows "separate s \<and> inj_on (\<lambda>p. tID (m p)) (set_mset (live s))"
proof -
  let ?xs = "queue s @ map snd (inFlight s) @ retryQueue s @ deadLetter s"
  have live: "live s = mset ?xs" by (simp add: live_def)
  have ids: "mset (map (\<lambda>p. tID (m p)) ?xs) = live_ids m s" by (simp only: live_ids_def live mset_map)
  have "count (mset (map (\<lambda>p. tID (m p)) ?xs)) k \<le> 1" for k
    using assms by (simp only: ids pool_inv_def case_prod_conv)
  then have "distinct (map (\<lambda>p. tID (m p)) ?xs)"
    unfolding distinct_count_atmost_1 by (metis count_eq_zero_iff le_neq_implies_less less_one set_mset_mset)
  then have "distinct ?xs" "inj_on (\<lambda>p. tID (m p)) (set ?xs)" unfolding distinct_map by blast+
  then show ?thesis unfolding separate_def live set_mset_mset by blast
qed

lemma place_iff:
  assumes "separate s"
  shows "place_of s p = Some Queued \<longleftrightarrow> p \<in> set (queue s)" "place_of s p = Some Flying \<longleftrightarrow> p \<in> snd ` set (inFlight s)"
    "place_of s p = Some Waiting \<longleftrightarrow> p \<in> set (retryQueue s)" "place_of s p = Some Buried \<longleftrightarrow> p \<in> set (deadLetter s)"
  using assms by (auto simp: place_of_def separate_def)

lemma separate_places:
  assumes "separate s"
  shows "p \<in> snd ` set (inFlight s) \<Longrightarrow> p \<notin> set (queue s) \<and> p \<notin> set (retryQueue s) \<and> p \<notin> set (deadLetter s)"
    "p \<in> set (retryQueue s) \<Longrightarrow> p \<notin> set (queue s) \<and> p \<notin> snd ` set (inFlight s) \<and> p \<notin> set (deadLetter s)"
    "p \<in> set (deadLetter s) \<Longrightarrow> p \<notin> set (queue s) \<and> p \<notin> snd ` set (inFlight s) \<and> p \<notin> set (retryQueue s)"
  using assms by (auto simp: separate_def)

section \<open>Each call moves its tasks\<close>

text \<open>In flight under a key is the one task with that identifier.\<close>

lemma flight_named:
  assumes "keyed m f"
  shows "(p \<in> snd ` set f \<and> tID (m p) = k) \<longleftrightarrow> gm_get f k = Some p"
  using assms by (force simp: keyed_def gm_get_iff_mem)

lemma del_flight:
  assumes "keyed m f" and "distinct (map snd f)" and "gm_get f k = Some p"
  shows "snd ` set (gm_del k f) = snd ` set f - {p}"
proof -
  have "mset (map snd f) = add_mset p (mset (map snd (gm_del k f)))"
    using mset_del [OF _ assms(3)] assms(1) by (simp only: keyed_def)
  then have "set (map snd f) = insert p (set (map snd (gm_del k f)))" "distinct (p # map snd (gm_del k f))"
    using assms(2) by (metis set_mset_add_mset_insert set_mset_mset, metis mset.simps(2) mset_eq_imp_distinct_iff)
  then show ?thesis by auto
qed

lemma precedes_Less: "precedes m = pq_Less m"
  by (auto simp: precedes_def pq_Less_def time_Before_def word_sless_alt fun_eq_iff)

lemma sim_Take:
  assumes inv: "pool_inv (m, s)" and d: "Dequeue m s = (r, s')"
  shows "board_step Take (m, place_of s) (m, place_of s')"
  using d
proof (cases rule: Dequeue_cases)
  case 1
  then show ?thesis using pool_separate [OF inv] by (simp add: place_iff)
next
  case (2 p q)
  have s: "separate s" using pool_separate [OF inv] by simp
  have q: "mset (queue s) = add_mset p (mset q)" using heap_Pop_mset [OF 2(1)] by simp
  then have set_q: "set (queue s) = insert p (set q)" by (metis set_mset_add_mset_insert set_mset_mset)
  have "distinct (p # q)" using s q by (metis distinct_append mset.simps(2) mset_eq_imp_distinct_iff separate_def)
  have "heap_ordered (pq_Less m) (queue s)" using inv by (simp add: pool_inv_def sched_inv_def)
  from pq.hq.pop_least [OF this 2(1)] have first: "\<forall>x \<in> set (queue s). \<not> pq_Less m x p" by (metis set_mset_mset)
  have "tID (m p) \<notin> gm_keys (inFlight s)"
    using inv set_q by (intro uniq_fresh) (auto simp: pool_inv_def sched_inv_def)
  then have f: "snd ` set (inFlight s') = insert p (snd ` set (inFlight s))" by (simp add: 2(4) gm_put_fresh)
  have "place_of s' = (place_of s)(p \<mapsto> Flying)"
    using set_q f 2(3,6) \<open>distinct (p # q)\<close> by (intro ext) (simp add: place_of_def same_rest_def)
  moreover have "place_of s p = Some Queued" using set_q s by (simp add: place_iff)
  ultimately show ?thesis using first s 2(2) by (auto simp: place_iff precedes_Less)
qed

lemma sim_Finish:
  assumes inv: "sched_inv m s" and s: "separate s"
    and c: "sched_Complete now k out code (m, s) = (r, m', s')"
  shows "board_step (Finish now k out code) (m, place_of s) (m', place_of s')"
proof -
  have ky: "keyed m (inFlight s)" using inv by (simp add: sched_inv_def)
  have hit: "place_of s p = Some Flying \<and> tID (m p) = k \<longleftrightarrow> gm_get (inFlight s) k = Some p" for p
    using flight_named [OF ky] s by (simp add: place_iff)
  show ?thesis
  proof (cases "gm_get (inFlight s) k")
    case None
    then have "m' = m" "s' = s" using c by (simp_all add: sched_Complete_def)
    then show ?thesis using None by (simp add: hit move_none)
  next
    case (Some p)
    have f: "snd ` set (gm_del k (inFlight s)) = snd ` set (inFlight s) - {p}"
      by (rule del_flight [OF ky _ Some]) (use s in \<open>simp add: separate_def\<close>)
    have p: "p \<in> snd ` set (inFlight s)" using flight_named [OF ky] Some by blast
    have s': "queue s' = queue s" "inFlight s' = gm_del k (inFlight s)" "retryQueue s' = retryQueue s" "deadLetter s' = deadLetter s"
      using c Some by (auto simp: sched_Complete_def)
    have "place_of s' = (place_of s)(p := None)"
      using separate_places(1) [OF s p] f by (intro ext) (simp add: s' place_of_def)
    moreover have "m' = m(p := ignore_err (m p) (task_Complete now out code (m p)))" using c Some by (auto simp: sched_Complete_def)
    moreover have "place_of s q = Some Flying \<and> tID (m q) = k \<longleftrightarrow> q = p" for q using Some by (auto simp: hit)
    ultimately show ?thesis by (simp add: move_one)
  qed
qed

lemma sim_Failed:
  assumes inv: "sched_inv m s" and s: "separate s"
    and c: "sched_Fail now rt k msg code (m, s) = (r, m', s')"
  shows "board_step (Failed now rt k msg code) (m, place_of s) (m', place_of s')"
proof -
  have ky: "keyed m (inFlight s)" using inv by (simp add: sched_inv_def)
  have hit: "place_of s p = Some Flying \<and> tID (m p) = k \<longleftrightarrow> gm_get (inFlight s) k = Some p" for p
    using flight_named [OF ky] s by (simp add: place_iff)
  show ?thesis
  proof (cases "gm_get (inFlight s) k")
    case None
    then have "m' = m" "s' = s" using c by (simp_all add: sched_Fail_def)
    then show ?thesis using None by (simp add: hit move_none)
  next
    case (Some p)
    have f: "snd ` set (gm_del k (inFlight s)) = snd ` set (inFlight s) - {p}"
      by (rule del_flight [OF ky _ Some]) (use s in \<open>simp add: separate_def\<close>)
    have p: "p \<in> snd ` set (inFlight s)" using flight_named [OF ky] Some by blast
    have m': "m' = m(p := failed_task now rt msg code (m p))"
      using c Some by (auto simp: sched_Fail_def retry_or_dead_def failed_task_def Let_def split: if_splits)
    have s': "queue s' = queue s" "inFlight s' = gm_del k (inFlight s)"
      "deadLetter s' = deadLetter s @ (if tState (m' p) = StateDead then [p] else [])"
      "retryQueue s' = retryQueue s @ (if tState (m' p) = StateDead then [] else [p])"
      using c Some by (auto simp: sched_Fail_def retry_or_dead_def Let_def split: if_splits)
    have "place_of s' = (place_of s)(p := after_failure (m' p))"
      using separate_places(1) [OF s p] f by (intro ext) (simp add: s' place_of_def after_failure_def)
    moreover have "place_of s q = Some Flying \<and> tID (m q) = k \<longleftrightarrow> q = p" for q using Some by (auto simp: hit)
    ultimately show ?thesis by (simp add: move_one m')
  qed
qed

lemma sim_WorkerGone:
  assumes inv: "sched_inv m s" and s: "separate s" and ok: "range_ok ks (inFlight s)"
    and c: "RequeueFromWorker ks w (m, s) = (n, m', s')"
  shows "board_step (WorkerGone ks w) (m, place_of s) (m', place_of s')"
proof -
  define hit where "hit = filter (\<lambda>(k, p). tWorkerID (m p) = w) (inFlight s)"
  note X = RequeueFromWorker_exact [OF inv ok c hit_def]
  have hit: "p \<in> snd ` set hit \<longleftrightarrow> place_of s p = Some Flying \<and> tWorkerID (m p) = w" for p
    using s by (force simp: hit_def place_iff)
  have "mset (queue s') = mset (queue s @ map snd hit)" using X by simp
  then have q: "set (queue s') = set (queue s) \<union> snd ` set hit" by (metis list.set_map mset_eq_setD set_append)
  have rest: "retryQueue s' = retryQueue s" "deadLetter s' = deadLetter s" using X by (simp_all add: same_rest_def)
  have f: "snd ` set (inFlight s') = snd ` set (inFlight s) - snd ` set hit" using X by (force simp: hit_def)
  have "place_of s' p = (if p \<in> snd ` set hit then Some Queued else place_of s p)" for p
    by (simp add: place_of_def q f rest)
  moreover have "m' = (\<lambda>p. if p \<in> snd ` set hit then requeued (m p) else m p)" using X by blast
  ultimately show ?thesis by (simp add: move_tasks_def hit fun_eq_iff)
qed

lemma sim_Retries:
  assumes s: "separate s" and c: "ProcessRetries now (m, s) = (n, m', s')"
  shows "board_step (Retries now) (m, place_of s) (m', place_of s')"
proof -
  define due where "due = filter (\<lambda>p. time_After now (tNextRetryAt (m p))) (retryQueue s)"
  note X = ProcessRetries_exact [OF c due_def]
  have hit: "p \<in> set due \<longleftrightarrow> place_of s p = Some Waiting \<and> time_After now (tNextRetryAt (m p))" for p
    using s by (auto simp: due_def place_iff)
  have "mset (queue s') = mset (queue s @ due)" using X by simp
  then have q: "set (queue s') = set (queue s) \<union> set due" by (metis mset_eq_setD set_append)
  have "place_of s' p = (if p \<in> set due then Some Queued else place_of s p)" for p
    using X by (simp add: place_of_def q) (auto simp: due_def)
  then show ?thesis using X by (auto simp: move_tasks_def hit fun_eq_iff)
qed

lemma sim_Timeouts:
  assumes inv: "sched_inv m s" and s: "separate s" and ok: "range_ok ks (inFlight s)"
    and c: "CheckTimeouts now env ks (m, s) = (n, m', s')"
  shows "board_step (Timeouts now env ks) (m, place_of s) (m', place_of s')"
proof -
  obtain out where out: "set out = {p \<in> gm_ran (inFlight s). timed_out now (m p)}"
    and X: "m' = (\<lambda>p. if p \<in> set out then expired (env p) (m p) else m p)"
      "inFlight s' = filter (\<lambda>(k, p). \<not> timed_out now (m p)) (inFlight s)"
      "deadLetter s' = deadLetter s @ filter (\<lambda>p. tState (m' p) = StateDead) out"
      "retryQueue s' = retryQueue s @ filter (\<lambda>p. tState (m' p) \<noteq> StateDead) out" "queue s' = queue s"
    using CheckTimeouts_exact [OF inv ok c] by blast
  have hit: "p \<in> set out \<longleftrightarrow> place_of s p = Some Flying \<and> timed_out now (m p)" for p
    using s by (simp add: out place_iff gm_ran_def)
  have f: "snd ` set (inFlight s') = snd ` set (inFlight s) - set out" by (force simp: X(2) out gm_ran_def)
  have "place_of s' p = (if p \<in> set out then after_failure (m' p) else place_of s p)" for p
  proof (cases "p \<in> set out")
    case True
    then have "p \<in> snd ` set (inFlight s)" by (simp add: out gm_ran_def)
    from separate_places(1) [OF s this] True show ?thesis by (simp add: place_of_def f X(3-5) after_failure_def)
  next
    case False
    then show ?thesis by (simp add: place_of_def f X(3-5))
  qed
  then show ?thesis using X(1) by (auto simp: move_tasks_def hit fun_eq_iff)
qed

lemma sim_Revive:
  assumes inv: "pool_inv (m, s)" and c: "sched_RetryFromDLQ k (m, s) = (b, m', s')"
  shows "board_step (Revive k) (m, place_of s) (m', place_of s')"
proof -
  have s: "separate s" and inj: "inj_on (\<lambda>p. tID (m p)) (set_mset (live s))" using pool_separate [OF inv] by simp_all
  have hit: "place_of s p = Some Buried \<and> tID (m p) = k \<longleftrightarrow> p \<in> set (deadLetter s) \<and> tID (m p) = k" for p
    using s by (simp add: place_iff)
  show ?thesis
  proof (cases "dropWhile (\<lambda>p. tID (m p) \<noteq> k) (deadLetter s)")
    case Nil
    then have "\<forall>p \<in> set (deadLetter s). tID (m p) \<noteq> k" by (simp add: dropWhile_eq_Nil_conv)
    moreover have "m' = m" "s' = s" using c Nil by (simp_all add: sched_RetryFromDLQ_def dlq_loop_result del: dropWhile_eq_Nil_conv)
    ultimately show ?thesis by (auto simp: hit move_none)
  next
    case (Cons p post)
    have split: "deadLetter s = takeWhile (\<lambda>p. tID (m p) \<noteq> k) (deadLetter s) @ p # post" using Cons by (metis takeWhile_dropWhile_id)
    have p: "p \<in> set (deadLetter s)" "tID (m p) = k"
      using split Cons hd_dropWhile [of "\<lambda>p. tID (m p) \<noteq> k" "deadLetter s"] by (metis in_set_conv_decomp, auto)
    have one: "place_of s q = Some Buried \<and> tID (m q) = k \<longleftrightarrow> q = p" for q
      using p inj unfolding hit by (auto simp: inj_on_def live_def)
    have s': "m' = m(p := ignore_err (m p) (task_RetryFromDLQ (m p)))" "set (queue s') = insert p (set (queue s))"
      "inFlight s' = inFlight s" "retryQueue s' = retryQueue s"
      "deadLetter s' = takeWhile (\<lambda>p. tID (m p) \<noteq> k) (deadLetter s) @ post"
      using c Cons by (auto simp: sched_RetryFromDLQ_def dlq_loop_result Let_def push_queue_def Notify_def
          mset_heap_Push [THEN arg_cong, of set_mset, simplified])
    have "distinct (deadLetter s)" using s by (simp add: separate_def)
    then have "set (deadLetter s') = set (deadLetter s) - {p}"
      unfolding s'(5) by (subst (2) split, subst (asm) split) auto
    then have "place_of s' = (place_of s)(p \<mapsto> Queued)"
      by (intro ext) (simp add: place_of_def s'(2-4))
    then show ?thesis by (simp add: one move_one s'(1))
  qed
qed

lemma sim_Submit:
  assumes "p \<notin># live s"
  shows "place_of (Enqueue m p s) = (place_of s)(p \<mapsto> Queued)"
proof -
  have "set (queue (Enqueue m p s)) = insert p (set (queue s))"
    using mset_heap_Push [of "pq_Less m" p "queue s"] by (simp add: Enqueue_def push_queue_def Notify_def)
  then show ?thesis by (intro ext) (simp add: place_of_def, simp add: Enqueue_def push_queue_def Notify_def)
qed

section \<open>The scheduler implements the board\<close>

lemma sim_exec:
  assumes inv: "pool_inv (m, s)" and en: "op_enabled a (m, s)"
  shows "board_step a (m, place_of s) (board_of (exec_op a (m, s)))"
proof -
  have i: "sched_inv m s" "separate s" using inv pool_separate [OF inv] by (simp_all add: pool_inv_def)
  show ?thesis
  proof (cases a)
    case (Submit p t)
    with en show ?thesis by (simp add: board_of_def sim_Submit)
  next
    case Take
    obtain r s' where "Dequeue m s = (r, s')" by force
    with sim_Take [OF inv this] Take show ?thesis by (simp add: board_of_def del: board_step.simps)
  next
    case (Finish now k out code)
    obtain r m' s' where "sched_Complete now k out code (m, s) = (r, m', s')" by (metis prod_cases3)
    with sim_Finish [OF i this] Finish show ?thesis by (simp add: board_of_def)
  next
    case (Failed now rt k msg code)
    obtain r m' s' where "sched_Fail now rt k msg code (m, s) = (r, m', s')" by (metis prod_cases3)
    with sim_Failed [OF i this] Failed show ?thesis by (simp add: board_of_def)
  next
    case (WorkerGone ks w)
    obtain r m' s' where "RequeueFromWorker ks w (m, s) = (r, m', s')" by (metis prod_cases3)
    with sim_WorkerGone [OF i _ this] en WorkerGone show ?thesis by (simp add: board_of_def)
  next
    case (Retries now)
    obtain r m' s' where "ProcessRetries now (m, s) = (r, m', s')" by (metis prod_cases3)
    with sim_Retries [OF i(2) this] Retries show ?thesis by (simp add: board_of_def)
  next
    case (Timeouts now env ks)
    obtain r m' s' where "CheckTimeouts now env ks (m, s) = (r, m', s')" by (metis prod_cases3)
    with sim_Timeouts [OF i _ this] en Timeouts show ?thesis by (simp add: board_of_def)
  next
    case (Revive k)
    obtain r m' s' where "sched_RetryFromDLQ k (m, s) = (r, m', s')" by (metis prod_cases3)
    with sim_Revive [OF inv this] Revive show ?thesis by (simp add: board_of_def)
  next
    case (Touch p t)
    then show ?thesis by (simp add: board_of_def)
  qed
qed

interpretation board: implementation op_enabled exec_op pool_inv board_of board_step
proof
  show "pool_inv st \<Longrightarrow> op_enabled a st \<Longrightarrow> pool_inv (exec_op a st)" for st a
    by (cases st) (simp add: pool_inv_exec)
  show "pool_inv st \<Longrightarrow> op_enabled a st \<Longrightarrow> board_step a (board_of st) (board_of (exec_op a st))" for st a
    using sim_exec by (cases st) (simp add: board_of_def)
qed

lemma place_count:
  assumes "separate s"
  shows "card {p. place_of s p = Some Queued} = length (queue s)" "card {p. place_of s p = Some Flying} = length (inFlight s)"
    "card {p. place_of s p = Some Waiting} = length (retryQueue s)" "card {p. place_of s p = Some Buried} = length (deadLetter s)"
proof -
  have "card (set (map snd (inFlight s))) = length (inFlight s)"
    using assms distinct_card [of "map snd (inFlight s)"] by (simp add: separate_def)
  then show "card {p. place_of s p = Some Flying} = length (inFlight s)" by (simp add: place_iff [OF assms])
qed (use assms in \<open>simp_all add: place_iff distinct_card separate_def\<close>)



end
