(* ===== verification/FailureDetector.thy ===== *)
theory FailureDetector
  imports Dispatch
begin

text \<open>
  The health checker as a failure detector, in the running service: heartbeats, health checks and
  everything else interleaved. A worker whose heartbeats are in time is never suspected, and one that
  has fallen silent is declared dead by the second check after its limits.
\<close>

section \<open>What a step does to one worker's record\<close>

definition beat_next :: "time \<Rightarrow> heartbeat \<Rightarrow> worker_info \<Rightarrow> worker_info" where
  "beat_next t hb w =
     w\<lparr>wiLastHeartbeat := t, wiActiveTasks := hbActiveTasks hb,
       wiState := (if wiState w = WORKER_SUSPECT then WORKER_ACTIVE else wiState w)\<rparr>"

definition stream_next :: "step_in \<Rightarrow> stream \<Rightarrow> string \<Rightarrow> worker_info \<Rightarrow> worker_info" where
  "stream_next x st k w =
     (if stWorker st \<noteq> k then w
      else if stPc st = PcRegister
        then \<lparr>wiID = k, wiHostname = stHostname st, wiState = WORKER_ACTIVE, wiStartTime = stStart st,
              wiLastHeartbeat = si_now x, wiActiveTasks = 0\<rparr>
      else if stPc st = PcMarkDead then w\<lparr>wiState := WORKER_DEAD\<rparr> else w)"

definition record_next :: "string \<Rightarrow> dact \<Rightarrow> dsys \<Rightarrow> worker_info \<Rightarrow> worker_info" where
  "record_next k a d w =
     (case a of
        Beat t hb \<Rightarrow> if hbWorkerId hb = k then beat_next t hb w else w
      | Tick (HealthTick now pub ks) \<Rightarrow> health_next now (hbTimeout (nd d)) (deadTimeout (nd d)) w
      | Move i x \<Rightarrow> (case streams d i of None \<Rightarrow> w | Some st \<Rightarrow> stream_next x st k w)
      | _ \<Rightarrow> w)"

lemma publishEvent_workers:
  "publishEvent now ty data n = Some n' \<Longrightarrow>
     workers n' = workers n \<and> hbTimeout n' = hbTimeout n \<and> deadTimeout n' = deadTimeout n"
  by (auto simp: publishEvent_def split: option.splits)

definition limits :: "node \<Rightarrow> duration \<times> duration" where
  "limits n = (hbTimeout n, deadTimeout n)"

lemma publish_settle_workers:
  assumes "workers n = workers (nd d)" "limits n = limits (nd d)"
  shows "workers (nd (settle (publishEvent now ty data n) d)) = workers (nd d) \<and>
    limits (nd (settle (publishEvent now ty data n) d)) = limits (nd d)"
  using assms by (auto simp: settle_def limits_def dest: publishEvent_workers split: option.split)

lemma stream_step_record:
  assumes "stream_step i x st c d = Some d'" "c = stPc st" "gm_get (workers (nd d)) k = Some w"
  shows "gm_get (workers (nd d')) k = Some (stream_next x st k w) \<and> limits (nd d') = limits (nd d)"
proof (cases c)
  case PcAnnounce
  let ?n = "observe [WorkersConnectedInc] (nd d)"
  have "workers ?n = workers (nd d)" "limits ?n = limits (nd d)" by (simp_all add: limits_def)
  note pub = publish_settle_workers [OF this]
  show ?thesis using assms PcAnnounce by (auto simp: goto_pc_def pub stream_next_def)
next
  case (PcSent p)
  note pub = publish_settle_workers [of "nd d" d, OF refl refl]
  have "stPc st = PcSent p" using PcSent assms(2) by simp
  then show ?thesis using assms(1) [unfolded PcSent] assms(3) by (auto simp: goto_pc_def pub stream_next_def)
next
  case PcGoodbye
  note pub = publish_settle_workers [of "nd d" d, OF refl refl]
  show ?thesis using assms PcGoodbye by (auto simp: goto_pc_def pub stream_next_def)
qed (use assms in \<open>auto simp: goto_pc_def Let_def set_task_def register_worker_def mark_dead_def stream_next_def limits_def
      split: if_splits prod.splits option.splits\<close>)

lemma dstep_record:
  assumes inv: "service_inv d" and step: "dstep a d = Some d'" and get: "gm_get (workers (nd d)) k = Some w"
  shows "gm_get (workers (nd d')) k = Some (record_next k a d w) \<and> limits (nd d') = limits (nd d)"
proof (cases a)
  case (Move i x)
  then obtain st where st: "streams d i = Some st" "stream_step i x st (stPc st) d = Some d'" using step by (auto split: option.splits)
  from stream_step_record [OF st(2) refl get] Move st(1) show ?thesis by (simp add: record_next_def)
next
  case (Report env rep)
  obtain cb rs where g: "reg_Get (rWorkerId rep) (regs (nd d)) = (cb, rs)" by fastforce
  from report_effect [OF service_bus [OF inv] g] obtain n' where
    "ReportTaskStatus env rep (nd d) = Some n'" "workers n' = workers (nd d)" "node_frame (nd d) n'" by blast
  with step Report get show ?thesis by (auto simp: settle_def record_next_def limits_def node_frame_def)
next
  case (Beat t hb)
  have "d' = d\<lparr>nd := SendHeartbeat t hb (nd d)\<rparr>" using step Beat by simp
  then show ?thesis using get Beat
    by (auto simp: record_next_def beat_next_def SendHeartbeat_def Let_def limits_def split: option.split)
next
  case (Tick tk)
  have ok: "tick_ok tk (nd d)" using step Tick by (auto split: if_splits)
  show ?thesis
  proof (cases tk)
    case (HealthTick now pub ks)
    with ok obtain n' where n': "checkWorkerHealth now pub ks (nd d) = Some n'" "workers_only (nd d) n'"
      "\<forall>k. gm_get (workers n') k = map_option (health_next now (hbTimeout (nd d)) (deadTimeout (nd d))) (gm_get (workers (nd d)) k)"
      using checkWorkerHealth_effect [OF service_bus [OF inv]] by fastforce
    with step Tick HealthTick get show ?thesis
      by (auto simp: settle_def record_next_def limits_def workers_only_def node_frame_def split: if_splits)
  qed (use step Tick get in \<open>auto simp: settle_def record_next_def limits_def split: if_splits prod.splits\<close>)
next
  case (SubmitTask t)
  with step get show ?thesis
    by (auto simp: enqueue_new_def alloc_task_def enqueue_def Let_def record_next_def limits_def split: if_splits)
qed (use step get in \<open>auto simp: record_next_def limits_def DisconnectWorker_def on_breaker_def split: if_splits prod.splits option.splits\<close>)

section \<open>Runs\<close>

text \<open>
  A run in which every health check comes within the heartbeat limit of worker \<open>k\<close>'s last heartbeat
  (\<open>prev\<close> so far) and no stream of \<open>k\<close> registers it anew or ends; and one in which \<open>k\<close> sends no
  heartbeat and does not register.
\<close>

definition stream_quiet :: "stream_pc set \<Rightarrow> string \<Rightarrow> dact \<Rightarrow> dsys \<Rightarrow> bool" where
  "stream_quiet places k a d \<longleftrightarrow>
     (case a of Move i x \<Rightarrow> (case streams d i of None \<Rightarrow> True | Some st \<Rightarrow> stWorker st = k \<longrightarrow> stPc st \<notin> places) | _ \<Rightarrow> True)"

fun timely :: "string \<Rightarrow> time \<Rightarrow> dact list \<Rightarrow> dsys \<Rightarrow> bool" where
  "timely k prev [] d = True"
| "timely k prev (a # as) d =
     ((case a of Tick (HealthTick now pub ks) \<Rightarrow> now - prev \<le> sint (hbTimeout (nd d)) | _ \<Rightarrow> True) \<and>
      stream_quiet {PcRegister, PcMarkDead} k a d \<and>
      (case dstep a d of None \<Rightarrow> True
       | Some d' \<Rightarrow> timely k (case a of Beat t hb \<Rightarrow> if hbWorkerId hb = k then t else prev | _ \<Rightarrow> prev) as d'))"

fun silent :: "string \<Rightarrow> dact list \<Rightarrow> dsys \<Rightarrow> bool" where
  "silent k [] d = True"
| "silent k (a # as) d =
     ((case a of Beat t hb \<Rightarrow> hbWorkerId hb \<noteq> k | _ \<Rightarrow> True) \<and> stream_quiet {PcRegister} k a d \<and>
      (case dstep a d of None \<Rightarrow> True | Some d' \<Rightarrow> silent k as d'))"

definition late_check :: "time \<Rightarrow> dact \<Rightarrow> bool" where
  "late_check limit a \<longleftrightarrow> (case a of Tick (HealthTick now pub ks) \<Rightarrow> limit < now | _ \<Rightarrow> False)"

text \<open>In time, the record stays \<open>ACTIVE\<close> and remembers the last heartbeat.\<close>

lemma record_timely:
  assumes "wiState w = WORKER_ACTIVE" and "timely k (wiLastHeartbeat w) (a # as) d"
  shows "wiState (record_next k a d w) = WORKER_ACTIVE \<and>
    wiLastHeartbeat (record_next k a d w) = (case a of Beat t hb \<Rightarrow> if hbWorkerId hb = k then t else wiLastHeartbeat w | _ \<Rightarrow> wiLastHeartbeat w)"
  using assms by (auto simp: record_next_def beat_next_def health_next_def stream_next_def stream_quiet_def time_Sub_greater
      split: dact.splits tick.splits option.splits)

lemma timely_active:
  "service_inv d \<Longrightarrow> gm_get (workers (nd d)) k = Some w \<Longrightarrow> wiState w = WORKER_ACTIVE \<Longrightarrow> timely k (wiLastHeartbeat w) as d \<Longrightarrow>
     drun as d = Some d' \<Longrightarrow> \<exists>w'. gm_get (workers (nd d')) k = Some w' \<and> wiState w' = WORKER_ACTIVE"
proof (induction as arbitrary: d w)
  case (Cons a as)
  from Cons.prems(5) obtain d1 where d1: "dstep a d = Some d1" "drun as d1 = Some d'" by (auto split: option.splits)
  have g: "gm_get (workers (nd d1)) k = Some (record_next k a d w)" using dstep_record [OF Cons.prems(1) d1(1) Cons.prems(2)] by simp
  note R = record_timely [OF Cons.prems(3,4)]
  have "timely k (wiLastHeartbeat (record_next k a d w)) as d1"
    using Cons.prems(4) d1(1) R by (simp del: dstep.simps cong: dact.case_cong)
  with Cons.IH [OF dstep_inv [OF Cons.prems(1) d1(1)] g _ _ d1(2)] R show ?case by blast
qed simp

text \<open>How far a worker is from being declared dead.\<close>

fun rank :: "worker_state \<Rightarrow> nat" where
  "rank WORKER_ACTIVE = 2"
| "rank WORKER_SUSPECT = 1"
| "rank WORKER_DEAD = 0"
| "rank _ = 3"

lemma record_silent:
  assumes "rank (wiState w) \<le> 2" and "silent k (a # as) d"
    and lim: "sint (hbTimeout (nd d)) < 9223372036854775807" "sint (deadTimeout (nd d)) < 9223372036854775807"
    and late: "limit = wiLastHeartbeat w + max (sint (hbTimeout (nd d))) (sint (deadTimeout (nd d)))"
  shows "rank (wiState (record_next k a d w)) \<le> rank (wiState w) - of_bool (late_check limit a) \<and>
    wiLastHeartbeat (record_next k a d w) = wiLastHeartbeat w"
  using assms by (cases "wiState w") (auto simp: record_next_def health_next_def stream_next_def stream_quiet_def late_check_def time_Sub_greater
      split: dact.splits tick.splits option.splits)

lemma silent_dead:
  "service_inv d \<Longrightarrow> gm_get (workers (nd d)) k = Some w \<Longrightarrow> rank (wiState w) \<le> 2 \<Longrightarrow> silent k as d \<Longrightarrow> drun as d = Some d' \<Longrightarrow>
     sint (hbTimeout (nd d)) < 9223372036854775807 \<Longrightarrow> sint (deadTimeout (nd d)) < 9223372036854775807 \<Longrightarrow>
     limit = wiLastHeartbeat w + max (sint (hbTimeout (nd d))) (sint (deadTimeout (nd d))) \<Longrightarrow>
     \<exists>w'. gm_get (workers (nd d')) k = Some w' \<and> rank (wiState w') \<le> rank (wiState w) - length (filter (late_check limit) as)"
proof (induction as arbitrary: d w)
  case (Cons a as)
  from Cons.prems(5) obtain d1 where d1: "dstep a d = Some d1" "drun as d1 = Some d'" by (auto split: option.splits)
  let ?w = "record_next k a d w"
  have g: "gm_get (workers (nd d1)) k = Some ?w" and l: "limits (nd d1) = limits (nd d)"
    using dstep_record [OF Cons.prems(1) d1(1) Cons.prems(2)] by simp_all
  note R = record_silent [OF Cons.prems(3,4,6-8)]
  have "rank (wiState ?w) \<le> 2" using R Cons.prems(3) by linarith
  moreover have s: "silent k as d1" using Cons.prems(4) d1(1) by (simp del: dstep.simps)
  ultimately have "\<exists>w'. gm_get (workers (nd d')) k = Some w' \<and> rank (wiState w') \<le> rank (wiState ?w) - length (filter (late_check limit) as)"
    by (intro Cons.IH [OF dstep_inv [OF Cons.prems(1) d1(1)] g _ _ d1(2)])
      (use R l Cons.prems(3,6-8) in \<open>simp_all add: limits_def\<close>)
  with R show ?case by fastforce
qed simp

text \<open>C19: The health checker detects failures. In every run of the service from a reachable state, whatever else
  happens in between: a worker that is \<open>ACTIVE\<close>, keeps its stream and whose last heartbeat is within
  \<open>HeartbeatTimeout\<close> at every check stays \<open>ACTIVE\<close>; and a worker that sends no more heartbeats is \<open>DEAD\<close>
  after any two checks later than both limits after its last one.\<close>

theorem failure_detector:
  assumes "reach service_start service_step d" and "gm_get (workers (nd d)) k = Some w" and "drun as d = Some d'"
  shows "(wiState w = WORKER_ACTIVE \<and> timely k (wiLastHeartbeat w) as d \<longrightarrow>
      (\<exists>w'. gm_get (workers (nd d')) k = Some w' \<and> wiState w' = WORKER_ACTIVE)) \<and>
    (wiState w \<in> {WORKER_ACTIVE, WORKER_SUSPECT} \<and> silent k as d \<and>
       sint (hbTimeout (nd d)) < 9223372036854775807 \<and> sint (deadTimeout (nd d)) < 9223372036854775807 \<and>
       2 \<le> length (filter (late_check (wiLastHeartbeat w + max (sint (hbTimeout (nd d))) (sint (deadTimeout (nd d))))) as) \<longrightarrow>
      (\<exists>w'. gm_get (workers (nd d')) k = Some w' \<and> wiState w' = WORKER_DEAD))"
proof -
  have inv: "service_inv d" using service.reach_inv [OF assms(1)] .
  have dead: "rank x = 0 \<Longrightarrow> x = WORKER_DEAD" for x by (cases x) simp_all
  show ?thesis
    using timely_active [OF inv assms(2) _ _ assms(3)] silent_dead [OF inv assms(2) _ _ assms(3) _ _ refl] dead by fastforce
qed

text \<open>A worker registers at 6; later it beats in time, or falls silent.\<close>

definition beating :: "dact list" where
  "beating = [Beat 20000000000 \<lparr>hbWorkerId = ''w'', hbActiveTasks = 0\<rparr>, Tick (HealthTick 50000000000 (\<lambda>_. 0) [''w''])]"

definition falling_silent :: "dact list" where
  "falling_silent = [Tick (HealthTick 61000000000 (\<lambda>_. 0) [''w'']), Tick (HealthTick 62000000000 (\<lambda>_. 0) [''w''])]"

theorem failure_detector_witness:
  "\<exists>d d1 d2. drun [Open 0 ''w'' ''h'' 1, Move 0 (go 5), Move 0 (go 6)] demo_start = Some d \<and>
     drun beating d = Some d1 \<and> map_option wiState (gm_get (workers (nd d1)) ''w'') = Some WORKER_ACTIVE \<and>
     drun falling_silent d = Some d2 \<and> map_option wiState (gm_get (workers (nd d2)) ''w'') = Some WORKER_DEAD"
proof -
  let ?as = "[Open 0 ''w'' ''h'' 1, Move 0 (go 5), Move 0 (go 6)]"
  let ?w = "\<lparr>wiID = ''w'', wiHostname = ''h'', wiState = WORKER_ACTIVE, wiStartTime = 1, wiLastHeartbeat = 6, wiActiveTasks = 0\<rparr>"
  have "map_option (\<lambda>d. (gm_get (workers (nd d)) ''w'', limits (nd d))) (drun ?as demo_start) = Some (Some ?w, 30 * Second, 60 * Second)"
    by code_simp
  moreover have "map_option (\<lambda>d. (timely ''w'' 6 beating d, drun beating d = None, silent ''w'' falling_silent d, drun falling_silent d = None))
      (drun ?as demo_start) = Some (True, False, True, False)" by code_simp
  ultimately obtain d d1 d2 where d: "drun ?as demo_start = Some d" "gm_get (workers (nd d)) ''w'' = Some ?w" "limits (nd d) = (30 * Second, 60 * Second)"
    "timely ''w'' 6 beating d" "drun beating d = Some d1" "silent ''w'' falling_silent d" "drun falling_silent d = Some d2" by auto
  have r: "reach service_start service_step d" using demo_reach d(1) by (rule drun_reach)
  have lim: "sint (hbTimeout (nd d)) = 30000000000" "sint (deadTimeout (nd d)) = 60000000000"
    using d(3) by (simp_all add: limits_def Second_def)
  have "length (filter (late_check (wiLastHeartbeat ?w + max (sint (hbTimeout (nd d))) (sint (deadTimeout (nd d))))) falling_silent) = 2"
    by (simp add: lim falling_silent_def late_check_def)
  then show ?thesis
    using failure_detector [OF r d(2,5)] failure_detector [OF r d(2,7)] d lim by auto
qed

section \<open>Killing a worker\<close>

lemma clean_up:
  assumes inv: "service_inv d" and st: "streams d i = Some st" "stPc st = PcSelect" "cancelled (nd d) i"
    and x: "si_done x" "range_ok (si_order x) (inFlight (sched (nd d)))"
    and r: "RequeueFromWorker (si_order x) (stWorker st) (heap (nd d), sched (nd d)) = (n, m, s)"
  shows "\<exists>d'. drun (replicate 6 (Move i x)) d = Some d' \<and> streams d' i = Some (st\<lparr>stPc := PcDone\<rparr>) \<and>
    heap (nd d') = m \<and> sched (nd d') = s \<and>
    gm_get (workers (nd d')) (stWorker st) = map_option (\<lambda>w. w\<lparr>wiState := WORKER_DEAD\<rparr>) (gm_get (workers (nd d)) (stWorker st))"
proof -
  define n1 where "n1 = (observe [WorkersConnectedDec] ((nd d)\<lparr>workerStreams := gm_del (stWorker st) (workerStreams (nd d))\<rparr>))\<lparr>heap := m, sched := s\<rparr>"
  define d1 where "d1 = d\<lparr>nd := mark_dead (stWorker st) n1, streams := (streams d)(i := Some (st\<lparr>stPc := PcGoodbye\<rparr>))\<rparr>"
  have "drun (replicate 4 (Move i x)) d = Some d1"
    using st x r by (simp add: eval_nat_numeral goto_pc_def Let_def d1_def n1_def)
  moreover have "node_bus_ok (nd d1)"
    using service_bus [OF inv] by (auto simp: d1_def n1_def mark_dead_def node_bus_ok_def split: option.splits)
  then obtain b where "publishEvent (si_now x) EventWorkerDisconnected [(''worker_id'', EvStr (stWorker st))] (nd d1) = Some ((nd d1)\<lparr>evbus := b\<rparr>)"
    by (rule publishEvent_ok)
  then have "drun (replicate 2 (Move i x)) d1 = Some (d1\<lparr>nd := (nd d1)\<lparr>evbus := b, cancelled := (cancelled (nd d1))(i := True)\<rparr>,
      streams := (streams d)(i := Some (st\<lparr>stPc := PcDone\<rparr>))\<rparr>)"
    by (simp add: eval_nat_numeral goto_pc_def d1_def settle_def)
  moreover have "drun (as @ bs) c = (case drun as c of None \<Rightarrow> None | Some c1 \<Rightarrow> drun bs c1)" for as bs c
    by (induction as arbitrary: c) (auto split: option.split)
  moreover have "replicate 6 (Move i x) = replicate 4 (Move i x) @ replicate 2 (Move i x)" by (simp add: eval_nat_numeral)
  ultimately show ?thesis
    by (auto simp: d1_def n1_def mark_dead_def split: option.split)
qed

text \<open>C20: Killing a worker brings its tasks back. When the chaos endpoint disconnects a connected worker whose
  stream waits for work, six steps of that stream end it, and then every task in flight on that worker
  is queued again with a signal pending and no worker, no other task has changed, and the worker's
  record is \<open>DEAD\<close>.\<close>

theorem killed_worker_returns_tasks:
  assumes "reach service_start service_step d"
    and st: "streams d i = Some st" "stPc st = PcSelect" and reg: "gm_get (workerStreams (nd d)) (stWorker st) = Some i"
    and x: "si_done x" "range_ok (si_order x) (inFlight (sched (nd d)))"
  shows "\<exists>d'. drun (Kill (stWorker st) # replicate 6 (Move i x)) d = Some d' \<and> streams d' i = Some (st\<lparr>stPc := PcDone\<rparr>) \<and>
    (\<forall>w. gm_get (workers (nd d')) (stWorker st) = Some w \<longrightarrow> wiState w = WORKER_DEAD) \<and>
    (\<forall>p. if p \<in> gm_ran (inFlight (sched (nd d))) \<and> tWorkerID (heap (nd d) p) = stWorker st
         then p \<in> set (queue (sched (nd d'))) \<and> p \<notin> gm_ran (inFlight (sched (nd d'))) \<and> notify (sched (nd d')) \<and>
           tState (heap (nd d') p) = StateQueued \<and> tWorkerID (heap (nd d') p) = []
         else heap (nd d') p = heap (nd d) p \<and> (p \<in> gm_ran (inFlight (sched (nd d'))) \<longleftrightarrow> p \<in> gm_ran (inFlight (sched (nd d)))))"
proof -
  have inv: "service_inv d" using service.reach_inv [OF assms(1)] .
  let ?n = "(nd d)\<lparr>cancelled := (cancelled (nd d))(i := True)\<rparr>" and ?w = "stWorker st"
  have kill: "dstep (Kill ?w) d = Some (d\<lparr>nd := ?n\<rparr>)" using reg by (simp add: DisconnectWorker_def)
  have inv1: "service_inv (d\<lparr>nd := ?n\<rparr>)" by (rule dstep_inv [OF inv kill])
  obtain c m s where r: "RequeueFromWorker (si_order x) ?w (heap (nd d), sched (nd d)) = (c, m, s)" by (metis prod_cases3)
  obtain d' where d': "drun (replicate 6 (Move i x)) (d\<lparr>nd := ?n\<rparr>) = Some d'" "streams d' i = Some (st\<lparr>stPc := PcDone\<rparr>)"
    "heap (nd d') = m" "sched (nd d') = s" "gm_get (workers (nd d')) ?w = map_option (\<lambda>w. w\<lparr>wiState := WORKER_DEAD\<rparr>) (gm_get (workers (nd d)) ?w)"
    using clean_up [OF inv1, of i st x c m s] st x r by auto
  have si: "sched_inv (heap (nd d)) (sched (nd d))" using inv by (simp add: service_inv_def core_inv_def)
  define hit where "hit = filter (\<lambda>(k, p). tWorkerID (heap (nd d) p) = ?w) (inFlight (sched (nd d)))"
  note X = RequeueFromWorker_exact [OF si x(2) r hit_def]
  have hit: "p \<in> snd ` set hit \<longleftrightarrow> p \<in> gm_ran (inFlight (sched (nd d))) \<and> tWorkerID (heap (nd d) p) = ?w" for p
    by (force simp: hit_def gm_ran_def)
  have fly: "p \<in> gm_ran (inFlight s) \<longleftrightarrow> p \<in> gm_ran (inFlight (sched (nd d))) \<and> p \<notin> snd ` set hit" for p
    using X by (force simp: hit_def gm_ran_def)
  have "mset (queue s) = mset (queue (sched (nd d)) @ map snd hit)" using X by simp
  then have q: "set (queue s) = set (queue (sched (nd d))) \<union> snd ` set hit" by (metis list.set_map mset_eq_setD set_append)
  have m: "m = (\<lambda>p. if p \<in> snd ` set hit then requeued (heap (nd d) p) else heap (nd d) p)" and nt: "p \<in> snd ` set hit \<Longrightarrow> notify s" for p
    using X by (blast, auto)
  have "if p \<in> snd ` set hit
      then p \<in> set (queue s) \<and> p \<notin> gm_ran (inFlight s) \<and> notify s \<and> tState (m p) = StateQueued \<and> tWorkerID (m p) = []
      else m p = heap (nd d) p \<and> (p \<in> gm_ran (inFlight s) \<longleftrightarrow> p \<in> gm_ran (inFlight (sched (nd d))))" for p
    using q fly m nt by (auto simp: requeued_def)
  then have "if p \<in> gm_ran (inFlight (sched (nd d))) \<and> tWorkerID (heap (nd d) p) = ?w
      then p \<in> set (queue (sched (nd d'))) \<and> p \<notin> gm_ran (inFlight (sched (nd d'))) \<and> notify (sched (nd d')) \<and>
           tState (heap (nd d') p) = StateQueued \<and> tWorkerID (heap (nd d') p) = []
      else heap (nd d') p = heap (nd d) p \<and> (p \<in> gm_ran (inFlight (sched (nd d'))) \<longleftrightarrow> p \<in> gm_ran (inFlight (sched (nd d))))" for p
    by (simp only: hit d'(3,4))
  moreover have "drun (Kill ?w # replicate 6 (Move i x)) d = Some d'" using kill d'(1) by (simp del: dstep.simps)
  moreover have "\<forall>w. gm_get (workers (nd d')) ?w = Some w \<longrightarrow> wiState w = WORKER_DEAD" using d'(5) by auto
  ultimately show ?thesis using d'(2) by blast
qed

theorem killed_worker_returns_tasks_witness:
  "\<exists>d d'. drun ([SubmitTask (New 5 ''a'' ''a.sh''), Open 0 ''w'' ''h'' 1] @ replicate 12 (Move 0 (go 9))) demo_start = Some d \<and>
     tState (heap (nd d) 0) = StateRunning \<and>
     drun (Kill ''w'' # replicate 6 (Move 0 \<lparr>si_now = 20, si_done = True, si_sendok = True, si_order = [''a'']\<rparr>)) d = Some d' \<and>
     tState (heap (nd d') 0) = StateQueued \<and> 0 \<in> set (queue (sched (nd d')))"
proof -
  let ?as = "[SubmitTask (New 5 ''a'' ''a.sh''), Open 0 ''w'' ''h'' 1] @ replicate 12 (Move 0 (go 9))"
  let ?st = "\<lparr>stWorker = ''w'', stHostname = ''h'', stStart = 1, stPc = PcSelect\<rparr>"
  let ?x = "\<lparr>si_now = 20, si_done = True, si_sendok = True, si_order = [''a'']\<rparr>"
  have "map_option (\<lambda>d. (streams d 0, workerStreams (nd d), inFlight (sched (nd d)), tState (heap (nd d) 0), tWorkerID (heap (nd d) 0)))
      (drun ?as demo_start) = Some (Some ?st, [(''w'', 0)], [(''a'', 0)], StateRunning, ''w'')" by code_simp
  then obtain d where d: "drun ?as demo_start = Some d" "streams d 0 = Some ?st" "workerStreams (nd d) = [(''w'', 0)]"
    "inFlight (sched (nd d)) = [(''a'', 0)]" "tState (heap (nd d) 0) = StateRunning" "tWorkerID (heap (nd d) 0) = ''w''" by auto
  have r: "reach service_start service_step d" using demo_reach d(1) by (rule drun_reach)
  have "range_ok (si_order ?x) (inFlight (sched (nd d)))" by (simp add: d(4) range_ok_def gm_keys_def)
  from killed_worker_returns_tasks [OF r d(2) _ _ _ this] obtain d' where
    d': "drun (Kill ''w'' # replicate 6 (Move 0 ?x)) d = Some d'"
      "\<forall>p. if p \<in> gm_ran (inFlight (sched (nd d))) \<and> tWorkerID (heap (nd d) p) = ''w''
         then p \<in> set (queue (sched (nd d'))) \<and> p \<notin> gm_ran (inFlight (sched (nd d'))) \<and> notify (sched (nd d')) \<and>
           tState (heap (nd d') p) = StateQueued \<and> tWorkerID (heap (nd d') p) = []
         else heap (nd d') p = heap (nd d) p \<and> (p \<in> gm_ran (inFlight (sched (nd d'))) \<longleftrightarrow> p \<in> gm_ran (inFlight (sched (nd d))))"
    by (auto simp: d(3) gm_get_def)
  have "tState (heap (nd d') 0) = StateQueued \<and> 0 \<in> set (queue (sched (nd d')))"
    using d'(2) [rule_format, of 0] d(4,6) by (simp add: gm_ran_def)
  with d(1,5) d'(1) show ?thesis by blast
qed

end
