(* ===== verification/Metrics.thy ===== *)
theory Metrics
  imports Payload Complex_Main
begin

text \<open>
  The Prometheus collectors of \<open>src/internal/metrics/metrics.go\<close> and the calls the node service makes on
  them. The collectors are a table of names, kinds, bucket bounds and labels; what the library does with
  a call is not modelled, the calls are the log \<open>mlog\<close> of the service, and the properties are about it.
\<close>

section \<open>Collectors\<close>

datatype collector_kind = CounterKind | GaugeKind | HistogramKind "rat list"

record collector =
  cName :: string
  cKind :: collector_kind
  cLabels :: "string list"

definition TasksQueued :: collector where
  "TasksQueued = \<lparr>cName = ''mw_tasks_queued_total'', cKind = CounterKind, cLabels = []\<rparr>"

definition TasksCompleted :: collector where
  "TasksCompleted = \<lparr>cName = ''mw_tasks_completed_total'', cKind = CounterKind, cLabels = [''status'']\<rparr>"

definition TasksAssigned :: collector where
  "TasksAssigned = \<lparr>cName = ''mw_tasks_assigned_total'', cKind = CounterKind, cLabels = []\<rparr>"

definition TasksRetried :: collector where
  "TasksRetried = \<lparr>cName = ''mw_tasks_retried_total'', cKind = CounterKind, cLabels = []\<rparr>"

definition TaskDuration :: collector where
  "TaskDuration = \<lparr>cName = ''mw_task_duration_seconds'',
     cKind = HistogramKind [1 / 10, 25 / 100, 5 / 10, 1, 25 / 10, 5, 10, 30, 60, 120], cLabels = []\<rparr>"

definition TaskQueueDepth :: collector where
  "TaskQueueDepth = \<lparr>cName = ''mw_task_queue_depth'', cKind = GaugeKind, cLabels = []\<rparr>"

definition WorkersConnected :: collector where
  "WorkersConnected = \<lparr>cName = ''mw_workers_connected'', cKind = GaugeKind, cLabels = []\<rparr>"

definition HeartbeatsReceived :: collector where
  "HeartbeatsReceived = \<lparr>cName = ''mw_heartbeats_received_total'', cKind = CounterKind, cLabels = []\<rparr>"

definition WorkerTasksActive :: collector where
  "WorkerTasksActive = \<lparr>cName = ''mw_worker_tasks_active'', cKind = GaugeKind, cLabels = [''worker_id'']\<rparr>"

text \<open>The other four take the library's default buckets, an argument.\<close>

definition GRPCRequestDuration :: "rat list \<Rightarrow> collector" where
  "GRPCRequestDuration DefBuckets = \<lparr>cName = ''mw_grpc_request_duration_seconds'', cKind = HistogramKind DefBuckets,
     cLabels = [''method'', ''status'']\<rparr>"

definition GRPCRequestsTotal :: collector where
  "GRPCRequestsTotal = \<lparr>cName = ''mw_grpc_requests_total'', cKind = CounterKind, cLabels = [''method'', ''status'']\<rparr>"

definition HTTPRequestDuration :: "rat list \<Rightarrow> collector" where
  "HTTPRequestDuration DefBuckets = \<lparr>cName = ''mw_http_request_duration_seconds'', cKind = HistogramKind DefBuckets,
     cLabels = [''path'', ''method'', ''status_code'']\<rparr>"

definition HTTPRequestsTotal :: collector where
  "HTTPRequestsTotal = \<lparr>cName = ''mw_http_requests_total'', cKind = CounterKind,
     cLabels = [''path'', ''method'', ''status_code'']\<rparr>"

definition collectors :: "rat list \<Rightarrow> collector list" where
  "collectors DefBuckets =
     [TasksQueued, TasksCompleted, TasksAssigned, TasksRetried, TaskDuration, TaskQueueDepth,
      WorkersConnected, HeartbeatsReceived, WorkerTasksActive,
      GRPCRequestDuration DefBuckets, GRPCRequestsTotal, HTTPRequestDuration DefBuckets, HTTPRequestsTotal]"

lemmas collector_defs = TasksQueued_def TasksCompleted_def TasksAssigned_def TasksRetried_def TaskDuration_def
  TaskQueueDepth_def WorkersConnected_def HeartbeatsReceived_def WorkerTasksActive_def GRPCRequestDuration_def
  GRPCRequestsTotal_def HTTPRequestDuration_def HTTPRequestsTotal_def

text \<open>What the library documents as panics when the collectors are registered at start-up: two of one
  name, a label twice, bounds of buckets that do not increase.\<close>

fun buckets_ok :: "collector_kind \<Rightarrow> bool" where
  "buckets_ok (HistogramKind bs) = sorted_wrt (<) bs"
| "buckets_ok _ = True"

definition registers :: "collector list \<Rightarrow> bool" where
  "registers cs \<longleftrightarrow> distinct (map cName cs) \<and> (\<forall>c \<in> set cs. distinct (cLabels c) \<and> buckets_ok (cKind c))"

section \<open>Calls\<close>

datatype metric_call = CallInc | CallDec | CallSet | CallObserve

fun call_of :: "metric \<Rightarrow> collector \<times> metric_call \<times> string list" where
  "call_of TasksQueuedInc = (TasksQueued, CallInc, [])"
| "call_of (TaskQueueDepthSet k) = (TaskQueueDepth, CallSet, [])"
| "call_of HeartbeatsReceivedInc = (HeartbeatsReceived, CallInc, [])"
| "call_of (WorkerTasksActiveSet w k) = (WorkerTasksActive, CallSet, [w])"
| "call_of (TasksCompletedInc status) = (TasksCompleted, CallInc, [status])"
| "call_of TasksRetriedInc = (TasksRetried, CallInc, [])"
| "call_of (TaskDurationObserve d) = (TaskDuration, CallObserve, [])"
| "call_of WorkersConnectedInc = (WorkersConnected, CallInc, [])"
| "call_of WorkersConnectedDec = (WorkersConnected, CallDec, [])"
| "call_of TasksAssignedInc = (TasksAssigned, CallInc, [])"

text \<open>A call the collector has, with a value for each label (\<open>WithLabelValues\<close> panics otherwise).\<close>

fun has_call :: "collector_kind \<Rightarrow> metric_call \<Rightarrow> bool" where
  "has_call CounterKind c = (c = CallInc)"
| "has_call GaugeKind c = (c \<noteq> CallObserve)"
| "has_call (HistogramKind bs) c = (c = CallObserve)"

definition call_fits :: "collector list \<Rightarrow> collector \<times> metric_call \<times> string list \<Rightarrow> bool" where
  "call_fits cs = (\<lambda>(c, call, vals). c \<in> set cs \<and> has_call (cKind c) call \<and> length vals = length (cLabels c))"

lemma collectors_register: "registers (collectors bs) \<longleftrightarrow> sorted_wrt (<) bs"
  by (auto simp: registers_def collectors_def collector_defs)

lemma calls_fit: "call_fits (collectors bs) (call_of m)"
  by (cases m) (simp_all add: call_fits_def collectors_def, simp_all add: collector_defs)

text \<open>No call reaches the HTTP collectors.\<close>

lemma http_never_called: "fst (call_of m) \<notin> {HTTPRequestDuration bs, HTTPRequestsTotal}"
  by (cases m) (simp_all add: collector_defs)

section \<open>What the log says\<close>

text \<open>The handlers and steps that leave the log alone.\<close>

lemma observe_mlog [simp]: "mlog (observe ms n) = mlog n @ ms"
  by (simp add: observe_def)

lemma store_Save_mlog [simp]: "mlog (store_Save p n) = mlog n"
  by (simp add: store_Save_def split: option.split)

lemma save_if_mlog [simp]: "mlog (save_if r n) = mlog n"
  by (simp add: save_if_def split: option.split)

lemma publishEvent_mlog: "publishEvent now ty data n = Some n' \<Longrightarrow> mlog n' = mlog n"
  by (auto simp: publishEvent_def split: option.splits)

lemma health_mlog:
  assumes "checkWorkerHealth now pub ks n = Some n'"
  shows "mlog n' = mlog n"
proof -
  let ?Q = "\<lambda>r. case r of None \<Rightarrow> True | Some n' \<Rightarrow> mlog n' = mlog n"
  have "?Q r \<Longrightarrow> ?Q (health_body now pub x r)" for x r
    by (cases x; cases r) (auto simp: health_body_def Let_def dest!: publishEvent_mlog split: option.split)
  then have "?Q r \<Longrightarrow> ?Q (fold (health_body now pub) xs r)" for xs r
    by (induction xs arbitrary: r) simp_all
  then have "?Q (fold (health_body now pub) (gm_range ks (workers n)) (Some n))" by simp
  with assms show ?thesis unfolding checkWorkerHealth_def by simp
qed

lemma tick_mlog: "on_tick tk n = Some n' \<Longrightarrow> mlog n' = mlog n"
  by (cases tk) (auto split: prod.splits dest: health_mlog)

text \<open>A report logs its outcome, perhaps a retry, perhaps a duration.\<close>

definition report_log :: "metric list \<Rightarrow> bool" where
  "report_log ms \<longleftrightarrow> set ms \<subseteq> {TasksCompletedInc ''completed'', TasksCompletedInc ''failed'', TasksRetriedInc} \<union> range TaskDurationObserve"

lemma report_mlog:
  assumes "ReportTaskStatus env rep n = Some n'"
  shows "\<exists>ms. mlog n' = mlog n @ ms \<and> report_log ms"
proof -
  have completed: "\<exists>ms. mlog n2 = mlog n1 @ ms \<and> report_log ms"
    if "report_completed env rep cb n1 = Some n2" for cb n1 n2
    using that by (auto simp: report_completed_def Let_def report_log_def split: prod.splits dest!: publishEvent_mlog)
  have failed: "\<exists>ms. mlog n2 = mlog n1 @ ms \<and> report_log ms"
    if "report_failed env rep cb n1 = Some n2" for cb n1 n2
    using that by (auto simp: report_failed_def Let_def report_log_def split: prod.splits option.splits if_splits dest!: publishEvent_mlog)
  obtain cb rs n2 where n2: "(if rState rep = TASK_COMPLETED then report_completed env rep cb (n\<lparr>regs := rs\<rparr>)
      else report_failed env rep cb (n\<lparr>regs := rs\<rparr>)) = Some n2" "n' = n2 \<or> (\<exists>t. n' = observe [TaskDurationObserve t] n2)"
    using assms by (auto simp: ReportTaskStatus_def Let_def split: prod.splits option.splits)
  then obtain ms where "mlog n2 = mlog n @ ms" "report_log ms" using completed failed by (fastforce split: if_splits)
  with n2(2) show ?thesis by (auto simp: report_log_def)
qed

section \<open>Streams by their place in the loop\<close>

definition at_pc :: "(stream_pc \<Rightarrow> bool) \<Rightarrow> dsys \<Rightarrow> nat set" where
  "at_pc P d = {i. \<exists>st. streams d i = Some st \<and> P (stPc st)}"

text \<open>Between the increment and the decrement of the gauge of connected workers.\<close>

fun in_loop :: "stream_pc \<Rightarrow> bool" where
  "in_loop pc \<longleftrightarrow> pc \<notin> {PcStream, PcRegister, PcAnnounce, PcMarkDead, PcGoodbye, PcCancel, PcDone}"

fun sending :: "stream_pc \<Rightarrow> bool" where
  "sending (PcSend p) = True"
| "sending _ = False"

lemma at_pc_update:
  assumes "streams d i = Some st" "streams d' = (streams d)(i := Some st')" "finite (dom (streams d))"
  shows "card (at_pc P d') + of_bool (P (stPc st)) = card (at_pc P d) + of_bool (P (stPc st'))"
proof -
  have fin: "finite (at_pc P d)" by (rule finite_subset [OF _ assms(3)]) (auto simp: at_pc_def)
  have at: "at_pc P d' = (if P (stPc st') then insert i (at_pc P d) else at_pc P d - {i})"
    "i \<in> at_pc P d \<longleftrightarrow> P (stPc st)"
    using assms(1,2) by (auto simp: at_pc_def)
  then show ?thesis using fin by (auto simp: card_insert_if card_Diff_singleton_if) (metis Suc_pred card_gt_0_iff empty_iff)+
qed

lemma publish_settles:
  assumes "node_bus_ok n"
  obtains b where "settle (publishEvent now ty data n) d = d\<lparr>nd := n\<lparr>evbus := b\<rparr>\<rparr>"
  using publishEvent_ok [OF assms, of now ty data] by (metis settle_def option.simps(5))

text \<open>What a step of a stream adds to the log, and where it goes.\<close>

fun step_log :: "stream_pc \<Rightarrow> dsys \<Rightarrow> metric list" where
  "step_log PcAnnounce d = [WorkersConnectedInc]"
| "step_log PcRequeue d = [WorkersConnectedDec]"
| "step_log (PcSave p) d = [TasksAssignedInc, TaskQueueDepthSet (length (queue (sched (nd d))))]"
| "step_log _ d = []"

lemma stream_step_log:
  assumes "stream_step i x st c d = Some d'" and "node_bus_ok (nd d)"
  shows "\<exists>c'. streams d' = (streams d)(i := Some (st\<lparr>stPc := c'\<rparr>)) \<and> mlog (nd d') = mlog (nd d) @ step_log c d \<and>
    (in_loop c' \<longleftrightarrow> c = PcAnnounce \<or> (in_loop c \<and> c \<noteq> PcRequeue)) \<and>
    (sending c' \<longleftrightarrow> (\<exists>p. c = PcSave p)) \<and>
    length (sent d') \<le> length (sent d) + of_bool (sending c) \<and> next_task (nd d') = next_task (nd d)"
proof (cases c)
  case PcAnnounce
  have "node_bus_ok (observe [WorkersConnectedInc] (nd d))" using assms(2) by (simp add: node_bus_ok_def)
  then obtain b where "settle (publishEvent (si_now x) EventWorkerConnected
      [(''worker_id'', EvStr (stWorker st)), (''hostname'', EvStr (stHostname st))] (observe [WorkersConnectedInc] (nd d))) d =
      d\<lparr>nd := (observe [WorkersConnectedInc] (nd d))\<lparr>evbus := b\<rparr>\<rparr>" by (rule publish_settles)
  with assms(1) PcAnnounce show ?thesis by (auto simp: goto_pc_def)
next
  case (PcSent p)
  obtain b where "settle (publishEvent (si_now x) EventTaskAssigned
      [(''task_id'', EvStr (tID (heap (nd d) p))), (''worker_id'', EvStr (stWorker st)),
       (''attempt'', EvStr (fmt_int (sint (tAttempt (heap (nd d) p)))))] (nd d)) d = d\<lparr>nd := (nd d)\<lparr>evbus := b\<rparr>\<rparr>"
    using assms(2) by (rule publish_settles)
  with assms(1) PcSent show ?thesis by (auto simp: goto_pc_def)
next
  case PcGoodbye
  obtain b where "settle (publishEvent (si_now x) EventWorkerDisconnected [(''worker_id'', EvStr (stWorker st))] (nd d)) d =
      d\<lparr>nd := (nd d)\<lparr>evbus := b\<rparr>\<rparr>" using assms(2) by (rule publish_settles)
  with assms(1) PcGoodbye show ?thesis by (auto simp: goto_pc_def)
qed (use assms in \<open>auto simp: goto_pc_def Let_def set_task_def register_worker_def mark_dead_def Stats_def
      split: if_splits prod.splits option.splits\<close>)

definition metrics_inv :: "dsys \<Rightarrow> bool" where
  "metrics_inv d \<longleftrightarrow>
     finite (dom (streams d)) \<and> count_list (mlog (nd d)) TasksQueuedInc = next_task (nd d) \<and>
     count_list (mlog (nd d)) WorkersConnectedInc = count_list (mlog (nd d)) WorkersConnectedDec + card (at_pc in_loop d) \<and>
     length (sent d) + card (at_pc sending d) \<le> count_list (mlog (nd d)) TasksAssignedInc \<and>
     (\<forall>l. TasksCompletedInc l \<in> set (mlog (nd d)) \<longrightarrow> l \<in> {''completed'', ''failed''})"

text \<open>A step beside the streams adds no call but those of reports, heartbeats and submissions.\<close>

lemma metrics_inv_quiet:
  assumes "metrics_inv d" "streams d' = streams d" "sent d' = sent d"
    and "mlog (nd d') = mlog (nd d) @ ms"
    and "count_list ms TasksQueuedInc + next_task (nd d) = next_task (nd d')"
    and "set ms \<inter> {WorkersConnectedInc, WorkersConnectedDec, TasksAssignedInc} = {}"
    and "\<forall>l. TasksCompletedInc l \<in> set ms \<longrightarrow> l \<in> {''completed'', ''failed''}"
  shows "metrics_inv d'"
proof -
  have "at_pc P d' = at_pc P d" for P using assms(2) by (simp add: at_pc_def)
  moreover have "count_list ms m = 0" if "m \<in> {WorkersConnectedInc, WorkersConnectedDec, TasksAssignedInc}" for m
    using assms(6) that by (auto simp: count_list_0_iff)
  ultimately show ?thesis using assms by (auto simp: metrics_inv_def)
qed

lemma metrics_inv_move:
  assumes inv: "service_inv d" "metrics_inv d" and st: "streams d i = Some st" and step: "stream_step i x st (stPc st) d = Some d'"
  shows "metrics_inv d'"
proof -
  have "node_bus_ok (nd d)" using inv(1) by (simp add: service_inv_def core_inv_def)
  from stream_step_log [OF step this] obtain c' where c': "streams d' = (streams d)(i := Some (st\<lparr>stPc := c'\<rparr>))"
    "mlog (nd d') = mlog (nd d) @ step_log (stPc st) d"
    "in_loop c' \<longleftrightarrow> stPc st = PcAnnounce \<or> (in_loop (stPc st) \<and> stPc st \<noteq> PcRequeue)"
    "sending c' \<longleftrightarrow> (\<exists>p. stPc st = PcSave p)" "length (sent d') \<le> length (sent d) + of_bool (sending (stPc st))"
    "next_task (nd d') = next_task (nd d)" by blast
  have fin: "finite (dom (streams d))" using inv(2) by (simp add: metrics_inv_def)
  note card = at_pc_update [OF st c'(1) fin, of in_loop] at_pc_update [OF st c'(1) fin, of sending]
  have "\<not> in_loop PcAnnounce" "in_loop PcRequeue" by simp_all
  moreover have "finite (dom (streams d'))" using fin c'(1) by simp
  ultimately show ?thesis
    using inv(2) c' card unfolding metrics_inv_def by (cases "stPc st") (auto simp del: in_loop.simps)
qed

lemma dstep_metrics_inv:
  assumes inv: "service_inv d" "metrics_inv d" and step: "dstep a d = Some d'"
  shows "metrics_inv d'"
proof (cases a)
  case (Open i w h t)
  let ?st = "\<lparr>stWorker = w, stHostname = h, stStart = t, stPc = PcStream\<rparr>"
  have d': "streams d i = None" "d' = d\<lparr>streams := (streams d)(i := Some ?st)\<rparr>" using step Open by (auto split: if_splits)
  then have "at_pc P d' = at_pc P d" if "\<not> P PcStream" for P using that by (auto simp: at_pc_def)
  with inv(2) d' show ?thesis by (simp add: metrics_inv_def)
next
  case (Move i x)
  with inv step show ?thesis by (auto split: option.splits intro: metrics_inv_move)
next
  case (SubmitTask t)
  then have d': "d' = d\<lparr>nd := enqueue_new t (nd d)\<rparr>" using step by (auto split: if_splits)
  have "mlog (nd d') = mlog (nd d) @ [TasksQueuedInc, TaskQueueDepthSet (QueueDepth (Stats (sched (nd d'))))]"
    "next_task (nd d') = Suc (next_task (nd d))"
    unfolding d' by (simp_all add: enqueue_new_def alloc_task_def enqueue_def Let_def)
  then show ?thesis by (intro metrics_inv_quiet [OF inv(2)]) (auto simp: d')
next
  case (Report env rep)
  show ?thesis
  proof (cases "ReportTaskStatus env rep (nd d)")
    case None
    with step Report inv(2) show ?thesis by (auto simp: settle_def metrics_inv_def at_pc_def)
  next
    case (Some n)
    from report_mlog [OF this] obtain ms where "mlog n = mlog (nd d) @ ms" "report_log ms" by blast
    moreover have "next_task n = next_task (nd d)" using report_frame [OF Some] by simp
    ultimately show ?thesis using step Report Some
      by (intro metrics_inv_quiet [OF inv(2), of _ ms]) (auto simp: settle_def report_log_def count_list_0_iff)
  qed
next
  case (Beat t hb)
  have "\<exists>ms. mlog (SendHeartbeat t hb n) = mlog n @ ms \<and> set ms \<subseteq> insert HeartbeatsReceivedInc (range (case_prod WorkerTasksActiveSet)) \<and>
      next_task (SendHeartbeat t hb n) = next_task n" for n
    by (auto simp: SendHeartbeat_def Let_def split: option.split)
  then obtain ms where "mlog (SendHeartbeat t hb (nd d)) = mlog (nd d) @ ms"
    "set ms \<subseteq> insert HeartbeatsReceivedInc (range (case_prod WorkerTasksActiveSet))"
    "next_task (SendHeartbeat t hb (nd d)) = next_task (nd d)" by blast
  with step Beat show ?thesis
    by (intro metrics_inv_quiet [OF inv(2), of _ ms]) (auto simp: count_list_0_iff)
next
  case (Tick tk)
  show ?thesis
  proof (cases "on_tick tk (nd d)")
    case None
    with step Tick inv(2) show ?thesis by (auto simp: settle_def metrics_inv_def at_pc_def split: if_splits)
  next
    case (Some n)
    with step Tick tick_mlog [OF Some] tick_frame [OF Some] show ?thesis
      by (intro metrics_inv_quiet [OF inv(2), of _ "[]"]) (auto simp: settle_def split: if_splits)
  qed
qed (use step in \<open>auto simp: DisconnectWorker_def on_breaker_def split: prod.splits option.splits
      intro!: metrics_inv_quiet [OF inv(2), of _ "[]"]\<close>)

interpretation metrics: inv_system service_start service_step "\<lambda>d. service_inv d \<and> metrics_inv d"
proof
  show "service_inv d \<and> metrics_inv d" if "service_start d" for d
  proof -
    have "mlog (nd d) = [] \<and> next_task (nd d) = 0 \<and> (\<forall>i. streams d i = None) \<and> sent d = []"
      using that by (auto simp: service_start_def NewNodeServer_def)
    then have "metrics_inv d" by (simp add: metrics_inv_def at_pc_def dom_def)
    with service.inv_init [OF that] show ?thesis by simp
  qed
  show "service_inv d \<and> metrics_inv d \<Longrightarrow> service_step d d' \<Longrightarrow> service_inv d' \<and> metrics_inv d'" for d d'
    by (auto simp: service_step_def intro: dstep_inv dstep_metrics_inv)
qed


text \<open>A worker has taken the only task, and another one has left.\<close>

definition metrics_run :: "dact list" where
  "metrics_run = [SubmitTask (New 5 ''a'' ''a.sh''), Open 0 ''w'' ''h'' 1, Open 1 ''v'' ''h'' 1] @
     replicate 12 (Move 0 (go 9)) @ replicate 3 (Move 1 (go 10)) @
     [Drop 1] @ replicate 3 (Move 1 \<lparr>si_now = 11, si_done = True, si_sendok = True, si_order = [''a'']\<rparr>)"


text \<open>The depth gauge is only set on submission and assignment: after a worker's tasks went back to the queue it
  still shows the depth of the last assignment.\<close>

theorem queue_depth_gauge_goes_stale:
  "\<exists>d ms. reach service_start service_step d \<and> mlog (nd d) = ms @ [TaskQueueDepthSet 0, WorkersConnectedDec] \<and>
     length (queue (sched (nd d))) = 1"
proof -
  let ?quit = "\<lparr>si_now = 11, si_done = True, si_sendok = True, si_order = [''a'']\<rparr>"
  let ?as = "[SubmitTask (New 5 ''a'' ''a.sh''), Open 0 ''w'' ''h'' 1] @ replicate 12 (Move 0 (go 9)) @ [Drop 0] @ replicate 3 (Move 0 ?quit)"
  have "map_option (\<lambda>d. (rev (take 2 (rev (mlog (nd d)))), length (queue (sched (nd d))))) (drun ?as demo_start) =
    Some ([TaskQueueDepthSet 0, WorkersConnectedDec], 1)" by code_simp
  then obtain d where d: "drun ?as demo_start = Some d" "rev (take 2 (rev (mlog (nd d)))) = [TaskQueueDepthSet 0, WorkersConnectedDec]"
    "length (queue (sched (nd d))) = 1" by auto
  then have "mlog (nd d) = rev (drop 2 (rev (mlog (nd d)))) @ [TaskQueueDepthSet 0, WorkersConnectedDec]"
    by (metis append_take_drop_id rev_append rev_rev_ident)
  with d drun_reach [OF demo_reach d(1)] show ?thesis by blast
qed

end
