(* ===== verification/GoParse.thy ===== *)
theory GoParse
  imports Prelude
begin

text \<open>
  The two parsers of the Go library that the configuration uses: \<open>strconv.Atoi\<close> and \<open>time.ParseDuration\<close>.
  A failed parse is \<open>None\<close>: the configuration drops the error. The product of a fraction with its unit
  goes through floats in the library and is an argument here.
\<close>

section \<open>Integers\<close>

definition is_digit :: "char \<Rightarrow> bool" where
  "is_digit c \<longleftrightarrow> (48 :: nat) \<le> of_char c \<and> of_char c \<le> (57 :: nat)"

text \<open>An optional sign, then one digit at least, and a value that fits.\<close>

definition split_sign :: "string \<Rightarrow> bool \<times> string" where
  "split_sign s =
     (case s of
        [] \<Rightarrow> (False, [])
      | c # t \<Rightarrow> if c = CHR ''-'' then (True, t) else if c = CHR ''+'' then (False, t) else (False, s))"

definition Atoi :: "string \<Rightarrow> int64 option" where
  "Atoi s =
     (case split_sign s of
        (neg, ds) \<Rightarrow>
          if ds = [] \<or> \<not> list_all is_digit ds then None
          else let v = digits_val ds in
            if neg then (if v \<le> 9223372036854775808 then Some (word_of_int (- v)) else None)
            else (if v \<le> 9223372036854775807 then Some (word_of_int v) else None))"

section \<open>Durations\<close>

text \<open>The leading digits as a number, which must not exceed \<open>2 ^ 63\<close>, and the rest.\<close>

fun leadingInt :: "nat \<Rightarrow> string \<Rightarrow> (nat \<times> string) option" where
  "leadingInt x [] = Some (x, [])"
| "leadingInt x (c # s) =
     (if is_digit c then
        if 2 ^ 63 div 10 < x then None
        else let x = x * 10 + (of_char c - 48) in if 2 ^ 63 < x then None else leadingInt x s
      else Some (x, c # s))"

text \<open>The digits after the point: their number, how many were taken into it, and the rest; digits that
  would overflow are skipped.\<close>

fun leadingFraction :: "nat \<Rightarrow> nat \<Rightarrow> bool \<Rightarrow> string \<Rightarrow> nat \<times> nat \<times> string" where
  "leadingFraction x k overflow [] = (x, k, [])"
| "leadingFraction x k overflow (c # s) =
     (if is_digit c then
        if overflow \<or> (2 ^ 63 - 1) div 10 < x then leadingFraction x k True s
        else let y = x * 10 + (of_char c - 48) in
          if 2 ^ 63 < y then leadingFraction x k True s else leadingFraction y (k + 1) False s
      else (x, k, c # s))"

definition unitMap :: "(string, nat) gomap" where
  "unitMap =
     [(''ns'', 1), (''us'', 1000), ([CHR 0xC2, CHR 0xB5, CHR ''s''], 1000), ([CHR 0xCE, CHR 0xBC, CHR ''s''], 1000),
      (''ms'', 1000000), (''s'', 1000000000), (''m'', 60000000000), (''h'', 3600000000000)]"

definition unit_char :: "char \<Rightarrow> bool" where
  "unit_char c \<longleftrightarrow> c \<noteq> CHR ''.'' \<and> \<not> is_digit c"

text \<open>One number with its unit: its nanoseconds and the rest. \<open>frac f unit k\<close> is \<open>f / 10 ^ k\<close> units.\<close>

definition parse_component :: "(nat \<Rightarrow> nat \<Rightarrow> nat \<Rightarrow> nat) \<Rightarrow> string \<Rightarrow> (nat \<times> string) option" where
  "parse_component frac s =
     (if s = [] \<or> unit_char (hd s) then None
      else case leadingInt 0 s of
        None \<Rightarrow> None
      | Some (v, s1) \<Rightarrow>
          let pre = (length s \<noteq> length s1);
              (f, k, s2, post) =
                (case s1 of
                   [] \<Rightarrow> (0, 0, s1, False)
                 | c # t \<Rightarrow>
                     if c = CHR ''.'' then (case leadingFraction 0 0 False t of (f, k, r) \<Rightarrow> (f, k, r, length t \<noteq> length r))
                     else (0, 0, s1, False))
          in
          if \<not> pre \<and> \<not> post then None
          else let u = takeWhile unit_char s2; s3 = dropWhile unit_char s2 in
            if u = [] then None
            else case gm_get unitMap u of
              None \<Rightarrow> None
            | Some unit \<Rightarrow>
                if 2 ^ 63 div unit < v then None
                else let v = v * unit in
                  if 0 < f then (let v = v + frac f unit k in if 2 ^ 63 < v then None else Some (v, s3))
                  else Some (v, s3))"

lemma leadingInt_length: "leadingInt x s = Some (v, r) \<Longrightarrow> length r \<le> length s"
  by (induction s arbitrary: x) (fastforce simp: Let_def split: if_splits)+

lemma leadingFraction_length: "leadingFraction x k ov s = (f, j, r) \<Longrightarrow> length r \<le> length s"
  by (induction s arbitrary: x k ov) (fastforce simp: Let_def split: if_splits)+

lemma dropWhile_shorter: "takeWhile P s \<noteq> [] \<Longrightarrow> length (dropWhile P s) < length s"
  by (metis add_less_cancel_right length_append length_greater_0_conv takeWhile_dropWhile_id add.left_neutral)

text \<open>A component takes something off the text, so the loop over the components ends.\<close>

lemma parse_component_shorter: "parse_component frac s = Some (v, r) \<Longrightarrow> length r < length s"
  by (auto simp: parse_component_def Let_def split: if_splits option.splits prod.splits list.splits
      dest!: leadingInt_length leadingFraction_length dropWhile_shorter)
    (metis Suc_le_lessD le_less_trans length_dropWhile_le)

function parse_loop :: "(nat \<Rightarrow> nat \<Rightarrow> nat \<Rightarrow> nat) \<Rightarrow> nat \<Rightarrow> string \<Rightarrow> nat option" where
  "parse_loop frac d s =
     (if s = [] then Some d
      else case parse_component frac s of
        None \<Rightarrow> None
      | Some (v, r) \<Rightarrow> let d = (d + v) mod 2 ^ 64 in if 2 ^ 63 < d then None else parse_loop frac d r)"
  by pat_completeness auto
termination
  by (relation "measure (\<lambda>(frac, d, s). length s)") (auto dest: parse_component_shorter)

declare parse_loop.simps [simp del]

definition ParseDuration :: "(nat \<Rightarrow> nat \<Rightarrow> nat \<Rightarrow> nat) \<Rightarrow> string \<Rightarrow> duration option" where
  "ParseDuration frac s =
     (case split_sign s of
        (neg, s) \<Rightarrow>
          if s = ''0'' then Some 0
          else if s = [] then None
          else case parse_loop frac 0 s of
            None \<Rightarrow> None
          | Some d \<Rightarrow>
              if neg then Some (word_of_int (- int d))
              else if 2 ^ 63 - 1 < d then None else Some (word_of_int (int d)))"

section \<open>Reading printed numbers\<close>

lemma is_digit_digit [simp]: "0 \<le> i \<Longrightarrow> i < 10 \<Longrightarrow> is_digit (digit i)"
proof -
  assume "0 \<le> i" "i < 10"
  then have "int (of_char (digit i)) = 48 + i" using of_char_digit [of i] by (simp add: of_nat_of_char)
  with \<open>0 \<le> i\<close> \<open>i < 10\<close> show ?thesis by (simp add: is_digit_def)
qed

lemma dec_digits: "0 \<le> i \<Longrightarrow> list_all is_digit (dec i) \<and> dec i \<noteq> []"
proof (induction i rule: dec.induct)
  case (1 i)
  show ?case
  proof (cases "i < 10")
    case True
    with 1 show ?thesis by (simp add: dec.simps [of i])
  next
    case False
    with 1 have "list_all is_digit (dec (i div 10))" by simp
    with False 1(2) show ?thesis by (simp add: dec.simps [of i])
  qed
qed

lemma digit_not_sign: "is_digit c \<Longrightarrow> c \<noteq> CHR ''-'' \<and> c \<noteq> CHR ''+'' \<and> c \<noteq> CHR ''.''"
  by (auto simp: is_digit_def)

lemma split_sign_digits: "list_all is_digit ds \<Longrightarrow> ds \<noteq> [] \<Longrightarrow> split_sign (ds @ r) = (False, ds @ r)"
  by (cases ds) (auto simp: split_sign_def dest: digit_not_sign)

lemma Atoi_fmt_int: "Atoi (fmt_int (sint i)) = Some i"
proof (cases "sint i < 0")
  case True
  then have "split_sign (fmt_int (sint i)) = (True, dec (- sint i))" by (simp add: fmt_int_def split_sign_def)
  with True dec_digits [of "- sint i"] sint_ge_min64 [of i] show ?thesis by (simp add: Atoi_def Let_def)
next
  case False
  then have "split_sign (fmt_int (sint i)) = (False, dec (sint i))"
    using split_sign_digits [of "dec (sint i)" "[]"] dec_digits [of "sint i"] by (simp add: fmt_int_def)
  with False dec_digits [of "sint i"] sint_le_max64 [of i] show ?thesis by (simp add: Atoi_def Let_def)
qed

lemma digits_mono:
  fixes x :: int
  assumes "list_all is_digit ds" and "0 \<le> x"
  shows "x \<le> foldl (\<lambda>v c. 10 * v + (of_char c - 48)) x ds"
  using assms
proof (induction ds arbitrary: x)
  case (Cons c ds)
  have "(48 :: nat) \<le> of_char c" using Cons.prems(1) by (simp add: is_digit_def)
  then have c: "48 \<le> (of_char c :: int)" by (metis of_nat_le_iff of_nat_numeral of_nat_of_char)
  then have "x \<le> 10 * x + (of_char c - 48)" using Cons.prems(2) by simp
  also have "\<dots> \<le> foldl (\<lambda>v c. 10 * v + (of_char c - 48)) (10 * x + (of_char c - 48)) ds"
    using Cons c by simp
  finally show ?case by simp
qed simp

lemma leadingInt_digits:
  assumes "list_all is_digit ds" and "r = [] \<or> \<not> is_digit (hd r)"
    and "foldl (\<lambda>v c. 10 * v + (of_char c - 48)) (int x) ds \<le> 2 ^ 63"
  shows "leadingInt x (ds @ r) = Some (nat (foldl (\<lambda>v c. 10 * v + (of_char c - 48)) (int x) ds), r)"
  using assms
proof (induction ds arbitrary: x)
  case Nil
  then show ?case by (cases r) auto
next
  case (Cons c ds)
  let ?y = "x * 10 + (of_char c - 48)"
  have c: "(48 :: nat) \<le> of_char c" using Cons.prems(1) by (simp add: is_digit_def)
  have y: "int ?y = 10 * int x + (of_char c - 48)" using c by (simp add: of_nat_diff of_nat_of_char)
  have eq: "foldl (\<lambda>v c. 10 * v + (of_char c - 48)) (int x) (c # ds) = foldl (\<lambda>v c. 10 * v + (of_char c - 48)) (int ?y) ds"
    by (simp only: foldl_Cons y)
  have "int ?y \<le> 2 ^ 63" using digits_mono [of ds "int ?y"] Cons.prems(1,3) unfolding eq by simp
  then have "?y \<le> 2 ^ 63" by (metis of_nat_le_iff of_nat_numeral of_nat_power)
  moreover have "\<not> 2 ^ 63 div 10 < x" using \<open>?y \<le> 2 ^ 63\<close> by simp
  ultimately have "leadingInt x ((c # ds) @ r) = leadingInt ?y (ds @ r)" using Cons.prems(1) by (simp add: Let_def)
  also have "\<dots> = Some (nat (foldl (\<lambda>v c. 10 * v + (of_char c - 48)) (int ?y) ds), r)"
    using Cons.prems unfolding eq by (intro Cons.IH) simp_all
  finally show ?case unfolding eq .
qed

lemma leadingInt_dec:
  assumes "0 \<le> i" and "i \<le> 2 ^ 63" and "r = [] \<or> \<not> is_digit (hd r)"
  shows "leadingInt 0 (dec i @ r) = Some (nat i, r)"
proof -
  have "foldl (\<lambda>v c. 10 * v + (of_char c - 48)) (int 0) (dec i) = i"
    using digits_val_dec [OF assms(1)] by (simp add: digits_val_def)
  with leadingInt_digits [of "dec i" r 0] assms dec_digits [of i] show ?thesis by simp
qed

text \<open>A printed number with a unit is one component.\<close>

lemma parse_component_dec:
  assumes i: "0 \<le> i" "i * int unit \<le> 2 ^ 63" and u: "gm_get unitMap u = Some unit" "0 < unit" "list_all unit_char u" "u \<noteq> []"
    and r: "r = [] \<or> \<not> unit_char (hd r)"
  shows "parse_component frac (dec i @ u @ r) = Some (nat i * unit, r)"
proof -
  have "i * 1 \<le> i * int unit" using i(1) u(2) by (intro mult_left_mono) auto
  then have i63: "i \<le> 2 ^ 63" using i(2) by simp
  have hd_u: "unit_char (hd (u @ r))" "u @ r \<noteq> []" using u(3,4) by (cases u; simp)+
  have L: "leadingInt 0 (dec i @ u @ r) = Some (nat i, u @ r)"
    using leadingInt_dec [OF i(1) i63, of "u @ r"] hd_u by (simp add: unit_char_def)
  have d: "dec i \<noteq> []" "is_digit (hd (dec i))" using dec_digits [OF i(1)] by (cases "dec i"; simp)+
  have tw: "takeWhile unit_char (u @ r) = u" "dropWhile unit_char (u @ r) = r"
    using u(3) r by (cases r; auto simp: list_all_iff)+
  obtain c t where ct: "u @ r = c # t" "c \<noteq> CHR ''.''" using hd_u by (cases "u @ r") (auto simp: unit_char_def)
  obtain n where n: "i = int n" using i(1) nonneg_int_cases by blast
  have "int (n * unit) \<le> int (2 ^ 63)" using i(2) n by simp
  then have "nat i * unit \<le> 2 ^ 63" using n by (simp only: of_nat_le_iff nat_int)
  then have "\<not> 2 ^ 63 div unit < nat i" using u(2) by (simp add: div_less_iff_less_mult not_less less_eq_div_iff_mult_less_eq)
  with L d tw ct u(1,4) show ?thesis
    by (simp add: parse_component_def Let_def unit_char_def)
qed

lemma parse_loop_dec:
  assumes "0 \<le> i" and "int d + i * int unit \<le> 2 ^ 63" and "gm_get unitMap u = Some unit" "0 < unit" "list_all unit_char u" "u \<noteq> []"
    and "r = [] \<or> \<not> unit_char (hd r)"
  shows "parse_loop frac d (dec i @ u @ r) = parse_loop frac (d + nat i * unit) r"
proof -
  obtain n where n: "i = int n" using assms(1) nonneg_int_cases by blast
  have "int (d + n * unit) \<le> int (2 ^ 63)" using assms(2) n by simp
  then have le: "d + n * unit \<le> 2 ^ 63" by (simp only: of_nat_le_iff)
  have "parse_component frac (dec i @ u @ r) = Some (n * unit, r)"
    using parse_component_dec [of i unit u r frac] assms n by simp
  moreover have "dec i @ u @ r \<noteq> []" using assms(6) by simp
  ultimately show ?thesis using le n assms(6) by (subst parse_loop.simps) (simp add: Let_def)
qed

lemma dec_not_unit: "0 \<le> i \<Longrightarrow> \<not> unit_char (hd (dec i @ r))"
  using dec_digits [of i] by (cases "dec i") (auto simp: unit_char_def)

lemma units:
  "gm_get unitMap ''s'' = Some 1000000000" "gm_get unitMap ''m'' = Some 60000000000" "gm_get unitMap ''h'' = Some 3600000000000"
  "list_all unit_char ''s''" "list_all unit_char ''m''" "list_all unit_char ''h''"
  by (simp_all add: unitMap_def gm_get_def unit_char_def is_digit_def)

lemma fmt_frac_whole: "u mod 1000000000 = 0 \<Longrightarrow> fmt_frac u 9 = ([], u div 1000000000)"
proof -
  assume "u mod 1000000000 = 0"
  moreover have "digit 0 = CHR ''0''" by code_simp
  ultimately show ?thesis by (simp add: fmt_frac_def Let_def dec.simps [of 0] pad_zeros_def eval_nat_numeral)
qed

text \<open>The unsigned part of a printed whole number of seconds.\<close>

definition seconds_text :: "int \<Rightarrow> string" where
  "seconds_text w =
     (if w div 60 = 0 then dec (w mod 60) @ ''s''
      else if w div 60 div 60 = 0 then dec (w div 60 mod 60) @ ''m'' @ dec (w mod 60) @ ''s''
      else dec (w div 60 div 60) @ ''h'' @ dec (w div 60 mod 60) @ ''m'' @ dec (w mod 60) @ ''s'')"

lemma parse_seconds_text:
  assumes "0 \<le> w" and "w * 1000000000 \<le> 2 ^ 63"
  shows "parse_loop frac 0 (seconds_text w) = Some (nat (w * 1000000000))"
proof -
  define s where "s = nat (w mod 60)"
  define m where "m = nat (w div 60 mod 60)"
  define h where "h = nat (w div 60 div 60)"
  have eqs: "w mod 60 = int s" "w div 60 mod 60 = int m" "w div 60 div 60 = int h"
    using assms(1) by (simp_all add: s_def m_def h_def pos_imp_zdiv_nonneg_iff)
  have w: "w = int (h * 3600 + m * 60 + s)" using eqs by simp presburger
  have total: "nat (w * 1000000000) = h * 3600000000000 + m * 60000000000 + s * 1000000000"
    unfolding w by (simp add: nat_mult_distrib algebra_simps nat_add_distrib)
  have "int (h * 3600000000000 + m * 60000000000 + s * 1000000000) \<le> 2 ^ 63"
    using assms(2) unfolding w by (simp add: algebra_simps)
  then have bound: "int h * 3600000000000 + int m * 60000000000 + int s * 1000000000 \<le> 2 ^ 63" by simp
  have S: "parse_loop frac d (dec (int s) @ ''s'') = Some (d + s * 1000000000)" if "int d + int s * 1000000000 \<le> 2 ^ 63" for d
    using parse_loop_dec [of "int s" d 1000000000 "''s''" "[]" frac] that units by (simp add: parse_loop.simps [of frac _ "[]"])
  have M: "parse_loop frac d (dec (int m) @ ''m'' @ dec (int s) @ ''s'') = Some (d + m * 60000000000 + s * 1000000000)"
    if "int d + int m * 60000000000 + int s * 1000000000 \<le> 2 ^ 63" for d
    using parse_loop_dec [of "int m" d 60000000000 "''m''" "dec (int s) @ ''s''" frac] S [of "d + m * 60000000000"] that units
      dec_not_unit [of "int s" "''s''"] by simp
  have H: "parse_loop frac 0 (dec (int h) @ ''h'' @ dec (int m) @ ''m'' @ dec (int s) @ ''s'') =
      Some (h * 3600000000000 + m * 60000000000 + s * 1000000000)"
    using parse_loop_dec [of "int h" 0 3600000000000 "''h''" "dec (int m) @ ''m'' @ dec (int s) @ ''s''" frac]
      M [of "h * 3600000000000"] bound units dec_not_unit [of "int m" "''m'' @ dec (int s) @ ''s''"] by simp
  have zero: "w div 60 = 0 \<Longrightarrow> m = 0 \<and> h = 0" by (simp add: m_def h_def)
  show ?thesis
    using S [of 0] M [of 0] H bound zero total eqs(3) unfolding seconds_text_def eqs(1,2) by auto
qed

lemma hd_dec: "0 \<le> i \<Longrightarrow> is_digit (hd (dec i @ r))"
  using dec_digits [of i] by (cases "dec i") auto

lemma abs_mod_0: "x mod k = 0 \<Longrightarrow> \<bar>x\<bar> mod k = 0" for x k :: int
  by (simp add: abs_if zmod_zminus1_eq_if)

lemma seconds_text_shape: "0 \<le> w \<Longrightarrow> seconds_text w \<noteq> [] \<and> seconds_text w \<noteq> ''0'' \<and> is_digit (hd (seconds_text w))"
  using dec_digits [of "w mod 60"] dec_digits [of "w div 60 mod 60"] dec_digits [of "w div 60 div 60"]
    hd_dec [of "w mod 60"] hd_dec [of "w div 60 mod 60"] hd_dec [of "w div 60 div 60"]
  by (auto simp: seconds_text_def append_eq_Cons_conv pos_imp_zdiv_nonneg_iff)

lemma duration_String_seconds:
  assumes "sint d mod 1000000000 = 0"
  shows "duration_String d = (if sint d < 0 then ''-'' else []) @ seconds_text (\<bar>sint d\<bar> div 1000000000)"
proof -
  have u: "\<bar>sint d\<bar> mod 1000000000 = 0" using assms by (rule abs_mod_0)
  show ?thesis
  proof (cases "sint d = 0")
    case True
    moreover have "dec 0 = ''0''" by code_simp
    ultimately show ?thesis by (simp add: duration_String_def seconds_text_def)
  next
    case False
    with u have "\<not> \<bar>sint d\<bar> < 1000000000" by auto
    with fmt_frac_whole [OF u] show ?thesis by (simp add: duration_String_def seconds_text_def Let_def)
  qed
qed

lemma parse_duration_roundtrip:
  assumes "sint d mod 1000000000 = 0"
  shows "ParseDuration frac (duration_String d) = Some d"
proof -
  let ?w = "\<bar>sint d\<bar> div 1000000000"
  have w: "?w * 1000000000 = \<bar>sint d\<bar>"
    using div_mult_mod_eq [of "\<bar>sint d\<bar>" 1000000000] abs_mod_0 [OF assms] by simp
  have "\<bar>sint d\<bar> \<le> 2 ^ 63" using sint_ge_min64 [of d] sint_le_max64 [of d] by auto
  then have p: "parse_loop frac 0 (seconds_text ?w) = Some (nat \<bar>sint d\<bar>)"
    using parse_seconds_text [of ?w frac] w by simp
  have shape: "seconds_text ?w \<noteq> []" "seconds_text ?w \<noteq> ''0''" "is_digit (hd (seconds_text ?w))"
    using seconds_text_shape [of ?w] by auto
  have sign: "split_sign (duration_String d) = (sint d < 0, seconds_text ?w)"
    using shape digit_not_sign [of "hd (seconds_text ?w)"]
    by (cases "seconds_text ?w") (auto simp: duration_String_seconds [OF assms] split_sign_def)
  show ?thesis using sign shape p sint_le_max64 [of d] by (auto simp: ParseDuration_def)
qed

end
