(* ===== verification/Config.thy ===== *)
theory Config
  imports GoParse
begin

text \<open>
  The configuration, \<open>src/internal/config/config.go\<close>, the levels and formats of the logger,
  \<open>src/internal/logging/logger.go\<close>, and the choice of the role in \<open>src/main.go\<close>. The environment is a function
  from names to values, the empty string for a name that is not set, as \<open>os.Getenv\<close> returns it.
\<close>

section \<open>Settings\<close>

record config =
  Role :: string
  GRPCPort :: string
  HTTPPort :: string
  MasterAddr :: string
  LogLevel :: string
  LogFormat :: string
  TaskQueueSize :: int64
  HeartbeatInterval :: duration
  HeartbeatTimeout :: duration
  WorkerDeadTimeout :: duration
  GracefulShutdownTimeout :: duration
  MaxConcurrentTasks :: int64

type_synonym environ = "string \<Rightarrow> string"

definition envOrDefault :: "environ \<Rightarrow> string \<Rightarrow> string \<Rightarrow> string" where
  "envOrDefault env key fallback = (if env key \<noteq> [] then env key else fallback)"

definition envOrDefaultInt :: "environ \<Rightarrow> string \<Rightarrow> int64 \<Rightarrow> int64" where
  "envOrDefaultInt env key fallback =
     (if env key \<noteq> [] then (case Atoi (env key) of Some n \<Rightarrow> n | None \<Rightarrow> fallback) else fallback)"

definition envOrDefaultDuration ::
    "(nat \<Rightarrow> nat \<Rightarrow> nat \<Rightarrow> nat) \<Rightarrow> environ \<Rightarrow> string \<Rightarrow> duration \<Rightarrow> duration" where
  "envOrDefaultDuration frac env key fallback =
     (if env key \<noteq> [] then (case ParseDuration frac (env key) of Some d \<Rightarrow> d | None \<Rightarrow> fallback) else fallback)"

definition Load :: "(nat \<Rightarrow> nat \<Rightarrow> nat \<Rightarrow> nat) \<Rightarrow> environ \<Rightarrow> config" where
  "Load frac env =
     \<lparr>Role = [],
      GRPCPort = envOrDefault env ''GRPC_PORT'' '':50051'',
      HTTPPort = envOrDefault env ''HTTP_PORT'' '':9092'',
      MasterAddr = envOrDefault env ''MASTER_ADDR'' ''localhost:50051'',
      LogLevel = envOrDefault env ''LOG_LEVEL'' ''info'',
      LogFormat = envOrDefault env ''LOG_FORMAT'' ''text'',
      TaskQueueSize = envOrDefaultInt env ''TASK_QUEUE_SIZE'' 100,
      HeartbeatInterval = envOrDefaultDuration frac env ''HEARTBEAT_INTERVAL'' (10 * Second),
      HeartbeatTimeout = envOrDefaultDuration frac env ''HEARTBEAT_TIMEOUT'' (30 * Second),
      WorkerDeadTimeout = envOrDefaultDuration frac env ''WORKER_DEAD_TIMEOUT'' (60 * Second),
      GracefulShutdownTimeout = envOrDefaultDuration frac env ''GRACEFUL_SHUTDOWN_TIMEOUT'' (30 * Second),
      MaxConcurrentTasks = envOrDefaultInt env ''MAX_CONCURRENT_TASKS'' 16\<rparr>"

section \<open>Logging\<close>

text \<open>\<open>strings.ToLower\<close>, on the letters the names are made of.\<close>

definition to_lower :: "string \<Rightarrow> string" where
  "to_lower = map (\<lambda>c. if (65 :: nat) \<le> of_char c \<and> of_char c \<le> (90 :: nat) then char_of (of_char c + 32 :: nat) else c)"

datatype log_level = LevelDebug | LevelInfo | LevelWarn | LevelError

definition parseLevel :: "string \<Rightarrow> log_level" where
  "parseLevel level =
     (let l = to_lower level in
      if l = ''debug'' then LevelDebug
      else if l = ''warn'' \<or> l = ''warning'' then LevelWarn
      else if l = ''error'' then LevelError
      else LevelInfo)"

datatype log_handler = JSONHandler log_level | TextHandler log_level

definition NewLogger :: "string \<Rightarrow> string \<Rightarrow> string \<Rightarrow> log_handler \<times> string" where
  "NewLogger component level format =
     (if to_lower format = ''json'' then (JSONHandler (parseLevel level), component)
      else (TextHandler (parseLevel level), component))"

section \<open>The entry point\<close>

text \<open>
  What \<open>main\<close> does with its arguments: whether it starts a master or a worker with the loaded
  configuration, and the exit code when it does not. \<open>ok\<close> says whether the part it starts succeeds.
\<close>

datatype run = RunMaster config | RunWorker config | RunNothing

definition main_role :: "(nat \<Rightarrow> nat \<Rightarrow> nat \<Rightarrow> nat) \<Rightarrow> environ \<Rightarrow> string list \<Rightarrow> (run \<Rightarrow> bool) \<Rightarrow> run \<times> nat" where
  "main_role frac env args ok =
     (if length args < 2 then (RunNothing, 1)
      else
        let cfg = (Load frac env)\<lparr>Role := args ! 1\<rparr> in
        if Role cfg = ''master'' then (RunMaster cfg, if ok (RunMaster cfg) then 0 else 1)
        else if Role cfg = ''worker'' then (RunWorker cfg, if ok (RunWorker cfg) then 0 else 1)
        else (RunNothing, 1))"

section \<open>Properties\<close>

lemma duration_String_nonempty: "sint d mod 1000000000 = 0 \<Longrightarrow> duration_String d \<noteq> []"
  using seconds_text_shape [of "\<bar>sint d\<bar> div 1000000000"] by (simp add: duration_String_seconds)

lemma fmt_int_nonempty: "fmt_int i \<noteq> []"
  using dec_digits [of i] by (simp add: fmt_int_def)

lemma set_duration:
  "sint d mod 1000000000 = 0 \<Longrightarrow> envOrDefaultDuration frac (env(k := duration_String d)) k fallback = d"
  by (simp add: envOrDefaultDuration_def duration_String_nonempty parse_duration_roundtrip)

lemma set_int: "envOrDefaultInt (env(k := fmt_int (sint i))) k fallback = i"
  by (simp add: envOrDefaultInt_def fmt_int_nonempty Atoi_fmt_int)



end
