(* ===== verification/GoMux.thy ===== *)
theory GoMux
  imports Prelude
begin

text \<open>
  Request routing of the standard library, \<open>net/http.ServeMux\<close>, as far as the master uses it: patterns
  with a method and a path whose segments are literals, single wildcards or a trailing slash, the
  descent through the routing tree with its order of alternatives, and the redirects. The locale
  \<open>route_table\<close> states what registration checks, and that the descent then finds the most specific
  pattern.
\<close>

section \<open>Paths\<close>

fun split_on :: "char \<Rightarrow> string \<Rightarrow> string list" where
  "split_on c [] = [[]]"
| "split_on c (x # xs) =
     (if x = c then [] # split_on c xs
      else case split_on c xs of [] \<Rightarrow> [[x]] | s # ss \<Rightarrow> (x # s) # ss)"

definition join_path :: "string list \<Rightarrow> string" where
  "join_path ss = concat (map (\<lambda>s. CHR ''/'' # s) ss)"

definition hex_val :: "char \<Rightarrow> nat option" where
  "hex_val c =
     (let n = of_char c :: nat in
      if 48 \<le> n \<and> n \<le> 57 then Some (n - 48)
      else if 97 \<le> n \<and> n \<le> 102 then Some (n - 87)
      else if 65 \<le> n \<and> n \<le> 70 then Some (n - 55)
      else None)"

fun url_unescape :: "string \<Rightarrow> string option" where
  "url_unescape [] = Some []"
| "url_unescape (c # cs) =
     (if c = CHR ''%'' then
        (case cs of
           a # b # r \<Rightarrow>
             (case (hex_val a, hex_val b) of
                (Some x, Some y) \<Rightarrow> map_option (Cons (char_of (16 * x + y))) (url_unescape r)
              | _ \<Rightarrow> None)
         | _ \<Rightarrow> None)
      else map_option (Cons c) (url_unescape cs))"

definition pathUnescape :: "string \<Rightarrow> string" where
  "pathUnescape s = (case url_unescape s of None \<Rightarrow> s | Some t \<Rightarrow> t)"

text \<open>\<open>path.Clean\<close> on a rooted path, one element after the other on a stack.\<close>

definition clean_elem :: "string \<Rightarrow> string list \<Rightarrow> string list" where
  "clean_elem e st = (if e = [] \<or> e = ''.'' then st else if e = ''..'' then tl st else e # st)"

definition path_Clean :: "string \<Rightarrow> string" where
  "path_Clean p =
     (let st = rev (fold clean_elem (split_on (CHR ''/'') p) []) in if st = [] then ''/'' else join_path st)"

definition ends_slash :: "string \<Rightarrow> bool" where
  "ends_slash p \<longleftrightarrow> p \<noteq> [] \<and> last p = CHR ''/''"

definition cleanPath :: "string \<Rightarrow> string" where
  "cleanPath p =
     (if p = [] then ''/''
      else
        let p = (if hd p \<noteq> CHR ''/'' then CHR ''/'' # p else p); np = path_Clean p
        in if ends_slash p \<and> np \<noteq> ''/'' then np @ ''/'' else np)"

text \<open>The segments the tree is walked with; the segment after a trailing slash is a slash.\<close>

fun walk :: "string list \<Rightarrow> string list" where
  "walk [] = []"
| "walk [s] = [if s = [] then ''/'' else pathUnescape s]"
| "walk (s # ss) = pathUnescape s # walk ss"

definition segs_of :: "string \<Rightarrow> string list" where
  "segs_of p = walk (tl (split_on (CHR ''/'') p))"

section \<open>Patterns\<close>

datatype seg = Lit string | Wild string | Multi

definition parse_seg :: "string \<Rightarrow> seg" where
  "parse_seg s =
     (if s = [] then Multi else if hd s = CHR ''{'' then Wild (butlast (tl s)) else Lit (pathUnescape s))"

text \<open>A pattern of the form \<open>METHOD /path\<close>.\<close>

definition parsePattern :: "string \<Rightarrow> string \<times> seg list" where
  "parsePattern s =
     (takeWhile (\<lambda>c. c \<noteq> CHR '' '') s,
      map parse_seg (tl (split_on (CHR ''/'') (tl (dropWhile (\<lambda>c. c \<noteq> CHR '' '') s)))))"

section \<open>The routing tree\<close>

text \<open>
  A node of the tree is the list of the routes below it, each with the segments still to match: the
  children are the routes that continue with a given literal, with a wildcard, or with the trailing slash.
\<close>

definition child :: "(seg \<Rightarrow> bool) \<Rightarrow> (seg list \<times> 'h) list \<Rightarrow> (seg list \<times> 'h) list" where
  "child f rs = [(tl p, h). (p, h) \<leftarrow> rs, p \<noteq> [] \<and> f (hd p)]"

definition leaf :: "seg list \<Rightarrow> (seg list \<times> 'h) list \<Rightarrow> 'h option" where
  "leaf p rs = map_option snd (find (\<lambda>r. fst r = p) rs)"

fun is_wild :: "seg \<Rightarrow> bool" where
  "is_wild (Wild _) = True"
| "is_wild _ = False"

fun match_path :: "(seg list \<times> 'h) list \<Rightarrow> string list \<Rightarrow> ('h \<times> string list) option" where
  "match_path rs [] = map_option (\<lambda>h. (h, [])) (leaf [] rs)"
| "match_path rs (s # ss) =
     (case match_path (child (\<lambda>g. g = Lit s) rs) ss of
        Some r \<Rightarrow> Some r
      | None \<Rightarrow>
          (case (if s \<noteq> ''/'' then match_path (child is_wild rs) ss else None) of
             Some (h, vs) \<Rightarrow> Some (h, s # vs)
           | None \<Rightarrow> map_option (\<lambda>h. (h, [])) (leaf [Multi] rs)))"

type_synonym 'h routes = "(string \<times> seg list \<times> 'h) list"

definition method_tree :: "'h routes \<Rightarrow> string \<Rightarrow> (seg list \<times> seg list \<times> 'h) list" where
  "method_tree rts m = [(p, p, h). (m', p, h) \<leftarrow> rts, m' = m]"

definition matchMethodAndPath :: "'h routes \<Rightarrow> string \<Rightarrow> string list \<Rightarrow> ((seg list \<times> 'h) \<times> string list) option" where
  "matchMethodAndPath rts m ss =
     (case match_path (method_tree rts m) ss of
        Some r \<Rightarrow> Some r
      | None \<Rightarrow>
          (case (if m = ''HEAD'' then match_path (method_tree rts ''GET'') ss else None) of
             Some r \<Rightarrow> Some r
           | None \<Rightarrow> match_path (method_tree rts []) ss))"

definition exactMatch :: "((seg list \<times> 'h) \<times> string list) option \<Rightarrow> string \<Rightarrow> bool" where
  "exactMatch r path =
     (case r of
        None \<Rightarrow> False
      | Some ((p, _), _) \<Rightarrow>
          last p \<noteq> Multi \<or> (ends_slash path \<and> length p = length (filter (\<lambda>c. c = CHR ''/'') path)))"

text \<open>What the multiplexer does with a request. The target of a redirect is not kept.\<close>

datatype 'h verdict = Moved | Found 'h "string list" | NotAllowed | NotFound

definition findHandler :: "'h routes \<Rightarrow> string \<Rightarrow> string \<Rightarrow> 'h verdict" where
  "findHandler rts m path =
     (let p = (if m = ''CONNECT'' then path else cleanPath path);
          r = matchMethodAndPath rts m (segs_of p);
          slashed = p @ ''/''
      in
        if \<not> exactMatch r p \<and> \<not> ends_slash p \<and> p \<noteq> [] \<and> exactMatch (matchMethodAndPath rts m (segs_of slashed)) slashed
        then Moved
        else if p \<noteq> path then Moved
        else
          case r of
            Some ((_, h), vs) \<Rightarrow> Found h vs
          | None \<Rightarrow>
              if list_ex (\<lambda>m'. match_path (method_tree rts m') (segs_of p) \<noteq> None \<or>
                   (\<not> ends_slash p \<and> match_path (method_tree rts m') (segs_of slashed) \<noteq> None)) (map fst rts)
              then NotAllowed else NotFound)"

section \<open>One pattern against one path, and patterns against each other\<close>

fun fits :: "seg list \<Rightarrow> string list \<Rightarrow> bool" where
  "fits [] ss \<longleftrightarrow> ss = []"
| "fits (g # p) [] \<longleftrightarrow> False"
| "fits (Lit a # p) (s # ss) \<longleftrightarrow> a = s \<and> fits p ss"
| "fits (Wild n # p) (s # ss) \<longleftrightarrow> s \<noteq> ''/'' \<and> fits p ss"
| "fits (Multi # p) (s # ss) \<longleftrightarrow> p = []"

fun path_values :: "seg list \<Rightarrow> string list \<Rightarrow> string list" where
  "path_values (Lit a # p) (s # ss) = path_values p ss"
| "path_values (Wild n # p) (s # ss) = s # path_values p ss"
| "path_values _ _ = []"

text \<open>\<open>wider p q\<close>: every path that \<open>q\<close> matches is matched by \<open>p\<close>, segment by segment.\<close>

fun wider :: "seg list \<Rightarrow> seg list \<Rightarrow> bool" where
  "wider [] q \<longleftrightarrow> q = []"
| "wider (g # p) [] \<longleftrightarrow> False"
| "wider (Multi # p) (b # q) \<longleftrightarrow> True"
| "wider (Wild n # p) (b # q) \<longleftrightarrow> b \<noteq> Multi \<and> b \<noteq> Lit ''/'' \<and> wider p q"
| "wider (Lit a # p) (b # q) \<longleftrightarrow> b = Lit a \<and> wider p q"

fun overlap :: "seg list \<Rightarrow> seg list \<Rightarrow> bool" where
  "overlap [] q \<longleftrightarrow> q = []"
| "overlap (g # p) [] \<longleftrightarrow> False"
| "overlap (g # p) (b # q) \<longleftrightarrow>
     g = Multi \<or> b = Multi \<or>
     ((case (g, b) of (Lit a, Lit c) \<Rightarrow> a = c | (Lit a, _) \<Rightarrow> a \<noteq> ''/'' | (_, Lit c) \<Rightarrow> c \<noteq> ''/'' | _ \<Rightarrow> True) \<and> overlap p q)"

text \<open>Registration panics on two patterns that overlap when neither, or each, is wider than the other.\<close>

definition conflict :: "seg list \<Rightarrow> seg list \<Rightarrow> bool" where
  "conflict p q \<longleftrightarrow> overlap p q \<and> (wider p q \<longleftrightarrow> wider q p)"

fun conflict_free :: "(seg list \<times> 'h) list \<Rightarrow> bool" where
  "conflict_free [] \<longleftrightarrow> True"
| "conflict_free (r # rs) \<longleftrightarrow> list_all (\<lambda>q. \<not> conflict (fst r) (fst q)) rs \<and> conflict_free rs"

text \<open>The trailing slash stands only at the end of a pattern.\<close>

definition proper :: "seg list \<Rightarrow> bool" where
  "proper p \<longleftrightarrow> p \<noteq> [] \<and> Multi \<notin> set (butlast p)"

section \<open>Paths that are clean as they stand\<close>

text \<open>A segment as it can stand in a path: not empty, not a dot name, without slash or percent sign.\<close>

definition plain_seg :: "string \<Rightarrow> bool" where
  "plain_seg s \<longleftrightarrow> s \<noteq> [] \<and> s \<noteq> ''.'' \<and> s \<noteq> ''..'' \<and> CHR ''/'' \<notin> set s \<and> CHR ''%'' \<notin> set s"

lemma split_on_append: "c \<notin> set s \<Longrightarrow> split_on c (s @ c # r) = s # split_on c r"
  by (induction s) auto

lemma split_on_single: "c \<notin> set s \<Longrightarrow> split_on c s = [s]"
  by (induction s) auto

lemma split_join: "list_all (\<lambda>s. CHR ''/'' \<notin> set s) ss \<Longrightarrow> split_on (CHR ''/'') (join_path ss) = [] # ss"
proof (induction ss rule: walk.induct)
  case (2 s)
  then show ?case by (simp add: join_path_def split_on_single)
next
  case (3 s t ss)
  then show ?case using split_on_append [of "CHR ''/''" s "t @ concat (map (\<lambda>s. CHR ''/'' # s) ss)"]
    by (simp add: join_path_def)
qed (simp add: join_path_def)

lemma unescape_plain: "CHR ''%'' \<notin> set s \<Longrightarrow> pathUnescape s = s"
proof -
  have "CHR ''%'' \<notin> set s \<Longrightarrow> url_unescape s = Some s" by (induction s) auto
  then show "CHR ''%'' \<notin> set s \<Longrightarrow> pathUnescape s = s" by (simp add: pathUnescape_def)
qed

lemma walk_plain: "list_all plain_seg ss \<Longrightarrow> walk ss = ss"
  by (induction ss rule: walk.induct) (auto simp: plain_seg_def unescape_plain)

lemma plain_no_slash: "list_all plain_seg ss \<Longrightarrow> list_all (\<lambda>s. CHR ''/'' \<notin> set s) ss"
  by (auto simp: list_all_iff plain_seg_def)

lemma segs_of_join: "list_all plain_seg ss \<Longrightarrow> segs_of (join_path ss) = ss"
  by (simp add: segs_of_def split_join plain_no_slash walk_plain)

lemma clean_elems: "list_all plain_seg ss \<Longrightarrow> fold clean_elem ss st = rev ss @ st"
proof (induction ss arbitrary: st)
  case (Cons s ss)
  have "clean_elem s st = s # st" using Cons.prems by (auto simp: clean_elem_def plain_seg_def)
  then show ?case using Cons by simp
qed simp

lemma last_join: "ss \<noteq> [] \<Longrightarrow> last ss \<noteq> [] \<Longrightarrow> last (join_path ss) = last (last ss)"
  by (induction ss) (auto simp: join_path_def)

lemma join_not_slashed: "list_all plain_seg ss \<Longrightarrow> ss \<noteq> [] \<Longrightarrow> \<not> ends_slash (join_path ss)"
proof -
  assume p: "list_all plain_seg ss" "ss \<noteq> []"
  then have l: "last ss \<noteq> []" "CHR ''/'' \<notin> set (last ss)" using last_in_set [OF p(2)] by (simp_all add: list_all_iff plain_seg_def)
  then have "last (last ss) \<noteq> CHR ''/''" using last_in_set [OF l(1)] by metis
  then show "\<not> ends_slash (join_path ss)" using last_join [OF p(2) l(1)] by (simp add: ends_slash_def)
qed

lemma cleanPath_join: "list_all plain_seg ss \<Longrightarrow> ss \<noteq> [] \<Longrightarrow> cleanPath (join_path ss) = join_path ss"
proof -
  assume p: "list_all plain_seg ss" "ss \<noteq> []"
  then have "hd (join_path ss) = CHR ''/''" "join_path ss \<noteq> []" by (cases ss; simp add: join_path_def)+
  moreover have "path_Clean (join_path ss) = join_path ss"
    using p by (simp add: path_Clean_def split_join plain_no_slash clean_elem_def [of "[]"] clean_elems)
  ultimately show "cleanPath (join_path ss) = join_path ss"
    using join_not_slashed [OF p] by (simp add: cleanPath_def)
qed

text \<open>The path of a pattern with the wildcards filled in.\<close>

fun fill :: "seg list \<Rightarrow> string list \<Rightarrow> string list" where
  "fill (Lit a # p) vs = a # fill p vs"
| "fill (Wild n # p) (v # vs) = v # fill p vs"
| "fill _ _ = []"

lemma fill_fits:
  "Multi \<notin> set p \<Longrightarrow> length vs = length (filter is_wild p) \<Longrightarrow> list_all plain_seg vs \<Longrightarrow>
   fits p (fill p vs) \<and> path_values p (fill p vs) = vs"
proof (induction p vs rule: fill.induct)
  case (2 n p v vs)
  then show ?case by (auto simp: plain_seg_def)
qed auto

lemma fill_plain:
  "\<forall>a. Lit a \<in> set p \<longrightarrow> plain_seg a \<Longrightarrow> list_all plain_seg vs \<Longrightarrow> list_all plain_seg (fill p vs)"
  by (induction p vs rule: fill.induct) auto

section \<open>The descent finds the most specific pattern\<close>

fun rank :: "seg \<Rightarrow> nat" where
  "rank (Lit _) = 0"
| "rank (Wild _) = 1"
| "rank Multi = 2"

text \<open>The order in which the descent tries alternatives.\<close>

fun tried_before :: "seg list \<Rightarrow> seg list \<Rightarrow> bool" where
  "tried_before (g # p) (b # q) \<longleftrightarrow> rank g < rank b \<or> (rank g = rank b \<and> tried_before p q)"
| "tried_before _ _ \<longleftrightarrow> True"

lemma rank_simps [simp]: "rank g = 0 \<longleftrightarrow> (\<exists>a. g = Lit a)" "is_wild g \<longleftrightarrow> (\<exists>n. g = Wild n)" "rank g = Suc 0 \<longleftrightarrow> (\<exists>n. g = Wild n)"
  "rank g = 2 \<longleftrightarrow> g = Multi"
  by (cases g; simp)+

lemma child_iff [simp]: "(q, h) \<in> set (child f rs) \<longleftrightarrow> (\<exists>g. (g # q, h) \<in> set rs \<and> f g)"
proof
  assume "(q, h) \<in> set (child f rs)"
  then obtain p where "(p, h) \<in> set rs" "p \<noteq> []" "f (hd p)" "q = tl p" by (auto simp: child_def)
  then show "\<exists>g. (g # q, h) \<in> set rs \<and> f g" by (cases p) auto
qed (force simp: child_def)

lemma child_lit: "(q, h) \<in> set (child (\<lambda>g. g = Lit s) rs) \<longleftrightarrow> (Lit s # q, h) \<in> set rs"
  by auto

lemma child_wild: "(q, h) \<in> set (child is_wild rs) \<longleftrightarrow> (\<exists>n. (Wild n # q, h) \<in> set rs)"
  by auto

lemma find_SomeD: "find P xs = Some x \<Longrightarrow> x \<in> set xs \<and> P x"
  by (auto simp: find_Some_iff)

lemma leaf_Some: "leaf p rs = Some h \<Longrightarrow> (p, h) \<in> set rs"
  by (auto simp: leaf_def dest: find_SomeD)

lemma leaf_None: "leaf p rs = None \<longleftrightarrow> (\<forall>h. (p, h) \<notin> set rs)"
  by (auto simp: leaf_def find_None_iff)

text \<open>A path that continues with a segment is matched by the literal, the wildcard, or the trailing slash.\<close>

lemma fits_Cons_iff:
  "fits p (s # ss) \<longleftrightarrow>
     (\<exists>q. p = Lit s # q \<and> fits q ss) \<or> (\<exists>n q. p = Wild n # q \<and> s \<noteq> ''/'' \<and> fits q ss) \<or> p = [Multi]"
proof (cases p)
  case (Cons g q)
  then show ?thesis by (cases g) auto
qed simp

lemma fits_Nil_iff [simp]: "fits p [] \<longleftrightarrow> p = []"
  by (cases p) auto

lemma match_None: "match_path rs ss = None \<longleftrightarrow> (\<forall>p h. (p, h) \<in> set rs \<longrightarrow> \<not> fits p ss)"
proof (induction ss arbitrary: rs)
  case Nil
  then show ?case by (auto simp: leaf_None)
next
  case (Cons s ss)
  have lit: "match_path (child (\<lambda>g. g = Lit s) rs) ss = None \<longleftrightarrow> (\<forall>q h. (Lit s # q, h) \<in> set rs \<longrightarrow> \<not> fits q ss)"
    unfolding Cons.IH child_lit child_wild by blast
  have wild: "match_path (child is_wild rs) ss = None \<longleftrightarrow> (\<forall>n q h. (Wild n # q, h) \<in> set rs \<longrightarrow> \<not> fits q ss)"
    unfolding Cons.IH child_lit child_wild by blast
  have "match_path rs (s # ss) = None \<longleftrightarrow> match_path (child (\<lambda>g. g = Lit s) rs) ss = None \<and>
      (s = ''/'' \<or> match_path (child is_wild rs) ss = None) \<and> leaf [Multi] rs = None"
    by (simp split: option.split)
  also have "\<dots> \<longleftrightarrow> (\<forall>p h. (p, h) \<in> set rs \<longrightarrow> \<not> fits p (s # ss))"
    unfolding lit wild leaf_None fits_Cons_iff by blast
  finally show ?case .
qed

lemma match_Some:
  "match_path rs ss = Some (h, vs) \<Longrightarrow>
   \<exists>p. (p, h) \<in> set rs \<and> fits p ss \<and> vs = path_values p ss \<and> (\<forall>q h'. (q, h') \<in> set rs \<longrightarrow> fits q ss \<longrightarrow> tried_before p q)"
proof (induction ss arbitrary: rs vs)
  case Nil
  then show ?case using leaf_Some by fastforce
next
  case (Cons s ss)
  let ?lit = "match_path (child (\<lambda>g. g = Lit s) rs) ss" and ?wild = "match_path (child is_wild rs) ss"
  consider (lit) "?lit = Some (h, vs)"
    | (wild) vs' where "?lit = None" "s \<noteq> ''/''" "?wild = Some (h, vs')" "vs = s # vs'"
    | (multi) "?lit = None" "s = ''/'' \<or> ?wild = None" "leaf [Multi] rs = Some h" "vs = []"
    using Cons.prems by (auto split: option.splits if_splits)
  then show ?case
  proof cases
    case lit
    obtain p where "(Lit s # p, h) \<in> set rs" "fits p ss" "vs = path_values p ss"
      and b: "\<forall>q h'. (Lit s # q, h') \<in> set rs \<longrightarrow> fits q ss \<longrightarrow> tried_before p q"
      using Cons.IH [OF lit] unfolding child_lit by blast
    moreover have "\<forall>q h'. (q, h') \<in> set rs \<longrightarrow> fits q (s # ss) \<longrightarrow> tried_before (Lit s # p) q"
      using b by (auto simp: fits_Cons_iff)
    ultimately show ?thesis by (intro exI [of _ "Lit s # p"]) auto
  next
    case wild
    obtain p n where "(Wild n # p, h) \<in> set rs" "fits p ss" "vs' = path_values p ss"
      and b: "\<forall>q n h'. (Wild n # q, h') \<in> set rs \<longrightarrow> fits q ss \<longrightarrow> tried_before p q"
      using Cons.IH [OF wild(3)] unfolding child_wild by blast
    moreover have "\<forall>q h'. (Lit s # q, h') \<in> set rs \<longrightarrow> \<not> fits q ss"
      using wild(1) unfolding match_None child_lit child_wild by blast
    then have "\<forall>q h'. (q, h') \<in> set rs \<longrightarrow> fits q (s # ss) \<longrightarrow> tried_before (Wild n # p) q"
      using b by (fastforce simp: fits_Cons_iff)
    ultimately show ?thesis using wild by (intro exI [of _ "Wild n # p"]) auto
  next
    case multi
    have "\<forall>q h'. (Lit s # q, h') \<in> set rs \<longrightarrow> \<not> fits q ss"
      using multi(1) unfolding match_None child_lit child_wild by blast
    moreover have "s = ''/'' \<or> (\<forall>q n h'. (Wild n # q, h') \<in> set rs \<longrightarrow> \<not> fits q ss)"
      using multi(2) unfolding match_None child_lit child_wild by blast
    ultimately have "\<forall>q h'. (q, h') \<in> set rs \<longrightarrow> fits q (s # ss) \<longrightarrow> tried_before [Multi] q"
      by (fastforce simp: fits_Cons_iff)
    then show ?thesis using multi leaf_Some by (intro exI [of _ "[Multi]"]) auto
  qed
qed

lemma fits_overlap: "fits p ss \<Longrightarrow> fits q ss \<Longrightarrow> overlap p q"
proof (induction p q arbitrary: ss rule: overlap.induct)
  case (3 g p b q)
  then obtain s ss' where "ss = s # ss'" by (cases ss) auto
  with 3 show ?case by (cases g; cases b) auto
next
  case (2 g p)
  then show ?case by (cases ss) auto
qed auto

lemma tried_before_wider: "tried_before p q \<Longrightarrow> wider p q \<Longrightarrow> wider q p"
proof (induction p q rule: wider.induct)
  case (3 p b q)
  then show ?case by (cases b) auto
next
  case (4 n p b q)
  then show ?case by (cases b) auto
qed auto

lemma wider_fits: "wider p q \<Longrightarrow> Multi \<notin> set (butlast p) \<Longrightarrow> fits q ss \<Longrightarrow> fits p ss"
proof (induction p q arbitrary: ss rule: wider.induct)
  case (3 p b q)
  then show ?case by (cases ss; cases p) auto
next
  case (4 n p b q)
  then show ?case by (cases ss; cases b; cases p) auto
next
  case (5 a p b q)
  then show ?case by (cases ss; cases p) auto
qed auto

section \<open>Tables without conflicts\<close>

lemma overlap_sym: "overlap p q \<Longrightarrow> overlap q p"
proof (induction p q rule: overlap.induct)
  case (3 g p b q)
  then show ?case by (cases g; cases b) auto
qed auto

lemma conflict_sym: "conflict p q \<longleftrightarrow> conflict q p"
  using overlap_sym by (auto simp: conflict_def)

lemma conflict_freeD:
  "conflict_free rs \<Longrightarrow> r \<in> set rs \<Longrightarrow> r' \<in> set rs \<Longrightarrow> r = r' \<or> \<not> conflict (fst r) (fst r')"
  by (induction rs) (auto simp: list_all_iff conflict_sym)

locale route_table =
  fixes rs :: "(seg list \<times> 'h) list"
  assumes no_conflict: "conflict_free rs"
begin

text \<open>The descent returns the route that matches and is narrower than every other that does.\<close>

lemma most_specific:
  "match_path rs ss = Some (h, vs) \<longleftrightarrow>
     (\<exists>p. (p, h) \<in> set rs \<and> fits p ss \<and> vs = path_values p ss \<and>
        (\<forall>q h'. (q, h') \<in> set rs \<longrightarrow> fits q ss \<longrightarrow> (q, h') \<noteq> (p, h) \<longrightarrow> wider q p \<and> \<not> wider p q))"
proof -
  let ?best = "\<lambda>p h vs. (p, h) \<in> set rs \<and> fits p ss \<and> vs = path_values p ss \<and>
        (\<forall>q h'. (q, h') \<in> set rs \<longrightarrow> fits q ss \<longrightarrow> (q, h') \<noteq> (p, h) \<longrightarrow> wider q p \<and> \<not> wider p q)"
  have found: "\<exists>p. ?best p h vs" if m: "match_path rs ss = Some (h, vs)" for h vs
  proof -
    obtain p where p: "(p, h) \<in> set rs" "fits p ss" "vs = path_values p ss"
      and b: "\<forall>q h'. (q, h') \<in> set rs \<longrightarrow> fits q ss \<longrightarrow> tried_before p q"
      using match_Some [OF m] by blast
    have "wider q p \<and> \<not> wider p q" if "(q, h') \<in> set rs" "fits q ss" "(q, h') \<noteq> (p, h)" for q h'
    proof -
      have "\<not> conflict p q" using conflict_freeD [OF no_conflict p(1) that(1)] that(3) by auto
      then have "wider p q \<noteq> wider q p" using fits_overlap [OF p(2) that(2)] by (auto simp: conflict_def)
      moreover have "tried_before p q" using b that by blast
      ultimately show ?thesis using tried_before_wider by blast
    qed
    then show ?thesis using p by blast
  qed
  have "match_path rs ss = Some (h, vs)" if best: "?best p h vs" for p
  proof -
    obtain h2 vs2 where m: "match_path rs ss = Some (h2, vs2)"
      using best match_None [of rs ss] by (cases "match_path rs ss") auto
    then obtain p2 where b2: "?best p2 h2 vs2" using found by blast
    with best have "(p2, h2) = (p, h)" by blast
    then show ?thesis using m best b2 by simp
  qed
  then show ?thesis using found by blast
qed

end

end
