(* ===== verification/Master.thy ===== *)
theory Master
  imports NodeServer GoBase64
begin

text \<open>
  The HTTP API of the master, \<open>src/internal/master/master.go\<close>: one definition per request handler,
  over the node service's state. What a handler reads from the request, the file system or the clock
  is an argument; a handler that changes state returns the response and the new state, or \<open>None\<close>
  where it would panic. Responses that a handler prints are strings; those it encodes as JSON are
  the values it encodes.
\<close>

section \<open>Responses\<close>

record http_resp =
  respCode :: nat
  respType :: string
  respBody :: string

definition http_Error :: "string \<Rightarrow> nat \<Rightarrow> http_resp" where
  "http_Error msg code =
     \<lparr>respCode = code, respType = ''text/plain; charset=utf-8'', respBody = msg @ [CHR 0x0A]\<rparr>"

definition json_ok :: "string \<Rightarrow> http_resp" where
  "json_ok body = \<lparr>respCode = 200, respType = ''application/json'', respBody = body\<rparr>"

text \<open>\<open>UnixNano\<close>: the Unix epoch is 62135596800 seconds after the zero time.\<close>

definition UnixNano :: "time \<Rightarrow> int64" where
  "UnixNano t = word_of_int (t - 62135596800 * 1000000000)"

definition fmt_d :: "int64 \<Rightarrow> string" where
  "fmt_d w = fmt_int (sint w)"

text \<open>\<open>m.eventBus.Publish\<close>; on a nil bus the call would dereference it.\<close>

definition bus_Publish :: "time \<Rightarrow> event_type \<Rightarrow> (string \<times> event_val) list \<Rightarrow> node \<Rightarrow> node option" where
  "bus_Publish now ty data n = (case evbus n of None \<Rightarrow> None | Some _ \<Rightarrow> publishEvent now ty data n)"

text \<open>
  \<open>NewMaster\<close>: the node service with an in-memory store and an event bus. The first three arguments are
  the contents of memory not yet allocated.
\<close>

definition NewMaster ::
    "tasks \<Rightarrow> (ref \<Rightarrow> breaker) \<Rightarrow> (ref \<Rightarrow> chan) \<Rightarrow> duration \<Rightarrow> duration \<Rightarrow> node" where
  "NewMaster m mem chs hb dead = NewNodeServer m mem hb dead (Some NewMemoryStore) (Some (NewBus chs))"

section \<open>Submission\<close>

text \<open>\<open>strings.HasSuffix\<close> and \<open>filepath.Join\<close> of a cleaned directory and a plain file name.\<close>

definition HasSuffix :: "string \<Rightarrow> string \<Rightarrow> bool" where
  "HasSuffix s suffix \<longleftrightarrow> length suffix \<le> length s \<and> drop (length s - length suffix) s = suffix"

text \<open>
  The loop of \<open>handleTask\<close> over the directory's entries (name, whether a directory, and the two clock
  readings taken for it); \<open>join\<close> is \<open>filepath.Join\<close>.
\<close>

record dir_entry =
  deName :: string
  deIsDir :: bool
  deNow :: time
  deCreated :: time
  dePublish :: time

fun handleTask_loop ::
    "(string \<Rightarrow> string \<Rightarrow> string) \<Rightarrow> string \<Rightarrow> dir_entry list \<Rightarrow> nat \<Rightarrow> node \<Rightarrow> (nat \<times> node) option" where
  "handleTask_loop join dir [] cnt n = Some (cnt, n)"
| "handleTask_loop join dir (f # files) cnt n =
     (if \<not> deIsDir f \<and> HasSuffix (deName f) ''.sh'' then
        let fullPath = join dir (deName f);
            taskID = ''task-'' @ fmt_d (UnixNano (deNow f)) @ ''-'' @ deName f;
            n = EnqueueTask (deCreated f) taskID fullPath n
        in (case bus_Publish (dePublish f) EventTaskQueued
                   [(''task_id'', EvStr taskID), (''script'', EvStr fullPath)] n of
              None \<Rightarrow> None
            | Some n \<Rightarrow> handleTask_loop join dir files (cnt + 1) n)
      else handleTask_loop join dir files cnt n)"

definition handleTask ::
    "(string \<Rightarrow> string \<Rightarrow> string) \<Rightarrow> string \<Rightarrow> string + dir_entry list \<Rightarrow> node \<Rightarrow> (http_resp \<times> node) option" where
  \<open>handleTask join dir entries n =
     (if dir = [] then Some (http_Error ''{"error":"missing 'dir' query parameter"}'' 400, n)
      else case entries of
        Inl err \<Rightarrow> Some (http_Error (''{"error":"failed to read directory: '' @ err @ ''"}'') 500, n)
      | Inr files \<Rightarrow>
          map_option (\<lambda>(cnt, n). (json_ok (''{"enqueued":'' @ fmt_int (int cnt) @ '',"directory":"'' @ dir @ ''"}''), n))
            (handleTask_loop join dir files 0 n))\<close>

record submitRequest =
  srLanguage :: string
  srScript :: string

text \<open>\<open>decoded\<close> is what \<open>Decode\<close> made of the body: its error or the request.\<close>

definition handleSubmit ::
    "time \<Rightarrow> time \<Rightarrow> time \<Rightarrow> string + submitRequest \<Rightarrow> node \<Rightarrow> (http_resp \<times> node) option" where
  \<open>handleSubmit now created pub decoded n =
     (case decoded of
        Inl err \<Rightarrow> Some (http_Error (''{"error":"invalid JSON: '' @ err @ ''"}'') 400, n)
      | Inr req \<Rightarrow>
          if srScript req = [] then Some (http_Error ''{"error":"missing 'script' field"}'' 400, n)
          else
            let language = (if srLanguage req = [] then ''bash'' else srLanguage req);
                taskID = ''inline-'' @ fmt_d (UnixNano now);
                n = EnqueueInlineTask created taskID (srScript req) language n
            in map_option (Pair (json_ok (''{"task_id":"'' @ taskID @ ''","type":"inline","language":"'' @ language @ ''"}'')))
                 (bus_Publish pub EventTaskQueued
                    [(''task_id'', EvStr taskID), (''type'', EvStr ''inline''), (''language'', EvStr language)] n))\<close>

text \<open>
  The parts of an upload: parsing the form, opening the file and reading it can each fail.
\<close>

record upload =
  upForm :: "string option"
  upFile :: bool
  upData :: "string + string"
  upEntrypoint :: string
  upLanguage :: string

definition handleUpload ::
    "time \<Rightarrow> time \<Rightarrow> time \<Rightarrow> upload \<Rightarrow> node \<Rightarrow> (http_resp \<times> node) option" where
  \<open>handleUpload now created pub up n =
     (case upForm up of
        Some err \<Rightarrow> Some (http_Error (''{"error":"parse form: '' @ err @ ''"}'') 400, n)
      | None \<Rightarrow>
          if \<not> upFile up then Some (http_Error ''{"error":"missing 'archive' file field"}'' 400, n)
          else case upData up of
            Inl err \<Rightarrow> Some (http_Error (''{"error":"read archive: '' @ err @ ''"}'') 500, n)
          | Inr data \<Rightarrow>
              let entrypoint = (if upEntrypoint up = [] then ''./run.sh'' else upEntrypoint up);
                  language = (if upLanguage up = [] then ''bash'' else upLanguage up);
                  taskID = ''archive-'' @ fmt_d (UnixNano now);
                  n = EnqueueArchiveTask created taskID (EncodeToString data) entrypoint language n
              in map_option (Pair (json_ok (''{"task_id":"'' @ taskID @ ''","type":"archive","entrypoint":"'' @ entrypoint @
                     ''","size_bytes":'' @ fmt_int (int (length data)) @ ''}'')))
                   (bus_Publish pub EventTaskQueued
                      [(''task_id'', EvStr taskID), (''type'', EvStr ''archive''), (''entrypoint'', EvStr entrypoint)] n))\<close>

section \<open>Chaos and batches\<close>

definition handleRetryDLQ :: "string \<Rightarrow> node \<Rightarrow> http_resp \<times> node" where
  \<open>handleRetryDLQ taskID n =
     (if taskID = [] then (http_Error ''{"error":"missing task id"}'' 400, n)
      else case sched_RetryFromDLQ taskID (heap n, sched n) of
        (ok, m, s) \<Rightarrow>
          (if ok then json_ok (''{"retried":"'' @ taskID @ ''"}'')
           else http_Error ''{"error":"task not found in dead letter queue"}'' 404,
           n\<lparr>heap := m, sched := s\<rparr>))\<close>

definition handleChaosKillWorker :: "time \<Rightarrow> string \<Rightarrow> node \<Rightarrow> (http_resp \<times> node) option" where
  \<open>handleChaosKillWorker pub workerID n =
     (if workerID = [] then Some (http_Error ''{"error":"missing worker id"}'' 400, n)
      else case DisconnectWorker workerID n of
        (True, n) \<Rightarrow>
          map_option (Pair (json_ok (''{"killed":"'' @ workerID @ ''"}'')))
            (bus_Publish pub EventChaosWorkerKilled [(''worker_id'', EvStr workerID)] n)
      | (False, n) \<Rightarrow> Some (http_Error ''{"error":"worker not found or not connected"}'' 404, n))\<close>

definition with_breaker :: "string \<Rightarrow> (breaker \<Rightarrow> breaker) \<Rightarrow> node \<Rightarrow> node" where
  "with_breaker w f n = (case reg_Get w (regs n) of (cb, rs) \<Rightarrow> n\<lparr>regs := at_cell cb f rs\<rparr>)"

definition handleChaosTripCB :: "time \<Rightarrow> time \<Rightarrow> string \<Rightarrow> node \<Rightarrow> (http_resp \<times> node) option" where
  \<open>handleChaosTripCB now pub workerID n =
     (if workerID = [] then Some (http_Error ''{"error":"missing worker id"}'' 400, n)
      else map_option (Pair (json_ok (''{"tripped":"'' @ workerID @ ''","state":"OPEN"}'')))
        (bus_Publish pub EventChaosCBTripped [(''worker_id'', EvStr workerID)] (with_breaker workerID (Trip now) n)))\<close>

definition handleChaosResetCB :: "time \<Rightarrow> string \<Rightarrow> node \<Rightarrow> (http_resp \<times> node) option" where
  \<open>handleChaosResetCB pub workerID n =
     (if workerID = [] then Some (http_Error ''{"error":"missing worker id"}'' 400, n)
      else map_option (Pair (json_ok (''{"reset":"'' @ workerID @ ''","state":"CLOSED"}'')))
        (bus_Publish pub EventChaosCBReset [(''worker_id'', EvStr workerID)] (with_breaker workerID Reset n)))\<close>

text \<open>A missing key of the script map reads as the empty string.\<close>

definition failScripts :: "string \<Rightarrow> string" where
  "failScripts language =
     (if language = ''bash'' then ''echo 'chaos: intentional failure'; exit 1''
      else if language = ''python'' then ''import sys; print('chaos: intentional failure'); sys.exit(1)''
      else if language = ''node'' then ''console.log('chaos: intentional failure'); process.exit(1)''
      else [])"

definition fail_count :: "int64 \<Rightarrow> int64" where
  "fail_count c =
     (let c = (if c \<le>s 0 then 5 else c) in if 100 <s c then 100 else c)"

text \<open>The \<open>i\<close>-th turn of the loop reads the clock for the identifier and for \<open>CreatedAt\<close>.\<close>

definition chaos_turn :: "(nat \<Rightarrow> time \<times> time) \<Rightarrow> string \<Rightarrow> string \<Rightarrow> nat \<Rightarrow> node \<Rightarrow> node" where
  "chaos_turn clock script language i n =
     EnqueueInlineTask (snd (clock i)) (''chaos-fail-'' @ fmt_d (UnixNano (fst (clock i))) @ ''-'' @ fmt_int (int i))
       script language n"

record failRequest =
  frCount :: int64
  frLanguage :: string

definition handleChaosFailTasks ::
    "(nat \<Rightarrow> time \<times> time) \<Rightarrow> time \<Rightarrow> string + failRequest \<Rightarrow> node \<Rightarrow> (http_resp \<times> node) option" where
  \<open>handleChaosFailTasks clock pub decoded n =
     (case decoded of
        Inl _ \<Rightarrow> Some (http_Error ''{"error":"invalid JSON"}'' 400, n)
      | Inr req \<Rightarrow>
          let count = fail_count (frCount req);
              language = (if frLanguage req = [] then ''bash'' else frLanguage req);
              script = failScripts language;
              script = (if script = [] then failScripts ''bash'' else script);
              n = fold (chaos_turn clock script language) [0..<nat (sint count)] n
          in map_option (Pair (json_ok (''{"submitted":'' @ fmt_d count @ '',"type":"chaos-fail"}'')))
               (bus_Publish pub EventBatchSubmitted
                  [(''count'', EvStr (fmt_d count)), (''type'', EvStr ''chaos-fail'')] n))\<close>

record batchRequest =
  brCount :: int64
  brLanguage :: string
  brScript :: string
  brSleepMs :: int64
  brPriority :: int64

definition batch_count :: "int64 \<Rightarrow> int64" where
  "batch_count c =
     (let c = (if c \<le>s 0 then 100 else c) in if 10000 <s c then 10000 else c)"

definition sleepSec :: "int64 \<Rightarrow> string" where
  "sleepSec ms = (if 0 <s ms then ''0.'' @ fmt_int_pad 3 (sint ms) else ''0.1'')"

definition defaultScripts :: "int64 \<Rightarrow> string \<Rightarrow> string" where
  \<open>defaultScripts ms language =
     (if language = ''bash'' then ''echo "batch-task $(hostname) $$"; sleep '' @ sleepSec ms @ ''; echo "done"''
      else if language = ''python''
        then ''import time, os; print(f"batch-task {os.getpid()}"); time.sleep('' @ sleepSec ms @ ''); print("done")''
      else if language = ''node''
        then ''console.log("batch-task " + process.pid); setTimeout(() => console.log("done"), '' @ fmt_d ms @ '')''
      else [])\<close>

definition batch_script :: "batchRequest \<Rightarrow> string \<Rightarrow> string" where
  "batch_script req language =
     (if brScript req \<noteq> [] then brScript req
      else if defaultScripts (brSleepMs req) language \<noteq> [] then defaultScripts (brSleepMs req) language
      else defaultScripts (brSleepMs req) ''bash'')"

definition batch_task :: "(nat \<Rightarrow> time) \<Rightarrow> string \<Rightarrow> string \<Rightarrow> string \<Rightarrow> int64 \<Rightarrow> nat \<Rightarrow> task" where
  "batch_task clock batchID script language prio i =
     (let t = NewInline (clock i) (batchID @ ''-'' @ fmt_int_pad 5 (int i)) script language
      in if 0 \<le>s prio \<and> prio \<le>s 2 then t\<lparr>tPriority := prio\<rparr> else t)"

definition batch_turn :: "(nat \<Rightarrow> time) \<Rightarrow> string \<Rightarrow> string \<Rightarrow> string \<Rightarrow> int64 \<Rightarrow> nat \<Rightarrow> node \<Rightarrow> node" where
  "batch_turn clock batchID script language prio i n =
     (case alloc_task (batch_task clock batchID script language prio i) n of
        (p, n) \<Rightarrow> EnqueueInlineTaskDirect p n)"

text \<open>\<open>Duration.Milliseconds\<close> divides towards zero.\<close>

definition Milliseconds :: "duration \<Rightarrow> int64" where
  "Milliseconds d = word_of_int (sgn (sint d) * (\<bar>sint d\<bar> div 1000000))"

definition handleBatchSubmit ::
    "time \<Rightarrow> time \<Rightarrow> (nat \<Rightarrow> time) \<Rightarrow> time \<Rightarrow> string + batchRequest \<Rightarrow> node \<Rightarrow> (http_resp \<times> node) option" where
  \<open>handleBatchSubmit start stop clock pub decoded n =
     (case decoded of
        Inl err \<Rightarrow> Some (http_Error (''{"error":"invalid JSON: '' @ err @ ''"}'') 400, n)
      | Inr req \<Rightarrow>
          let count = batch_count (brCount req);
              language = (if brLanguage req = [] then ''bash'' else brLanguage req);
              script = batch_script req language;
              batchID = ''batch-'' @ fmt_d (UnixNano start);
              n = fold (batch_turn clock batchID script language (brPriority req)) [0..<nat (sint count)] n;
              elapsed = time_Sub stop start
          in map_option (Pair (json_ok (''{"batch_id":"'' @ batchID @ ''","count":'' @ fmt_d count @
                 '',"elapsed_ms":'' @ fmt_d (Milliseconds elapsed) @ ''}'')))
               (bus_Publish pub EventBatchSubmitted
                  [(''batch_id'', EvStr batchID), (''count'', EvStr (fmt_d count)), (''language'', EvStr language)] n))\<close>

section \<open>Queries\<close>

text \<open>\<open>fmt\<close> is \<open>Format(time.RFC3339)\<close> in the process's time zone.\<close>

definition fmt_set :: "(time \<Rightarrow> string) \<Rightarrow> time \<Rightarrow> string" where
  "fmt_set fmt t = (if IsZero t then [] else fmt t)"

record taskJSON =
  tjID :: string
  tjScript :: string
  tjState :: string
  tjWorkerID :: string
  tjAttempt :: int32
  tjPriority :: int64
  tjType :: string
  tjLanguage :: string
  tjOutput :: string
  tjError :: string
  tjExitCode :: int32
  tjCreatedAt :: string
  tjAssignedAt :: string
  tjStartedAt :: string
  tjCompletedAt :: string
  tjDurationMs :: int64

definition task_json :: "(time \<Rightarrow> string) \<Rightarrow> task \<Rightarrow> taskJSON" where
  "task_json fmt t =
     \<lparr>tjID = tID t, tjScript = tScript t, tjState = state_String (tState t), tjWorkerID = tWorkerID t,
      tjAttempt = tAttempt t, tjPriority = tPriority t, tjType = task_type_String (tType t),
      tjLanguage = tLanguage t, tjOutput = tOutput t, tjError = tError t, tjExitCode = tExitCode t,
      tjCreatedAt = fmt_set fmt (tCreatedAt t), tjAssignedAt = fmt_set fmt (tAssignedAt t),
      tjStartedAt = fmt_set fmt (tStartedAt t), tjCompletedAt = fmt_set fmt (tCompletedAt t),
      tjDurationMs = (if 0 <s task_Duration t then Milliseconds (task_Duration t) else 0)\<rparr>"

definition handleTasks :: "(time \<Rightarrow> string) \<Rightarrow> string list \<Rightarrow> node \<Rightarrow> taskJSON list" where
  "handleTasks fmt ks n = map (\<lambda>p. task_json fmt (heap n p)) (AllTasks ks (sched n))"

record dlqJSON =
  djID :: string
  djScript :: string
  djError :: string
  djAttempts :: int32
  djLanguage :: string
  djType :: string
  djOutput :: string
  djExitCode :: int32
  djCreatedAt :: string

definition handleDeadLetter :: "(time \<Rightarrow> string) \<Rightarrow> node \<Rightarrow> dlqJSON list" where
  "handleDeadLetter fmt n =
     map (\<lambda>p. let t = heap n p in
       \<lparr>djID = tID t, djScript = tScript t, djError = tError t, djAttempts = tAttempt t,
        djLanguage = tLanguage t, djType = task_type_String (tType t), djOutput = tOutput t,
        djExitCode = tExitCode t, djCreatedAt = fmt_set fmt (tCreatedAt t)\<rparr>)
       (DeadLetterQueue (sched n))"

text \<open>\<open>WorkerState.String\<close> of the generated protobuf code, and \<open>int64(d.Seconds())\<close>, which goes through
  a float, are arguments.\<close>

record workerJSON =
  wjID :: string
  wjHostname :: string
  wjState :: string
  wjActiveTasks :: int32
  wjLastHeartbeat :: string
  wjUptimeSeconds :: int64
  wjCircuitBreaker :: "cb_info option"

definition handleWorkers ::
    "(time \<Rightarrow> string) \<Rightarrow> (worker_state \<Rightarrow> string) \<Rightarrow> (duration \<Rightarrow> int64) \<Rightarrow> time \<Rightarrow> string list \<Rightarrow> string list \<Rightarrow>
     node \<Rightarrow> workerJSON list" where
  "handleWorkers fmt wstr secs now wks cks n =
     (let cbStates = GetAll fmt cks (regs n) in
      map (\<lambda>wk. \<lparr>wjID = wiID wk, wjHostname = wiHostname wk, wjState = wstr (wiState wk),
          wjActiveTasks = wiActiveTasks wk, wjLastHeartbeat = fmt (wiLastHeartbeat wk),
          wjUptimeSeconds = secs (time_Sub now (wiStartTime wk)),
          wjCircuitBreaker = gm_get cbStates (wiID wk)\<rparr>)
        (GetWorkers wks n))"

text \<open>\<open>rate\<close> is the rounding of the success percentage, in floats, called when the total is positive.\<close>

record 'f statsJSON =
  sjQueueDepth :: nat
  sjInFlight :: nat
  sjRetryPending :: nat
  sjDeadLettered :: nat
  sjWorkers :: nat
  sjCompleted :: int64
  sjFailed :: int64
  sjSuccessRate :: 'f

definition handleStats :: "(int64 \<Rightarrow> int64 \<Rightarrow> 'f :: zero) \<Rightarrow> string list \<Rightarrow> node \<Rightarrow> 'f statsJSON" where
  "handleStats rate wks n =
     (let st = Stats (sched n); total = TotalCompleted st + TotalFailed st in
      \<lparr>sjQueueDepth = QueueDepth st, sjInFlight = InFlight st, sjRetryPending = RetryPending st,
       sjDeadLettered = DeadLettered st, sjWorkers = length (GetWorkers wks n),
       sjCompleted = TotalCompleted st, sjFailed = TotalFailed st,
       sjSuccessRate = (if 0 <s total then rate (TotalCompleted st) total else 0)\<rparr>)"

text \<open>\<open>docs\<close> is the embedded file system: \<open>None\<close> when \<open>ReadFile\<close> fails.\<close>

definition handleDocContent :: "(string \<Rightarrow> string option) \<Rightarrow> string \<Rightarrow> http_resp" where
  \<open>handleDocContent docs name =
     (if name = [] then http_Error ''{"error":"missing doc name"}'' 400
      else case docs (''docs/'' @ name @ ''.md'') of
        None \<Rightarrow> http_Error ''{"error":"document not found"}'' 404
      | Some content \<Rightarrow> \<lparr>respCode = 200, respType = ''text/markdown; charset=utf-8'', respBody = content\<rparr>)\<close>

section \<open>What the properties are stated with\<close>

text \<open>From \<open>n\<close> to \<open>n'\<close>, the tasks \<open>tk 0, \<dots>, tk (k - 1)\<close> have been allocated and queued, in a signalled
  scheduler, and every other task and list is as before.\<close>

definition queued_new :: "(nat \<Rightarrow> task) \<Rightarrow> nat \<Rightarrow> node \<Rightarrow> node \<Rightarrow> bool" where
  "queued_new tk k n n' \<longleftrightarrow>
     next_task n' = next_task n + k \<and>
     (\<forall>p. heap n' p = (if next_task n \<le> p \<and> p < next_task n + k then tk (p - next_task n) else heap n p)) \<and>
     mset (queue (sched n')) = mset (queue (sched n)) + mset [next_task n..<next_task n + k] \<and>
     retryQueue (sched n') = retryQueue (sched n) \<and> deadLetter (sched n') = deadLetter (sched n) \<and>
     inFlight (sched n') = inFlight (sched n) \<and> (0 < k \<longrightarrow> notify (sched n'))"

text \<open>The breaker a call for worker \<open>w\<close> meets: the registered one, or the one \<open>Get\<close> would make.\<close>

definition breaker_of :: "string \<Rightarrow> node \<Rightarrow> breaker" where
  "breaker_of w n = (case reg_Get w (regs n) of (p, r) \<Rightarrow> cells r p)"

text \<open>The task that turn \<open>i\<close> of the chaos loop creates.\<close>

definition chaos_task :: "(nat \<Rightarrow> time \<times> time) \<Rightarrow> string \<Rightarrow> string \<Rightarrow> nat \<Rightarrow> task" where
  "chaos_task clock script language i =
     NewInline (snd (clock i)) (''chaos-fail-'' @ fmt_d (UnixNano (fst (clock i))) @ ''-'' @ fmt_int (int i))
       script language"

text \<open>A new master, for the examples.\<close>

definition sample_master :: node where
  "sample_master = NewMaster (\<lambda>_. New 0 [] []) (\<lambda>_. cb_New [] 1 1 0) (\<lambda>_. \<lparr>ch_buf = [], ch_closed = False\<rparr>) 30 60"

lemma sample_master_bus:
  "evbus sample_master = Some (NewBus (\<lambda>_. \<lparr>ch_buf = [], ch_closed = False\<rparr>))"
  "bus_ok (NewBus (\<lambda>_. \<lparr>ch_buf = [], ch_closed = False\<rparr>))"
  by (simp_all add: sample_master_def NewMaster_def NewNodeServer_def bus_ok_def NewBus_def)

lemma sample_master_queue: "queue (sched sample_master) = []" "next_task sample_master = 0"
  by (simp_all add: sample_master_def NewMaster_def NewNodeServer_def NewScheduler_def heap_Init_def)

section \<open>What a submission does\<close>

lemma enqueue_new_effect:
  "heap (enqueue_new t n) = (heap n)(next_task n := t)"
  "next_task (enqueue_new t n) = next_task n + 1"
  "live (sched (enqueue_new t n)) = add_mset (next_task n) (live (sched n))"
  "mset (queue (sched (enqueue_new t n))) = add_mset (next_task n) (mset (queue (sched n)))"
  "retryQueue (sched (enqueue_new t n)) = retryQueue (sched n)"
  "deadLetter (sched (enqueue_new t n)) = deadLetter (sched n)"
  "inFlight (sched (enqueue_new t n)) = inFlight (sched n)"
  "notify (sched (enqueue_new t n))"
  "evbus (enqueue_new t n) = evbus n"
  "regs (enqueue_new t n) = regs n"
  "workers (enqueue_new t n) = workers n"
  by (simp_all add: enqueue_new_def alloc_task_def enqueue_def Let_def live_Enqueue)
    (simp_all add: Enqueue_def Notify_def push_queue_def mset_heap_Push)

lemma queued_new_0: "queued_new tk 0 n n"
  by (auto simp: queued_new_def)

lemma queued_new_Suc:
  assumes "queued_new tk k n n'"
  shows "queued_new tk (Suc k) n (enqueue_new (tk k) n')"
  using assms by (auto simp: queued_new_def enqueue_new_effect less_Suc_eq)

text \<open>A loop whose every turn enqueues one new task; the batch and the chaos handlers run one each.\<close>

locale submission_loop =
  fixes turn :: "nat \<Rightarrow> node \<Rightarrow> node" and tk :: "nat \<Rightarrow> task"
  assumes turn_enqueues: "turn i n = enqueue_new (tk i) n"
begin

lemma loop_effect: "queued_new tk k n (fold turn [0..<k] n)"
proof (induction k)
  case (Suc k)
  then have "queued_new tk (Suc k) n (enqueue_new (tk k) (fold turn [0..<k] n))" by (rule queued_new_Suc)
  then show ?case unfolding turn_enqueues [symmetric] by simp
qed (simp add: queued_new_0)

lemma loop_bus: "evbus (fold turn ks n) = evbus n"
  by (induction ks arbitrary: n) (simp_all add: turn_enqueues enqueue_new_effect)

end

interpretation batch: submission_loop
  "batch_turn clock batchID script language prio" "batch_task clock batchID script language prio"
  for clock batchID script language prio
  by unfold_locales (simp add: batch_turn_def EnqueueInlineTaskDirect_def enqueue_new_def)

interpretation chaos: submission_loop "chaos_turn clock script language" "chaos_task clock script language"
  for clock script language
  by unfold_locales (simp add: chaos_turn_def chaos_task_def EnqueueInlineTask_def)

text \<open>With a bus, publishing an event touches nothing but the subscribers' buffers.\<close>

lemma bus_Publish_ok:
  assumes "evbus n = Some b" and "bus_ok b"
  obtains b' where "bus_Publish now ty data n = Some (n\<lparr>evbus := Some b'\<rparr>)" "bus_ok b'"
proof -
  have "node_bus_ok n" using assms by (simp add: node_bus_ok_def)
  then obtain c where c: "publishEvent now ty data n = Some (n\<lparr>evbus := c\<rparr>)" "node_bus_ok (n\<lparr>evbus := c\<rparr>)"
    by (rule publishEvent_ok)
  obtain b' where "publishEvent now ty data n = Some (n\<lparr>evbus := Some b'\<rparr>)"
    using c(1) assms(1) by (auto simp: publishEvent_def)
  then have "n\<lparr>evbus := c\<rparr> = n\<lparr>evbus := Some b'\<rparr>" using c(1) by simp
  from arg_cong [OF this, of evbus] have "c = Some b'" by simp
  with c assms(1) that [of b'] show ?thesis by (simp add: bus_Publish_def node_bus_ok_def)
qed

lemma queued_new_evbus: "queued_new tk k n n' \<Longrightarrow> queued_new tk k n (n'\<lparr>evbus := b\<rparr>)"
  by (simp add: queued_new_def)

lemma batch_count_range: "1 \<le> sint (batch_count c)" "sint (batch_count c) \<le> 10000"
  by (auto simp: batch_count_def Let_def word_sless_alt word_sle_eq)

lemma fail_count_range: "1 \<le> sint (fail_count c)" "sint (fail_count c) \<le> 100"
  by (auto simp: fail_count_def Let_def word_sless_alt word_sle_eq)

lemma batch_task_ids: "inj (\<lambda>i. tID (batch_task clock batchID script language prio i))"
  by (rule injI) (simp add: batch_task_def NewInline_def New_def Let_def fmt_int_pad_inject split: if_splits)

lemma batch_script_nonempty: "batch_script req language \<noteq> []"
  by (simp add: batch_script_def defaultScripts_def)

text \<open>C32: A batch submission enqueues exactly the requested number of inline tasks, 100 when the request
  names none and 10000 at most, and answers with that number. Their identifiers are pairwise different,
  their script is never empty, their priority is the requested one when it is 0, 1 or 2 and normal
  otherwise; no other task and no other list of the scheduler changes.\<close>

theorem batch_submits_count:
  assumes "evbus n = Some b" and "bus_ok b"
  shows \<open>\<exists>k n' tk body. handleBatchSubmit start stop clock pub (Inr req) n = Some (json_ok body, n') \<and>
    k = (if sint (brCount req) \<le> 0 then 100 else if 10000 < sint (brCount req) then 10000 else nat (sint (brCount req))) \<and>
    body = ''{"batch_id":"'' @ ''batch-'' @ fmt_d (UnixNano start) @ ''","count":'' @ fmt_int (int k) @
      '',"elapsed_ms":'' @ fmt_d (Milliseconds (time_Sub stop start)) @ ''}'' \<and>
    queued_new tk k n n' \<and> inj (\<lambda>i. tID (tk i)) \<and>
    (\<forall>i. tState (tk i) = StateQueued \<and> tType (tk i) = TaskTypeInline \<and> tContent (tk i) \<noteq> [] \<and>
       tLanguage (tk i) = (if brLanguage req = [] then ''bash'' else brLanguage req) \<and>
       tPriority (tk i) = (if sint (brPriority req) \<in> {0..2} then brPriority req else PriorityNormal))\<close>
proof -
  let ?l = "if brLanguage req = [] then ''bash'' else brLanguage req"
  let ?s = "batch_script req ?l" and ?id = "''batch-'' @ fmt_d (UnixNano start)"
  let ?c = "batch_count (brCount req)"
  let ?tk = "batch_task clock ?id ?s ?l (brPriority req)"
  let ?n = "fold (batch_turn clock ?id ?s ?l (brPriority req)) [0..<nat (sint ?c)] n"
  have "evbus ?n = Some b" using assms(1) by (simp add: batch.loop_bus)
  then obtain b' where "bus_Publish pub EventBatchSubmitted
      [(''batch_id'', EvStr ?id), (''count'', EvStr (fmt_d ?c)), (''language'', EvStr ?l)] ?n = Some (?n\<lparr>evbus := Some b'\<rparr>)"
    using assms(2) by (rule bus_Publish_ok)
  then have handled: \<open>handleBatchSubmit start stop clock pub (Inr req) n =
      Some (json_ok (''{"batch_id":"'' @ ?id @ ''","count":'' @ fmt_d ?c @
        '',"elapsed_ms":'' @ fmt_d (Milliseconds (time_Sub stop start)) @ ''}''), ?n\<lparr>evbus := Some b'\<rparr>)\<close>
    by (simp add: handleBatchSubmit_def Let_def)
  have queued: "queued_new ?tk (nat (sint ?c)) n (?n\<lparr>evbus := Some b'\<rparr>)"
    by (intro queued_new_evbus batch.loop_effect)
  have fields: "tContent (?tk i) \<noteq> []" "tPriority (?tk i) = (if sint (brPriority req) \<in> {0..2} then brPriority req else PriorityNormal)"
    "tState (?tk i) = StateQueued" "tType (?tk i) = TaskTypeInline" "tLanguage (?tk i) = ?l" for i
    using batch_script_nonempty [of req ?l]
    by (simp_all add: batch_task_def NewInline_def New_def Let_def word_sle_eq)
  have count: "nat (sint ?c) = (if sint (brCount req) \<le> 0 then 100 else if 10000 < sint (brCount req) then 10000
      else nat (sint (brCount req)))"
    by (simp add: batch_count_def Let_def word_sless_alt word_sle_eq)
  have printed: "fmt_d ?c = fmt_int (int (nat (sint ?c)))"
    using batch_count_range(1) [of "brCount req"] by (simp add: fmt_d_def)
  show ?thesis
    by (rule exI [of _ "nat (sint ?c)"], rule exI [of _ "?n\<lparr>evbus := Some b'\<rparr>"], rule exI [of _ ?tk], rule exI,
        intro conjI allI, rule handled)
      (simp_all only: count [symmetric] printed append_assoc fields queued batch_task_ids not_False_eq_True)
qed


theorem batch_submits_count_witness:
  "\<exists>n' body. handleBatchSubmit 5 9 (\<lambda>i. 6 + int i) 10 (Inr \<lparr>brCount = 20000, brLanguage = [], brScript = [],
       brSleepMs = 0, brPriority = 2\<rparr>) sample_master = Some (json_ok body, n') \<and>
     mset (queue (sched n')) = mset [0..<10000] \<and> tPriority (heap n' 9999) = 2"
proof -
  let ?req = "\<lparr>brCount = 20000, brLanguage = [], brScript = [], brSleepMs = 0, brPriority = 2\<rparr> :: batchRequest"
  obtain k n' tk body where
    h: "handleBatchSubmit 5 9 (\<lambda>i. 6 + int i) 10 (Inr ?req) sample_master = Some (json_ok body, n')" and
    k: "k = (if sint (brCount ?req) \<le> 0 then 100 else if 10000 < sint (brCount ?req) then 10000 else nat (sint (brCount ?req)))" and
    q: "queued_new tk k sample_master n'" and
    tk: "\<forall>i. tState (tk i) = StateQueued \<and> tType (tk i) = TaskTypeInline \<and> tContent (tk i) \<noteq> [] \<and>
       tLanguage (tk i) = (if brLanguage ?req = [] then ''bash'' else brLanguage ?req) \<and>
       tPriority (tk i) = (if sint (brPriority ?req) \<in> {0..2} then brPriority ?req else PriorityNormal)"
    using batch_submits_count [OF sample_master_bus, of 5 9 "\<lambda>i. 6 + int i" 10 ?req] by blast
  from k have "k = 10000" by simp
  with q tk have "mset (queue (sched n')) = mset [0..<10000]" "tPriority (heap n' 9999) = 2"
    by (simp_all add: queued_new_def sample_master_queue del: upt_rec_numeral)
  with h show ?thesis by blast
qed

text \<open>A submission whose body does not decode or has no script is answered with 400 and changes
  nothing; every other one is answered with 200 and enqueues exactly one inline task with the script
  and the language, bash by default.\<close>

theorem submit_checks_then_queues:
  assumes "evbus n = Some b" and "bus_ok b"
  shows "\<exists>resp n'. handleSubmit now created pub decoded n = Some (resp, n') \<and>
    (case decoded of
       Inl err \<Rightarrow> respCode resp = 400 \<and> n' = n
     | Inr req \<Rightarrow>
         if srScript req = [] then respCode resp = 400 \<and> n' = n
         else respCode resp = 200 \<and>
           queued_new (\<lambda>_. NewInline created (''inline-'' @ fmt_d (UnixNano now)) (srScript req)
             (if srLanguage req = [] then ''bash'' else srLanguage req)) 1 n n')"
proof (cases decoded)
  case (Inl err)
  then show ?thesis by (simp add: handleSubmit_def http_Error_def)
next
  case (Inr req)
  show ?thesis
  proof (cases "srScript req = []")
    case True
    with Inr show ?thesis by (simp add: handleSubmit_def http_Error_def)
  next
    case False
    let ?l = "if srLanguage req = [] then ''bash'' else srLanguage req" and ?id = "''inline-'' @ fmt_d (UnixNano now)"
    let ?n = "EnqueueInlineTask created ?id (srScript req) ?l n"
    have "evbus ?n = Some b" using assms(1) by (simp add: EnqueueInlineTask_def enqueue_new_effect)
    then obtain b' where "bus_Publish pub EventTaskQueued
        [(''task_id'', EvStr ?id), (''type'', EvStr ''inline''), (''language'', EvStr ?l)] ?n = Some (?n\<lparr>evbus := Some b'\<rparr>)"
      using assms(2) by (rule bus_Publish_ok)
    moreover have "queued_new (\<lambda>_. NewInline created ?id (srScript req) ?l) 1 n (?n\<lparr>evbus := Some b'\<rparr>)"
      using queued_new_Suc [OF queued_new_0, of "\<lambda>_. NewInline created ?id (srScript req) ?l" n]
      by (simp add: queued_new_evbus EnqueueInlineTask_def)
    ultimately show ?thesis using Inr False
      by (simp add: handleSubmit_def Let_def json_ok_def)
  qed
qed

theorem submit_checks_then_queues_witness:
  "(\<exists>resp n'. handleSubmit 5 6 7 (Inr \<lparr>srLanguage = [], srScript = ''exit 0''\<rparr>) sample_master = Some (resp, n') \<and>
      respCode resp = 200 \<and> queue (sched n') = [0] \<and> tLanguage (heap n' 0) = ''bash'') \<and>
   (\<exists>resp. handleSubmit 5 6 7 (Inr \<lparr>srLanguage = ''node'', srScript = []\<rparr>) sample_master = Some (resp, sample_master) \<and>
      respCode resp = 400)"
  using submit_checks_then_queues [OF sample_master_bus, of 5 6 7 "Inr \<lparr>srLanguage = [], srScript = ''exit 0''\<rparr>"]
    submit_checks_then_queues [OF sample_master_bus, of 5 6 7 "Inr \<lparr>srLanguage = ''node'', srScript = []\<rparr>"]
  by (auto simp: queued_new_def sample_master_queue NewInline_def)

text \<open>A complete upload enqueues one archive task with the encoded bytes.\<close>

lemma upload_queues:
  assumes "evbus n = Some b" and "bus_ok b" and "upForm up = None" and "upFile up" and "upData up = Inr data"
  obtains resp n' where "handleUpload now created pub up n = Some (resp, n')" "respCode resp = 200"
    "queued_new (\<lambda>_. NewArchive created (''archive-'' @ fmt_d (UnixNano now)) (EncodeToString data)
       (if upEntrypoint up = [] then ''./run.sh'' else upEntrypoint up)
       (if upLanguage up = [] then ''bash'' else upLanguage up)) 1 n n'"
proof -
  let ?e = "if upEntrypoint up = [] then ''./run.sh'' else upEntrypoint up"
  let ?l = "if upLanguage up = [] then ''bash'' else upLanguage up" and ?id = "''archive-'' @ fmt_d (UnixNano now)"
  let ?n = "EnqueueArchiveTask created ?id (EncodeToString data) ?e ?l n"
  have "evbus ?n = Some b" using assms(1) by (simp add: EnqueueArchiveTask_def enqueue_new_effect)
  then obtain b' where "bus_Publish pub EventTaskQueued
      [(''task_id'', EvStr ?id), (''type'', EvStr ''archive''), (''entrypoint'', EvStr ?e)] ?n = Some (?n\<lparr>evbus := Some b'\<rparr>)"
    using assms(2) by (rule bus_Publish_ok)
  then have "\<exists>body. handleUpload now created pub up n = Some (json_ok body, ?n\<lparr>evbus := Some b'\<rparr>)"
    using assms(3-5) by (simp add: handleUpload_def Let_def) blast
  moreover have "queued_new (\<lambda>_. NewArchive created ?id (EncodeToString data) ?e ?l) 1 n (?n\<lparr>evbus := Some b'\<rparr>)"
    using queued_new_Suc [OF queued_new_0, of "\<lambda>_. NewArchive created ?id (EncodeToString data) ?e ?l" n]
    by (simp add: queued_new_evbus EnqueueArchiveTask_def)
  ultimately show ?thesis using that by (fastforce simp: json_ok_def)
qed

lemma breaker_of_with [simp]: "breaker_of w (with_breaker w f n) = f (breaker_of w n)"
proof (cases "gm_get (breakers (regs n)) w")
  case None
  then show ?thesis
    by (simp add: breaker_of_def with_breaker_def reg_Get_def Get_read_def Get_write_def at_cell_def Let_def)
next
  case (Some q)
  then show ?thesis by (simp add: breaker_of_def with_breaker_def reg_Get_def Get_read_def at_cell_def)
qed

lemma breaker_of_evbus [simp]: "breaker_of w (n\<lparr>evbus := b\<rparr>) = breaker_of w n"
  by (simp add: breaker_of_def)

lemma with_breaker_frame [simp]:
  "heap (with_breaker w f n) = heap n" "sched (with_breaker w f n) = sched n"
  "workers (with_breaker w f n) = workers n" "evbus (with_breaker w f n) = evbus n"
  by (simp_all add: with_breaker_def split: prod.split)

text \<open>Tripping a worker's breaker over the API blocks every dispatch to the worker until the breaker's
  timeout has passed, and resetting it lets dispatches through at once with the failure count cleared;
  neither touches a task or the scheduler.\<close>

theorem chaos_trip_and_reset:
  assumes "evbus n = Some b" and "bus_ok b" and "w \<noteq> []" and "sint (cbTimeout (breaker_of w n)) < 9223372036854775807"
  shows "\<exists>resp n1 resp' n2. handleChaosTripCB now pub w n = Some (resp, n1) \<and> handleChaosResetCB pub' w n1 = Some (resp', n2) \<and>
    respCode resp = 200 \<and> respCode resp' = 200 \<and> heap n2 = heap n \<and> sched n1 = sched n \<and> sched n2 = sched n \<and>
    (\<forall>t. fst (Allow t (breaker_of w n1)) = (sint (cbTimeout (breaker_of w n)) < t - now)) \<and>
    (\<forall>t. fst (Allow t (breaker_of w n2))) \<and> failureCount (breaker_of w n2) = 0"
proof -
  have "evbus (with_breaker w (Trip now) n) = Some b" using assms(1) by simp
  then obtain b1 where 1: "bus_Publish pub EventChaosCBTripped [(''worker_id'', EvStr w)] (with_breaker w (Trip now) n) =
      Some (with_breaker w (Trip now) n\<lparr>evbus := Some b1\<rparr>)" "bus_ok b1"
    using assms(2) by (rule bus_Publish_ok)
  let ?n1 = "with_breaker w (Trip now) n\<lparr>evbus := Some b1\<rparr>"
  have "evbus (with_breaker w Reset ?n1) = Some b1" by simp
  then obtain b2 where 2: "bus_Publish pub' EventChaosCBReset [(''worker_id'', EvStr w)] (with_breaker w Reset ?n1) =
      Some (with_breaker w Reset ?n1\<lparr>evbus := Some b2\<rparr>)"
    using 1(2) by (rule bus_Publish_ok)
  show ?thesis using assms(3,4) 1(1) 2
    by (simp add: handleChaosTripCB_def handleChaosResetCB_def json_ok_def cb_defs sint_time_Sub_greater word_sless_alt)
qed

theorem chaos_trip_and_reset_witness:
  "\<exists>resp n1 resp' n2. handleChaosTripCB 100 101 ''w1'' sample_master = Some (resp, n1) \<and>
     handleChaosResetCB 102 ''w1'' n1 = Some (resp', n2) \<and>
     \<not> fst (Allow 30000000100 (breaker_of ''w1'' n1)) \<and> fst (Allow 30000000101 (breaker_of ''w1'' n1)) \<and>
     fst (Allow 103 (breaker_of ''w1'' n2))"
proof -
  have t: "sint (cbTimeout (breaker_of ''w1'' sample_master)) = 30000000000"
    by (simp add: breaker_of_def sample_master_def NewMaster_def NewNodeServer_def NewRegistry_def reg_Get_def
      Get_read_def Get_write_def cb_New_def Let_def Second_def)
  show ?thesis using chaos_trip_and_reset [OF sample_master_bus, of "''w1''" 100 101 102] unfolding t by fastforce
qed

text \<open>The sleep of a default batch script, written as \<open>0.\<close> and the milliseconds padded to three digits,
  is the requested duration exactly when that is below a second: 1500 milliseconds are written \<open>0.1500\<close>.\<close>

theorem sleep_literal_below_a_second:
  assumes "0 <s ms"
  shows "\<exists>ds. sleepSec ms = ''0.'' @ ds \<and>
    (digits_val ds * 1000 = sint ms * 10 ^ length ds \<longleftrightarrow> sint ms < 1000)"
proof -
  let ?i = "sint ms" and ?ds = "pad_zeros 3 (dec (sint ms))"
  have pos: "0 < ?i" using assms by (simp add: word_sless_alt)
  have len: "length ?ds = 3 \<longleftrightarrow> ?i < 1000"
  proof (cases "?i < 1000")
    case True
    then have "length (dec ?i) \<le> 3" using pos length_dec_le [of ?i 2] by simp
    with True show ?thesis by (simp add: pad_zeros_def)
  next
    case False
    then have "3 < length (dec ?i)" using length_dec_gt [of 3 ?i] by simp
    with False show ?thesis by (simp add: pad_zeros_def)
  qed
  have "digits_val ?ds * 1000 = ?i * 10 ^ length ?ds \<longleftrightarrow> (10 :: int) ^ length ?ds = 10 ^ 3" using pos by auto
  also have "\<dots> \<longleftrightarrow> length ?ds = 3" by (rule power_inject_exp) simp
  finally have "digits_val ?ds * 1000 = ?i * 10 ^ length ?ds \<longleftrightarrow> ?i < 1000" using len by simp
  moreover have "sleepSec ms = ''0.'' @ ?ds" using assms pos by (simp add: sleepSec_def fmt_int_pad_def)
  ultimately show ?thesis by blast
qed

theorem sleep_literal_below_a_second_witness:
  "(\<exists>ds. sleepSec 250 = ''0.'' @ ds \<and> digits_val ds * 1000 = 250 * 10 ^ length ds) \<and>
   (\<exists>ds. sleepSec 1500 = ''0.'' @ ds \<and> digits_val ds * 1000 \<noteq> 1500 * 10 ^ length ds)"
  using sleep_literal_below_a_second [of 250] sleep_literal_below_a_second [of 1500]
  by (simp add: word_sless_alt)

text \<open>The chaos handler enqueues between one and a hundred failing tasks.\<close>

lemma chaos_fail_submits:
  assumes "evbus n = Some b" and "bus_ok b"
  obtains n' resp script where "handleChaosFailTasks clock pub (Inr req) n = Some (resp, n')" "respCode resp = 200"
    "queued_new (chaos_task clock script (if frLanguage req = [] then ''bash'' else frLanguage req))
       (nat (sint (fail_count (frCount req)))) n n'"
proof -
  let ?l = "if frLanguage req = [] then ''bash'' else frLanguage req"
  let ?s = "if failScripts ?l = [] then failScripts ''bash'' else failScripts ?l" and ?c = "fail_count (frCount req)"
  let ?n = "fold (chaos_turn clock ?s ?l) [0..<nat (sint ?c)] n"
  have "evbus ?n = Some b" using assms(1) by (simp add: chaos.loop_bus)
  then obtain b' where "bus_Publish pub EventBatchSubmitted [(''count'', EvStr (fmt_d ?c)), (''type'', EvStr ''chaos-fail'')] ?n =
      Some (?n\<lparr>evbus := Some b'\<rparr>)"
    using assms(2) by (rule bus_Publish_ok)
  then have "\<exists>body. handleChaosFailTasks clock pub (Inr req) n = Some (json_ok body, ?n\<lparr>evbus := Some b'\<rparr>)"
    by (simp add: handleChaosFailTasks_def Let_def) blast
  then show ?thesis using queued_new_evbus [OF chaos.loop_effect] that by (fastforce simp: json_ok_def)
qed

end
