(* ===== verification/Middleware.thy ===== *)
theory Middleware
  imports Master
begin

text \<open>
  What wraps the handlers: the rate limiter around the HTTP API
  (\<open>src/internal/middleware/rate_limiter.go\<close>), the interceptors around the gRPC calls
  (\<open>src/internal/interceptors/interceptors.go\<close>), and the health endpoints
  (\<open>src/internal/health/health.go\<close>).
\<close>

section \<open>Rate limiting\<close>

text \<open>\<open>allow\<close> is \<open>rate.Limiter.Allow\<close> on the limiter's state; a handler is a function of the request and the
  server's state.\<close>

definition Wrap ::
    "('l \<Rightarrow> bool \<times> 'l) \<Rightarrow> ('q \<Rightarrow> 's \<Rightarrow> http_resp \<times> 's) \<Rightarrow> 'q \<Rightarrow> 'l \<times> 's \<Rightarrow> http_resp \<times> 'l \<times> 's" where
  \<open>Wrap allow next_handler r =
     (\<lambda>(lim, s). case allow lim of
        (False, lim) \<Rightarrow> (http_Error ''{"error":"rate limit exceeded"}'' 429, lim, s)
      | (True, lim) \<Rightarrow> (case next_handler r s of (resp, s) \<Rightarrow> (resp, lim, s)))\<close>

text \<open>Requests one after the other, and the answers of the limiter to as many.\<close>

fun serve_http :: "('q \<Rightarrow> 'st \<Rightarrow> http_resp \<times> 'st) \<Rightarrow> 'q list \<Rightarrow> 'st \<Rightarrow> http_resp list \<times> 'st" where
  "serve_http h [] st = ([], st)"
| "serve_http h (q # qs) st =
     (case h q st of (resp, st) \<Rightarrow> (case serve_http h qs st of (resps, st) \<Rightarrow> (resp # resps, st)))"

fun admissions :: "('l \<Rightarrow> bool \<times> 'l) \<Rightarrow> nat \<Rightarrow> 'l \<Rightarrow> bool list \<times> 'l" where
  "admissions allow 0 lim = ([], lim)"
| "admissions allow (Suc k) lim =
     (case allow lim of (b, lim) \<Rightarrow> (case admissions allow k lim of (bs, lim) \<Rightarrow> (b # bs, lim)))"

section \<open>Interceptors\<close>

text \<open>A status is its code and message. A call returns a response and an error, or panics.\<close>

type_synonym status = "nat \<times> string"

datatype 'r call = Panics | Returns "'r option" "status option"

text \<open>\<open>path.Base\<close>: the last element of a slash-separated path.\<close>

definition path_Base :: "string \<Rightarrow> string" where
  "path_Base path =
     (if path = [] then ''.''
      else
        let stripped = rev (dropWhile (\<lambda>c. c = CHR ''/'') (rev path));
            base = rev (takeWhile (\<lambda>c. c \<noteq> CHR ''/'') (rev stripped))
        in if base = [] then ''/'' else base)"

text \<open>One observation of the histogram and of the counter: method, status, duration.\<close>

type_synonym rpc_metric = "string \<times> string \<times> duration"

record rpc_info =
  riStart :: time
  riStop :: time
  riFullMethod :: string

text \<open>\<open>code\<close> is \<open>status.Code(err).String()\<close> of the gRPC library. A panic skips what follows the call; the
  deferred function then sets the error, and the response is still nil.\<close>

definition UnaryServerInterceptor ::
    "(status option \<Rightarrow> string) \<Rightarrow> ('q \<Rightarrow> 's \<Rightarrow> 'r call \<times> 's) \<Rightarrow> rpc_info \<Rightarrow> 'q \<Rightarrow> 's \<times> rpc_metric list \<Rightarrow>
     ('r option \<times> status option) \<times> 's \<times> rpc_metric list" where
  "UnaryServerInterceptor code handler info req =
     (\<lambda>(s, metrics).
        case handler req s of
          (Panics, s) \<Rightarrow> ((None, Some (13, ''internal error'')), s, metrics)
        | (Returns resp err, s) \<Rightarrow>
            ((resp, err), s,
             metrics @ [(path_Base (riFullMethod info), code err, time_Sub (riStop info) (riStart info))]))"

text \<open>A stream handler returns an error only.\<close>

definition StreamServerInterceptor ::
    "(status option \<Rightarrow> string) \<Rightarrow> ('q \<Rightarrow> 's \<Rightarrow> unit call \<times> 's) \<Rightarrow> rpc_info \<Rightarrow> 'q \<Rightarrow> 's \<times> rpc_metric list \<Rightarrow>
     status option \<times> 's \<times> rpc_metric list" where
  "StreamServerInterceptor code handler info srv =
     (\<lambda>(s, metrics).
        case handler srv s of
          (Panics, s) \<Rightarrow> (Some (13, ''internal error''), s, metrics)
        | (Returns _ err, s) \<Rightarrow>
            (err, s, metrics @ [(path_Base (riFullMethod info), code err, time_Sub (riStop info) (riStart info))]))"

text \<open>Calls one after the other, intercepted and bare.\<close>

fun serve_rpc ::
    "(rpc_info \<Rightarrow> 'q \<Rightarrow> 'st \<Rightarrow> 'o \<times> 'st) \<Rightarrow> (rpc_info \<times> 'q) list \<Rightarrow> 'st \<Rightarrow> 'o list \<times> 'st" where
  "serve_rpc h [] st = ([], st)"
| "serve_rpc h ((i, q) # qs) st =
     (case h i q st of (r, st) \<Rightarrow> (case serve_rpc h qs st of (rs, st) \<Rightarrow> (r # rs, st)))"

section \<open>Health\<close>

record checker =
  ready :: bool

definition NewChecker :: checker where
  "NewChecker = \<lparr>ready = False\<rparr>"

definition SetReady :: "bool \<Rightarrow> checker \<Rightarrow> checker" where
  "SetReady r c = c\<lparr>ready := r\<rparr>"

definition status_json :: "nat \<Rightarrow> string \<Rightarrow> http_resp" where
  \<open>status_json code st =
     \<lparr>respCode = code, respType = ''application/json'', respBody = ''{"status":"'' @ st @ ''"}'' @ [CHR 0x0A]\<rparr>\<close>

definition LivenessHandler :: "checker \<Rightarrow> http_resp" where
  "LivenessHandler c = status_json 200 ''alive''"

definition ReadinessHandler :: "checker \<Rightarrow> http_resp" where
  "ReadinessHandler c = (if ready c then status_json 200 ''ready'' else status_json 503 ''not ready'')"

section \<open>Properties\<close>

text \<open>The limited server is the plain server on the admitted requests.\<close>

lemma limited_run:
  "serve_http (Wrap allow h) qs (lim, s) = (resps, lim', s') \<Longrightarrow>
   admissions allow (length qs) lim = (bs, lim'') \<Longrightarrow>
   lim' = lim'' \<and>
   (map snd (filter fst (zip bs resps)), s') = serve_http h (map snd (filter fst (zip bs qs))) s \<and>
   list_all (\<lambda>(b, r). b \<or> respCode r = 429) (zip bs resps) \<and> length resps = length qs"
proof (induction qs arbitrary: lim s resps bs lim'')
  case (Cons q qs)
  obtain b l1 where a: "allow lim = (b, l1)" by fastforce
  obtain bs1 l2 where as: "admissions allow (length qs) l1 = (bs1, l2)" by fastforce
  have bs: "bs = b # bs1" "lim'' = l2" using Cons.prems(2) a as by simp_all
  obtain r1 s2 where h: "h q s = (r1, s2)" by fastforce
  obtain r s1 where r: "Wrap allow h q (lim, s) = (r, l1, s1)" using a h by (cases b) (auto simp: Wrap_def)
  obtain rs where rs: "serve_http (Wrap allow h) qs (l1, s1) = (rs, lim', s')" "resps = r # rs"
    using Cons.prems(1) r by (auto split: prod.splits)
  note IH = Cons.IH [OF rs(1) as]
  show ?case
  proof (cases b)
    case True
    then have "h q s = (r, s1)" using r a by (auto simp: Wrap_def split: prod.splits)
    with IH True bs rs show ?thesis by (auto split: prod.splits)
  next
    case False
    then have "respCode r = 429" "s1 = s" using r a by (auto simp: Wrap_def http_Error_def)
    with IH False bs rs show ?thesis by auto
  qed
qed auto

text \<open>Without the wrapper: a panic of the handler becomes the error a client sees.\<close>

fun as_result :: "'r call \<Rightarrow> 'r option \<times> status option" where
  "as_result Panics = (None, Some (13, ''internal error''))"
| "as_result (Returns resp err) = (resp, err)"

fun metric_of :: "(status option \<Rightarrow> string) \<Rightarrow> rpc_info \<times> 'r call \<Rightarrow> rpc_metric list" where
  "metric_of code (i, Panics) = []"
| "metric_of code (i, Returns resp err) = [(path_Base (riFullMethod i), code err, time_Sub (riStop i) (riStart i))]"

lemma intercepted_run:
  "serve_rpc (UnaryServerInterceptor code h) calls (s, ms) =
     (case serve_rpc (\<lambda>i. h) calls s of
        (rs, s') \<Rightarrow> (map as_result rs, s', ms @ concat (map (metric_of code) (zip (map fst calls) rs))))"
proof (induction calls arbitrary: s ms)
  case (Cons c calls)
  obtain i q where c: "c = (i, q)" by fastforce
  obtain r s1 where r: "h q s = (r, s1)" by fastforce
  show ?case using Cons.IH
    by (cases r) (simp_all add: c r UnaryServerInterceptor_def split: prod.split)
qed simp


end
