(* ===== verification/Router.thy ===== *)
theory Router
  imports GoMux Middleware
begin

text \<open>
  The HTTP server of the master, \<open>startHTTP\<close> in \<open>src/internal/master/master.go\<close>: the table of patterns,
  what each endpoint does with the state of the node, and the multiplexer in front of them.
\<close>

section \<open>The table\<close>

datatype endpoint =
    EpLiveness | EpReadiness | EpMetrics | EpTask | EpStats | EpWorkers | EpTasks | EpDeadLetter | EpRetryDLQ
  | EpSubmit | EpUpload | EpWebSocket | EpKillWorker | EpTripCB | EpResetCB | EpFailTasks | EpBatchSubmit
  | EpDocsList | EpDocContent | EpPprof string | EpDashboard

definition startHTTP_patterns :: "(string \<times> endpoint) list" where
  "startHTTP_patterns =
     [(''GET /healthz'', EpLiveness),
      (''GET /readyz'', EpReadiness),
      (''GET /metrics'', EpMetrics),
      (''POST /tasks'', EpTask),
      (''GET /api/v1/stats'', EpStats),
      (''GET /api/v1/workers'', EpWorkers),
      (''GET /api/v1/tasks'', EpTasks),
      (''GET /api/v1/dead-letter'', EpDeadLetter),
      (''POST /api/v1/dead-letter/{id}/retry'', EpRetryDLQ),
      (''POST /api/v1/submit'', EpSubmit),
      (''POST /api/v1/upload'', EpUpload),
      (''GET /api/v1/events'', EpWebSocket),
      (''POST /api/v1/chaos/kill-worker/{id}'', EpKillWorker),
      (''POST /api/v1/chaos/trip-cb/{id}'', EpTripCB),
      (''POST /api/v1/chaos/reset-cb/{id}'', EpResetCB),
      (''POST /api/v1/chaos/fail-tasks'', EpFailTasks),
      (''POST /api/v1/batch-submit'', EpBatchSubmit),
      (''GET /api/v1/docs'', EpDocsList),
      (''GET /api/v1/docs/{name}'', EpDocContent),
      (''GET /debug/pprof/'', EpPprof ''index''),
      (''GET /debug/pprof/cmdline'', EpPprof ''cmdline''),
      (''GET /debug/pprof/profile'', EpPprof ''profile''),
      (''GET /debug/pprof/symbol'', EpPprof ''symbol''),
      (''GET /debug/pprof/trace'', EpPprof ''trace''),
      (''GET /'', EpDashboard)]"

definition routes :: "endpoint routes" where
  "routes = map (\<lambda>(s, e). case parsePattern s of (m, p) \<Rightarrow> (m, p, e)) startHTTP_patterns"

section \<open>The endpoints\<close>

text \<open>\<open>handleDocsList\<close>: the encoder writes the keys of each map in order.\<close>

definition handleDocsList :: http_resp where
  \<open>handleDocsList = json_ok (
     ''{"docs":['' @
     ''{"description":"System diagrams, communication patterns, and package dependencies","name":"ARCHITECTURE","title":"Architecture"},'' @
     ''{"description":"Every feature mapped to distributed systems theory and real-world systems","name":"DISTRIBUTED_SYSTEMS_CONCEPTS","title":"Distributed Systems Concepts"},'' @
     ''{"description":"Setup for local, Docker Compose, and Kubernetes deployment","name":"INSTALLATION","title":"Installation Guide"}'' @
     '']}'' @ [CHR 0x0A])\<close>

text \<open>
  What a request brings: its method and path, the query, the outcome of reading its body for each handler
  that reads one, the directory it names, the readings of the clock, and the orders in which the maps are
  iterated. \<open>inUpgraded\<close> says whether the websocket handshake succeeds.
\<close>

record http_in =
  inMethod :: string
  inPath :: string
  inDir :: string
  inEntries :: "string + dir_entry list"
  inSubmit :: "string + submitRequest"
  inUpload :: upload
  inFail :: "string + failRequest"
  inBatch :: "string + batchRequest"
  inNow :: time
  inCreated :: time
  inPub :: time
  inStop :: time
  inClock :: "nat \<Rightarrow> time"
  inClocks :: "nat \<Rightarrow> time \<times> time"
  inTaskOrder :: "string list"
  inWorkerOrder :: "string list"
  inBreakerOrder :: "string list"
  inUpgraded :: bool

text \<open>
  What the libraries contribute: the joining of paths, the rendering of times, states, durations and rates,
  the JSON encoder, the embedded documents, and the pages and redirects they write themselves. \<open>dash\<close> says
  whether the embedded dashboard could be opened.
\<close>

record 'f views =
  vwJoin :: "string \<Rightarrow> string \<Rightarrow> string"
  vwFmt :: "time \<Rightarrow> string"
  vwState :: "worker_state \<Rightarrow> string"
  vwSecs :: "duration \<Rightarrow> int64"
  vwRate :: "int64 \<Rightarrow> int64 \<Rightarrow> 'f"
  vwStats :: "'f statsJSON \<Rightarrow> string"
  vwWorkers :: "workerJSON list \<Rightarrow> string"
  vwTasks :: "taskJSON list \<Rightarrow> string"
  vwDead :: "dlqJSON list \<Rightarrow> string"
  vwDocs :: "string \<Rightarrow> string option"
  vwPage :: "endpoint \<Rightarrow> string \<Rightarrow> http_resp"
  vwMoved :: "string \<Rightarrow> http_resp"
  vwUpgrade :: "bool \<Rightarrow> http_resp"
  vwDash :: bool

definition PathValue :: "string list \<Rightarrow> string" where
  "PathValue vs = (case vs of [] \<Rightarrow> [] | v # _ \<Rightarrow> v)"

text \<open>An upgraded connection is subscribed to the bus; \<open>Dashboard\<close> follows what its handler does then.\<close>

definition open_events :: "bool \<Rightarrow> node \<Rightarrow> node option" where
  "open_events ok n =
     (if \<not> ok then Some n
      else case evbus n of None \<Rightarrow> None | Some b \<Rightarrow> Some (n\<lparr>evbus := Some (snd (Subscribe b))\<rparr>))"

definition serve_endpoint ::
    "('f :: zero) views \<Rightarrow> checker \<Rightarrow> http_in \<Rightarrow> endpoint \<Rightarrow> string list \<Rightarrow> node \<Rightarrow> (http_resp \<times> node) option" where
  \<open>serve_endpoint vw chk r ep vs n =
     (case ep of
        EpLiveness \<Rightarrow> Some (LivenessHandler chk, n)
      | EpReadiness \<Rightarrow> Some (ReadinessHandler chk, n)
      | EpTask \<Rightarrow> handleTask (vwJoin vw) (inDir r) (inEntries r) n
      | EpStats \<Rightarrow> Some (json_ok (vwStats vw (handleStats (vwRate vw) (inWorkerOrder r) n)), n)
      | EpWorkers \<Rightarrow>
          Some (json_ok (vwWorkers vw
            (handleWorkers (vwFmt vw) (vwState vw) (vwSecs vw) (inNow r) (inWorkerOrder r) (inBreakerOrder r) n)), n)
      | EpTasks \<Rightarrow> Some (json_ok (vwTasks vw (handleTasks (vwFmt vw) (inTaskOrder r) n)), n)
      | EpDeadLetter \<Rightarrow> Some (json_ok (vwDead vw (handleDeadLetter (vwFmt vw) n)), n)
      | EpRetryDLQ \<Rightarrow> Some (handleRetryDLQ (PathValue vs) n)
      | EpSubmit \<Rightarrow> handleSubmit (inNow r) (inCreated r) (inPub r) (inSubmit r) n
      | EpUpload \<Rightarrow> handleUpload (inNow r) (inCreated r) (inPub r) (inUpload r) n
      | EpWebSocket \<Rightarrow> map_option (Pair (vwUpgrade vw (inUpgraded r))) (open_events (inUpgraded r) n)
      | EpKillWorker \<Rightarrow> handleChaosKillWorker (inPub r) (PathValue vs) n
      | EpTripCB \<Rightarrow> handleChaosTripCB (inNow r) (inPub r) (PathValue vs) n
      | EpResetCB \<Rightarrow> handleChaosResetCB (inPub r) (PathValue vs) n
      | EpFailTasks \<Rightarrow> handleChaosFailTasks (inClocks r) (inPub r) (inFail r) n
      | EpBatchSubmit \<Rightarrow> handleBatchSubmit (inNow r) (inStop r) (inClock r) (inPub r) (inBatch r) n
      | EpDocsList \<Rightarrow> Some (handleDocsList, n)
      | EpDocContent \<Rightarrow> Some (handleDocContent (vwDocs vw) (PathValue vs), n)
      | EpDashboard \<Rightarrow>
          Some (if vwDash vw then vwPage vw ep (inPath r)
                else json_ok ''{"service":"master-worker","status":"running","dashboard":"unavailable"}'', n)
      | _ \<Rightarrow> Some (vwPage vw ep (inPath r), n))\<close>

definition serve_mux ::
    "('f :: zero) views \<Rightarrow> checker \<Rightarrow> http_in \<Rightarrow> node \<Rightarrow> (http_resp \<times> node) option" where
  "serve_mux vw chk r n =
     (case findHandler routes (inMethod r) (inPath r) of
        Moved \<Rightarrow> Some (vwMoved vw (inPath r), n)
      | NotAllowed \<Rightarrow> Some (http_Error ''Method Not Allowed'' 405, n)
      | NotFound \<Rightarrow> Some (http_Error ''404 page not found'' 404, n)
      | Found ep vs \<Rightarrow> serve_endpoint vw chk r ep vs n)"

text \<open>A request and pages, for the examples.\<close>

definition sample_in :: "string \<Rightarrow> string \<Rightarrow> http_in" where
  "sample_in m path =
     \<lparr>inMethod = m, inPath = path, inDir = [], inEntries = Inr [], inSubmit = Inl [],
      inUpload = \<lparr>upForm = None, upFile = False, upData = Inl [], upEntrypoint = [], upLanguage = []\<rparr>,
      inFail = Inl [], inBatch = Inl [], inNow = 5, inCreated = 5, inPub = 5, inStop = 5, inClock = (\<lambda>_. 5),
      inClocks = (\<lambda>_. (5, 5)), inTaskOrder = [], inWorkerOrder = [], inBreakerOrder = [], inUpgraded = True\<rparr>"

definition sample_views :: "int views" where
  "sample_views =
     \<lparr>vwJoin = (\<lambda>a b. a @ ''/'' @ b), vwFmt = (\<lambda>_. []), vwState = (\<lambda>_. []), vwSecs = (\<lambda>_. 0), vwRate = (\<lambda>_ _. 0),
      vwStats = (\<lambda>_. []), vwWorkers = (\<lambda>_. []), vwTasks = (\<lambda>_. []), vwDead = (\<lambda>_. []), vwDocs = (\<lambda>_. None),
      vwPage = (\<lambda>_ _. json_ok []), vwMoved = (\<lambda>_. json_ok []), vwUpgrade = (\<lambda>_. json_ok []), vwDash = True\<rparr>"

section \<open>Registration succeeds\<close>

text \<open>No two patterns of one method conflict: the descent finds the most specific one.\<close>

interpretation gets: route_table "method_tree routes ''GET''"
  by unfold_locales code_simp

interpretation posts: route_table "method_tree routes ''POST''"
  by unfold_locales code_simp

lemma methods_of_routes: "(m, p, e) \<in> set routes \<Longrightarrow> m = ''GET'' \<or> m = ''POST''"
proof -
  have "list_all (\<lambda>(m, p, e). m = ''GET'' \<or> m = ''POST'') routes" by code_simp
  then show "(m, p, e) \<in> set routes \<Longrightarrow> m = ''GET'' \<or> m = ''POST''" by (auto simp: list_all_iff)
qed

lemma routes_proper: "(m, p, e) \<in> set routes \<Longrightarrow> p \<noteq> [] \<and> Multi \<notin> set (butlast p)"
proof -
  have "list_all (\<lambda>(m, p, e). p \<noteq> [] \<and> \<not> List.member (butlast p) Multi) routes" by code_simp
  then show "(m, p, e) \<in> set routes \<Longrightarrow> p \<noteq> [] \<and> Multi \<notin> set (butlast p)" by (auto simp: list_all_iff)
qed

lemma method_tree_iff: "(p, r) \<in> set (method_tree rts m) \<longleftrightarrow> fst r = p \<and> (m, r) \<in> set rts"
  by (cases r) (auto simp: method_tree_def)

text \<open>A pattern that does not end in a slash has no narrower pattern beside it.\<close>

lemma no_narrower:
  "(m, p, e) \<in> set routes \<Longrightarrow> (m, q, e') \<in> set routes \<Longrightarrow> last p \<noteq> Multi \<Longrightarrow> wider p q \<Longrightarrow> p = q \<and> e = e'"
proof -
  have "list_all (\<lambda>(m, p, e). list_all (\<lambda>(m', q, e'). m = m' \<and> last p \<noteq> Multi \<and> wider p q \<longrightarrow> p = q \<and> e = e') routes) routes"
    by code_simp
  then show "(m, p, e) \<in> set routes \<Longrightarrow> (m, q, e') \<in> set routes \<Longrightarrow> last p \<noteq> Multi \<Longrightarrow> wider p q \<Longrightarrow> p = q \<and> e = e'"
    by (fastforce simp: list_all_iff)
qed

lemma specific_match:
  assumes "(m, p, e) \<in> set routes" "last p \<noteq> Multi" "fits p ss"
  shows "match_path (method_tree routes m) ss = Some ((p, e), path_values p ss)"
proof -
  have cf: "route_table (method_tree routes m)"
    using methods_of_routes [OF assms(1)] gets.route_table_axioms posts.route_table_axioms by auto
  have "(p, p, e) \<in> set (method_tree routes m)" using assms by (simp add: method_tree_iff)
  then obtain h vs where m: "match_path (method_tree routes m) ss = Some (h, vs)"
    using assms(3) match_None [of "method_tree routes m" ss] by (cases "match_path (method_tree routes m) ss") auto
  then obtain q where q: "(q, h) \<in> set (method_tree routes m)" "vs = path_values q ss"
    "(p, p, e) \<noteq> (q, h) \<Longrightarrow> wider p q"
    using route_table.most_specific [OF cf] \<open>(p, p, e) \<in> _\<close> assms(3) by metis
  obtain e' where h: "h = (q, e')" "(m, q, e') \<in> set routes" using q(1) by (cases h) (auto simp: method_tree_iff)
  have "p = q \<and> e = e'" using no_narrower [OF assms(1) h(2) assms(2)] q(3) h(1) by auto
  then show ?thesis using m q h by simp
qed

lemma route_literals: "(m, p, e) \<in> set routes \<Longrightarrow> \<forall>a. Lit a \<in> set p \<longrightarrow> plain_seg a"
proof -
  have "list_all (\<lambda>(m, p, e). list_all (\<lambda>g. case g of Lit a \<Rightarrow> plain_seg a | _ \<Rightarrow> True) p) routes" by code_simp
  then show "(m, p, e) \<in> set routes \<Longrightarrow> \<forall>a. Lit a \<in> set p \<longrightarrow> plain_seg a"
    by (force simp: list_all_iff split: seg.splits)
qed

lemma parsed_route: "(pat, e) \<in> set startHTTP_patterns \<Longrightarrow> parsePattern pat = (m, p) \<Longrightarrow> (m, p, e) \<in> set routes"
  by (force simp: routes_def)

lemma no_tree: "m \<noteq> ''GET'' \<Longrightarrow> m \<noteq> ''POST'' \<Longrightarrow> method_tree routes m = []"
proof -
  assume "m \<noteq> ''GET''" "m \<noteq> ''POST''"
  then have "(p, r) \<notin> set (method_tree routes m)" for p r
    using methods_of_routes by (cases r) (auto simp: method_tree_iff)
  then show "method_tree routes m = []" by (cases "method_tree routes m") auto
qed

lemma match_empty [simp]: "match_path [] ss = None"
  by (simp add: match_None)

lemma match_methods:
  "matchMethodAndPath routes m ss = match_path (method_tree routes (if m = ''HEAD'' then ''GET'' else m)) ss"
  by (simp add: matchMethodAndPath_def no_tree split: option.split)





text \<open>The endpoints behind the GET patterns read the node, or subscribe to its bus.\<close>

lemma get_endpoints_read:
  assumes "(''GET'', p, e) \<in> set routes" "serve_endpoint vw chk r e vs n = Some (resp, n')"
  shows "n' = n\<lparr>evbus := evbus n'\<rparr> \<and> (e = EpWebSocket \<or> n' = n)"
proof -
  let ?writes = "[EpTask, EpRetryDLQ, EpSubmit, EpUpload, EpKillWorker, EpTripCB, EpResetCB, EpFailTasks, EpBatchSubmit]"
  have "list_all (\<lambda>(m, p, e). m = ''GET'' \<longrightarrow> \<not> List.member ?writes e) routes" by code_simp
  then have "\<not> List.member ?writes e" using assms(1) by (auto simp: list_all_iff)
  then show ?thesis using assms(2)
    by (cases e) (auto simp: serve_endpoint_def open_events_def split: if_splits option.splits)
qed

lemma found_route: "findHandler routes m path = Found e vs \<Longrightarrow> \<exists>p. (if m = ''HEAD'' then ''GET'' else m, p, e) \<in> set routes"
  by (auto simp: findHandler_def Let_def match_methods method_tree_iff dest!: match_Some split: if_splits option.splits)

lemma cleanPath_rooted: "\<exists>x. cleanPath p = CHR ''/'' # x"
proof -
  have "\<exists>x. path_Clean p = CHR ''/'' # x" for p
    by (cases "rev (fold clean_elem (split_on (CHR ''/'') p) [])") (auto simp: path_Clean_def join_path_def)
  then show ?thesis by (auto simp: cleanPath_def Let_def) (metis append_Cons)+
qed

text \<open>The dashboard pattern matches every rooted path, so the router never answers 404.\<close>

lemma never_not_found: "m \<noteq> ''CONNECT'' \<Longrightarrow> findHandler routes m path \<noteq> NotFound"
proof -
  assume m: "m \<noteq> ''CONNECT''"
  obtain x where x: "cleanPath path = CHR ''/'' # x" using cleanPath_rooted by blast
  have "split_on (CHR ''/'') x \<noteq> []" by (cases x) (auto split: list.splits)
  then have "segs_of (cleanPath path) \<noteq> []" by (cases "split_on (CHR ''/'') x" rule: walk.cases) (auto simp: x segs_of_def)
  then have "fits [Multi] (segs_of (cleanPath path))" by (cases "segs_of (cleanPath path)") auto
  moreover have "List.member routes (''GET'', [Multi], EpDashboard)" by code_simp
  then have d: "(''GET'', [Multi], EpDashboard) \<in> set routes" by simp
  moreover have "''GET'' \<in> set (map fst routes)" using d by force
  ultimately have "match_path (method_tree routes ''GET'') (segs_of (cleanPath path)) \<noteq> None"
    unfolding match_None using method_tree_iff [of "[Multi]" "([Multi], EpDashboard)" routes "''GET''"] by auto
  with \<open>''GET'' \<in> _\<close> show "findHandler routes m path \<noteq> NotFound"
    using m by (auto simp: findHandler_def Let_def list_ex_iff split: if_splits option.splits)
qed

text \<open>C39: Only POST requests change the master: any other request leaves tasks, scheduler, store, breakers and
  workers as they are, at most a websocket is subscribed to the bus, and a method other than GET, HEAD,
  POST and CONNECT is redirected or refused with 405, never with 404.\<close>

theorem only_posts_change_state:
  assumes "serve_mux vw chk r n = Some (resp, n')" "inMethod r \<noteq> ''POST''"
  shows "n' = n\<lparr>evbus := evbus n'\<rparr> \<and>
    (inMethod r \<notin> {''GET'', ''HEAD'', ''CONNECT''} \<longrightarrow>
       n' = n \<and> (resp = vwMoved vw (inPath r) \<or> resp = http_Error ''Method Not Allowed'' 405))"
proof (cases "findHandler routes (inMethod r) (inPath r)")
  case (Found e vs)
  then obtain p where p: "(if inMethod r = ''HEAD'' then ''GET'' else inMethod r, p, e) \<in> set routes" using found_route by blast
  have m: "inMethod r = ''GET'' \<or> inMethod r = ''HEAD''" using methods_of_routes [OF p] assms(2) by (auto split: if_splits)
  then have "n' = n\<lparr>evbus := evbus n'\<rparr>"
    using get_endpoints_read [of p e vw chk r vs n resp n'] p assms(1) Found by (auto simp: serve_mux_def)
  then show ?thesis using m by blast
next
  case NotFound
  then have "inMethod r = ''CONNECT''" using never_not_found by blast
  then show ?thesis using assms NotFound by (simp add: serve_mux_def)
qed (use assms in \<open>auto simp: serve_mux_def\<close>)

theorem only_posts_change_state_witness:
  "(let n = sample_master in serve_mux sample_views NewChecker (sample_in ''DELETE'' ''/api/v1/tasks'') n =
     Some (http_Error ''Method Not Allowed'' 405, n))"
proof -
  let ?r = "sample_in ''DELETE'' ''/api/v1/tasks''"
  have f: "findHandler routes ''DELETE'' ''/api/v1/tasks'' = NotAllowed" by code_simp
  then have "serve_mux sample_views NewChecker ?r sample_master = Some (http_Error ''Method Not Allowed'' 405, sample_master)"
    by (simp add: serve_mux_def sample_in_def)
  with only_posts_change_state [OF this] show ?thesis by (simp add: sample_in_def Let_def)
qed

end
