(* ===== verification/Lifecycle.thy ===== *)
theory Lifecycle
  imports Middleware
begin

text \<open>
  Start and stop of the master, \<open>Start\<close>, \<open>startGRPC\<close> and \<open>startHTTP\<close> in \<open>src/internal/master/master.go\<close>: the three
  goroutines of the error group, the two goroutines that stop the servers, and the worker streams and
  HTTP requests that are open meanwhile. One step is one call on something shared.
\<close>

section \<open>Goroutines\<close>

text \<open>The goroutine that stops a server: waiting for the context, not ready any more, stopping, stopped.\<close>

datatype stop_pc = StopWait | StopCleared | StopStopping | StopDone

datatype grpc_pc = GListen | GSetReady | GServe | GServing | GReturned

datatype http_pc = HStart | HListen | HServing | HReturned

datatype start_pc = StartWait | StartClose | StartReturned

text \<open>
  \<open>lfDone\<close> is the context of the group, \<open>lfErr\<close> the error it keeps. A stopping goroutine is \<open>None\<close> until it is
  started. \<open>lfStreams\<close> counts the worker streams, \<open>lfRequests\<close> the HTTP requests being served.
\<close>

record life =
  lfDone :: bool
  lfErr :: "string option"
  lfReady :: checker
  lfGrpc :: grpc_pc
  lfGStop :: "stop_pc option"
  lfStreams :: nat
  lfHttp :: http_pc
  lfHStop :: "stop_pc option"
  lfRequests :: nat
  lfHealth :: bool
  lfMain :: start_pc
  lfStoreOpen :: bool

definition life_start :: "life \<Rightarrow> bool" where
  "life_start g \<longleftrightarrow> g =
     \<lparr>lfDone = False, lfErr = None, lfReady = NewChecker, lfGrpc = GListen, lfGStop = None, lfStreams = 0,
      lfHttp = HStart, lfHStop = None, lfRequests = 0, lfHealth = True, lfMain = StartWait, lfStoreOpen = True\<rparr>"

text \<open>A function of the group returns: the first error is kept and cancels the context.\<close>

definition group_return :: "string option \<Rightarrow> life \<Rightarrow> life" where
  "group_return err g =
     (if err \<noteq> None \<and> lfErr g = None then g\<lparr>lfErr := err, lfDone := True\<rparr> else g)"

text \<open>
  The steps of the master's goroutines. \<open>drains\<close> says that \<open>Serve\<close> of the gRPC server returns only after
  \<open>GracefulStop\<close> has, which waits for the open streams; \<open>ListenAndServe\<close> returns as soon as \<open>Shutdown\<close> is called.
\<close>

inductive own_step :: "bool \<Rightarrow> string \<Rightarrow> string \<Rightarrow> life \<Rightarrow> life \<Rightarrow> bool" for drains grpcPort httpPort where
  listen_fail: "lfGrpc g = GListen \<Longrightarrow>
    own_step drains grpcPort httpPort g
      (group_return (Some (''gRPC listen on '' @ grpcPort @ '': '' @ err)) (g\<lparr>lfGrpc := GReturned\<rparr>))"
| listen_ok: "lfGrpc g = GListen \<Longrightarrow>
    own_step drains grpcPort httpPort g (g\<lparr>lfGrpc := GSetReady, lfGStop := Some StopWait\<rparr>)"
| set_ready: "lfGrpc g = GSetReady \<Longrightarrow>
    own_step drains grpcPort httpPort g (g\<lparr>lfGrpc := GServe, lfReady := SetReady True (lfReady g)\<rparr>)"
| serve_ok: "lfGrpc g = GServe \<Longrightarrow> lfGStop g \<in> {Some StopWait, Some StopCleared} \<Longrightarrow>
    own_step drains grpcPort httpPort g (g\<lparr>lfGrpc := GServing\<rparr>)"
| serve_refused: "lfGrpc g = GServe \<Longrightarrow> lfGStop g \<in> {Some StopStopping, Some StopDone} \<Longrightarrow>
    own_step drains grpcPort httpPort g
      (group_return (Some ''grpc: the server has been stopped'') (g\<lparr>lfGrpc := GReturned\<rparr>))"
| serve_fail: "lfGrpc g = GServing \<Longrightarrow> lfGStop g \<in> {Some StopWait, Some StopCleared} \<Longrightarrow>
    own_step drains grpcPort httpPort g (group_return (Some err) (g\<lparr>lfGrpc := GReturned\<rparr>))"
| serve_return: "lfGrpc g = GServing \<Longrightarrow> lfGStop g = Some StopDone \<or> (\<not> drains \<and> lfGStop g = Some StopStopping) \<Longrightarrow>
    own_step drains grpcPort httpPort g (group_return None (g\<lparr>lfGrpc := GReturned\<rparr>))"
| stop_wake: "lfGStop g = Some StopWait \<Longrightarrow> lfDone g \<Longrightarrow>
    own_step drains grpcPort httpPort g (g\<lparr>lfGStop := Some StopCleared, lfReady := SetReady False (lfReady g)\<rparr>)"
| stop_call: "lfGStop g = Some StopCleared \<Longrightarrow>
    own_step drains grpcPort httpPort g (g\<lparr>lfGStop := Some StopStopping\<rparr>)"
| stop_done: "lfGStop g = Some StopStopping \<Longrightarrow> lfStreams g = 0 \<Longrightarrow>
    own_step drains grpcPort httpPort g (g\<lparr>lfGStop := Some StopDone\<rparr>)"
| http_start: "lfHttp g = HStart \<Longrightarrow>
    own_step drains grpcPort httpPort g (g\<lparr>lfHttp := HListen, lfHStop := Some StopWait\<rparr>)"
| http_listen: "lfHttp g = HListen \<Longrightarrow> lfHStop g = Some StopWait \<Longrightarrow>
    own_step drains grpcPort httpPort g (g\<lparr>lfHttp := HServing\<rparr>)"
| http_fail: "lfHttp g \<in> {HListen, HServing} \<Longrightarrow> lfHStop g = Some StopWait \<Longrightarrow>
    own_step drains grpcPort httpPort g
      (group_return (Some (''HTTP server on '' @ httpPort @ '': '' @ err)) (g\<lparr>lfHttp := HReturned\<rparr>))"
| http_closed: "lfHttp g \<in> {HListen, HServing} \<Longrightarrow> lfHStop g \<in> {Some StopStopping, Some StopDone} \<Longrightarrow>
    own_step drains grpcPort httpPort g (group_return None (g\<lparr>lfHttp := HReturned\<rparr>))"
| hstop_call: "lfHStop g = Some StopWait \<Longrightarrow> lfDone g \<Longrightarrow>
    own_step drains grpcPort httpPort g (g\<lparr>lfHStop := Some StopStopping\<rparr>)"
| hstop_done: "lfHStop g = Some StopStopping \<Longrightarrow> lfRequests g = 0 \<or> timeout \<Longrightarrow>
    own_step drains grpcPort httpPort g (g\<lparr>lfHStop := Some StopDone\<rparr>)"
| health_return: "lfHealth g \<Longrightarrow> lfDone g \<Longrightarrow> own_step drains grpcPort httpPort g (g\<lparr>lfHealth := False\<rparr>)"
| wait_return: "lfMain g = StartWait \<Longrightarrow> lfGrpc g = GReturned \<Longrightarrow> lfHttp g = HReturned \<Longrightarrow> \<not> lfHealth g \<Longrightarrow>
    own_step drains grpcPort httpPort g (g\<lparr>lfMain := StartClose, lfDone := True\<rparr>)"
| close_store: "lfMain g = StartClose \<Longrightarrow>
    own_step drains grpcPort httpPort g (g\<lparr>lfMain := StartReturned, lfStoreOpen := False\<rparr>)"

text \<open>What happens to the master: the signal, workers and clients that come and go.\<close>

inductive env_step :: "life \<Rightarrow> life \<Rightarrow> bool" where
  signal: "env_step g (g\<lparr>lfDone := True\<rparr>)"
| stream_open: "lfGrpc g = GServing \<Longrightarrow> lfGStop g \<in> {Some StopWait, Some StopCleared} \<Longrightarrow>
    env_step g (g\<lparr>lfStreams := Suc (lfStreams g)\<rparr>)"
| stream_close: "lfStreams g = Suc k \<Longrightarrow> env_step g (g\<lparr>lfStreams := k\<rparr>)"
| request_in: "lfHttp g = HServing \<Longrightarrow> lfHStop g = Some StopWait \<Longrightarrow>
    env_step g (g\<lparr>lfRequests := Suc (lfRequests g)\<rparr>)"
| request_out: "lfRequests g = Suc k \<Longrightarrow> env_step g (g\<lparr>lfRequests := k\<rparr>)"

inductive_cases own_stepE: "own_step drains grpcPort httpPort g g'"
inductive_cases env_stepE: "env_step g g'"

definition life_step :: "bool \<Rightarrow> string \<Rightarrow> string \<Rightarrow> life \<Rightarrow> life \<Rightarrow> bool" where
  "life_step drains grpcPort httpPort g g' \<longleftrightarrow> own_step drains grpcPort httpPort g g' \<or> env_step g g'"

section \<open>The invariant\<close>

definition grpc_inv :: "bool \<Rightarrow> life \<Rightarrow> bool" where
  "grpc_inv drains g \<longleftrightarrow>
     (lfGStop g = None \<longrightarrow> lfGrpc g \<in> {GListen, GReturned} \<and> lfStreams g = 0 \<and> \<not> ready (lfReady g)) \<and>
     (lfGrpc g = GListen \<longrightarrow> lfGStop g = None) \<and>
     (lfStreams g \<noteq> 0 \<longrightarrow> lfGrpc g \<in> {GServing, GReturned}) \<and>
     (lfGStop g = Some StopDone \<longrightarrow> lfStreams g = 0) \<and>
     (ready (lfReady g) \<longrightarrow> lfGrpc g \<in> {GServe, GServing, GReturned}) \<and>
     (drains \<and> lfGrpc g = GReturned \<longrightarrow> lfErr g \<noteq> None \<or> lfGStop g = Some StopDone)"

definition http_inv :: "life \<Rightarrow> bool" where
  "http_inv g \<longleftrightarrow>
     (lfHStop g = None \<longleftrightarrow> lfHttp g = HStart) \<and> lfHStop g \<noteq> Some StopCleared \<and>
     (lfRequests g \<noteq> 0 \<longrightarrow> lfHttp g \<in> {HServing, HReturned})"

definition start_inv :: "life \<Rightarrow> bool" where
  "start_inv g \<longleftrightarrow>
     (lfErr g \<noteq> None \<longrightarrow> lfDone g) \<and>
     (lfGStop g \<notin> {None, Some StopWait} \<longrightarrow> lfDone g) \<and> (lfHStop g \<notin> {None, Some StopWait} \<longrightarrow> lfDone g) \<and>
     (lfMain g \<noteq> StartWait \<longrightarrow> lfGrpc g = GReturned \<and> lfHttp g = HReturned \<and> \<not> lfHealth g \<and> lfDone g) \<and>
     (lfStoreOpen g \<longleftrightarrow> lfMain g \<noteq> StartReturned)"

definition life_inv :: "bool \<Rightarrow> life \<Rightarrow> bool" where
  "life_inv drains g \<longleftrightarrow> grpc_inv drains g \<and> http_inv g \<and> start_inv g"

lemma SetReady_ready [simp]: "ready (SetReady b c) = b"
  by (simp add: SetReady_def)

lemma group_return_simps [simp]:
  "lfReady (group_return e g) = lfReady g" "lfGrpc (group_return e g) = lfGrpc g" "lfGStop (group_return e g) = lfGStop g"
  "lfStreams (group_return e g) = lfStreams g" "lfHttp (group_return e g) = lfHttp g" "lfHStop (group_return e g) = lfHStop g"
  "lfRequests (group_return e g) = lfRequests g" "lfHealth (group_return e g) = lfHealth g" "lfMain (group_return e g) = lfMain g"
  "lfStoreOpen (group_return e g) = lfStoreOpen g" "lfErr (group_return e g) = (if lfErr g = None then e else lfErr g)"
  "lfDone (group_return e g) = (lfDone g \<or> e \<noteq> None \<and> lfErr g = None)"
  by (auto simp: group_return_def)

lemma own_grpc_inv: "own_step drains gp hp g g' \<Longrightarrow> grpc_inv drains g \<Longrightarrow> grpc_inv drains g'"
  by (erule own_stepE) (auto simp: grpc_inv_def)

lemma own_http_inv: "own_step drains gp hp g g' \<Longrightarrow> http_inv g \<Longrightarrow> http_inv g'"
  by (erule own_stepE) (auto simp: http_inv_def)

lemma own_start_inv: "own_step drains gp hp g g' \<Longrightarrow> start_inv g \<Longrightarrow> start_inv g'"
  by (erule own_stepE) (simp_all add: start_inv_def)

lemma env_grpc_inv: "env_step g g' \<Longrightarrow> grpc_inv drains g \<Longrightarrow> grpc_inv drains g'"
  by (erule env_stepE) (auto simp: grpc_inv_def)

lemma env_http_inv: "env_step g g' \<Longrightarrow> http_inv g \<Longrightarrow> http_inv g'"
  by (erule env_stepE) (auto simp: http_inv_def)

lemma env_start_inv: "env_step g g' \<Longrightarrow> start_inv g \<Longrightarrow> start_inv g'"
  by (erule env_stepE) (simp_all add: start_inv_def)

interpretation life: inv_system life_start "life_step drains gp hp" "life_inv drains"
proof unfold_locales
  show "life_start g \<Longrightarrow> life_inv drains g" for g
    by (simp add: life_start_def life_inv_def grpc_inv_def http_inv_def start_inv_def NewChecker_def)
  show "life_inv drains g \<Longrightarrow> life_step drains gp hp g g' \<Longrightarrow> life_inv drains g'" for g g'
    unfolding life_inv_def life_step_def
    by (elim disjE conjE) (simp_all add: own_grpc_inv own_http_inv own_start_inv env_grpc_inv env_http_inv env_start_inv)
qed

text \<open>Readiness answers 200 only once the gRPC server has its listener and is about to serve.\<close>

lemma ready_needs_listener:
  "reach life_start (life_step drains gp hp) g \<Longrightarrow> respCode (ReadinessHandler (lfReady g)) = 200 \<Longrightarrow>
   lfGrpc g \<in> {GServe, GServing, GReturned} \<and> lfGStop g \<noteq> None"
  using life.reach_inv [of drains gp hp g]
  by (auto simp: life_inv_def grpc_inv_def ReadinessHandler_def status_json_def split: if_splits)

section \<open>Stopping\<close>

text \<open>The steps a goroutine of the master has left.\<close>

fun grpc_left :: "grpc_pc \<Rightarrow> nat" where
  "grpc_left GListen = 4" | "grpc_left GSetReady = 3" | "grpc_left GServe = 2" | "grpc_left GServing = 1"
| "grpc_left GReturned = 0"

fun http_left :: "http_pc \<Rightarrow> nat" where
  "http_left HStart = 3" | "http_left HListen = 2" | "http_left HServing = 1" | "http_left HReturned = 0"

fun stop_left :: "stop_pc option \<Rightarrow> nat" where
  "stop_left None = 4" | "stop_left (Some StopWait) = 3" | "stop_left (Some StopCleared) = 2"
| "stop_left (Some StopStopping) = 1" | "stop_left (Some StopDone) = 0"

fun start_left :: "start_pc \<Rightarrow> nat" where
  "start_left StartWait = 2" | "start_left StartClose = 1" | "start_left StartReturned = 0"

definition steps_left :: "life \<Rightarrow> nat" where
  "steps_left g = grpc_left (lfGrpc g) + stop_left (lfGStop g) + http_left (lfHttp g) + stop_left (lfHStop g) +
     of_bool (lfHealth g) + start_left (lfMain g)"

lemma own_step_left: "own_step drains gp hp g g' \<Longrightarrow> life_inv drains g \<Longrightarrow> steps_left g' < steps_left g"
proof -
  assume s: "own_step drains gp hp g g'" and "life_inv drains g"
  then have i: "lfGrpc g = GListen \<Longrightarrow> lfGStop g = None" "lfHttp g = HStart \<Longrightarrow> lfHStop g = None"
    by (simp_all add: life_inv_def grpc_inv_def http_inv_def)
  show "steps_left g' < steps_left g"
    using s by (rule own_stepE) (use i in \<open>auto simp: steps_left_def\<close>)
qed

lemma own_step_keeps:
  "own_step drains gp hp g g' \<Longrightarrow> lfStreams g' = lfStreams g \<and> lfRequests g' = lfRequests g \<and> (lfDone g \<longrightarrow> lfDone g')"
  by (erule own_stepE) simp_all

text \<open>Once the context is done and no stream is open, some goroutine can go on.\<close>

lemma grpc_goes_on:
  "grpc_inv drains g \<Longrightarrow> lfDone g \<Longrightarrow> lfStreams g = 0 \<Longrightarrow> lfGrpc g \<noteq> GReturned \<Longrightarrow> \<exists>g'. own_step drains gp hp g g'"
proof -
  assume a: "grpc_inv drains g" "lfDone g" "lfStreams g = 0" "lfGrpc g \<noteq> GReturned"
  consider "lfGrpc g = GListen" | "lfGrpc g = GSetReady"
    | s where "lfGStop g = Some s" "lfGrpc g = GServe \<or> lfGrpc g = GServing"
    using a by (cases "lfGrpc g"; cases "lfGStop g") (auto simp: grpc_inv_def)
  then show ?thesis
  proof cases
    case 3
    then show ?thesis using a(2,3) by (cases s) (auto intro: own_step.intros)
  qed (auto intro: own_step.intros)
qed

lemma http_goes_on:
  "http_inv g \<Longrightarrow> lfDone g \<Longrightarrow> lfHttp g \<noteq> HReturned \<Longrightarrow> \<exists>g'. own_step drains gp hp g g'"
proof -
  assume a: "http_inv g" "lfDone g" "lfHttp g \<noteq> HReturned"
  consider "lfHttp g = HStart" | s where "lfHStop g = Some s" "s \<noteq> StopCleared" "lfHttp g \<in> {HListen, HServing}"
    using a by (cases "lfHttp g"; cases "lfHStop g") (auto simp: http_inv_def)
  then show ?thesis
  proof cases
    case 2
    then show ?thesis using a(2) by (cases s) (auto intro: own_step.intros)
  qed (auto intro: own_step.intros)
qed

lemma goes_on:
  assumes "life_inv drains g" "lfDone g" "lfStreams g = 0" "lfMain g \<noteq> StartReturned"
  shows "\<exists>g'. own_step drains gp hp g g'"
proof (cases "lfMain g")
  case StartWait
  then show ?thesis
    using assms grpc_goes_on http_goes_on wait_return health_return unfolding life_inv_def by metis
next
  case StartClose
  then show ?thesis using close_store by blast
qed (use assms in simp)

lemma stop_reached:
  "life_inv drains g \<Longrightarrow> lfDone g \<Longrightarrow> lfStreams g = 0 \<Longrightarrow>
   \<exists>k \<le> steps_left g. \<exists>g'. (own_step drains gp hp ^^ k) g g' \<and> lfMain g' = StartReturned"
proof (induction "steps_left g" arbitrary: g rule: less_induct)
  case less
  show ?case
  proof (cases "lfMain g = StartReturned")
    case True
    then show ?thesis by (intro exI [of _ 0]) auto
  next
    case False
    then obtain g1 where g1: "own_step drains gp hp g g1" using goes_on less.prems by blast
    have l: "steps_left g1 < steps_left g" using own_step_left [OF g1 less.prems(1)] .
    have "life_inv drains g1" using life.inv_step less.prems(1) g1 unfolding life_step_def by blast
    then obtain k g' where k: "k \<le> steps_left g1" "(own_step drains gp hp ^^ k) g1 g'" "lfMain g' = StartReturned"
      using less.hyps [OF l] own_step_keeps [OF g1] less.prems by metis
    then have "(own_step drains gp hp ^^ Suc k) g g'" using g1 relpowp_Suc_I2 by metis
    then show ?thesis using k l by (intro exI [of _ "Suc k"]) auto
  qed
qed


text \<open>A master that serves, with a worker connected and a request in progress.\<close>

definition serving :: life where
  "serving =
     \<lparr>lfDone = False, lfErr = None, lfReady = SetReady True NewChecker, lfGrpc = GServing, lfGStop = Some StopWait,
      lfStreams = 1, lfHttp = HServing, lfHStop = Some StopWait, lfRequests = 1, lfHealth = True, lfMain = StartWait,
      lfStoreOpen = True\<rparr>"

lemma reach_own: "reach life_start (life_step d gp hp) g \<Longrightarrow> own_step d gp hp g g' \<Longrightarrow> reach life_start (life_step d gp hp) g'"
  and reach_env: "reach life_start (life_step d gp hp) g \<Longrightarrow> env_step g g' \<Longrightarrow> reach life_start (life_step d gp hp) g'"
  by (auto intro: reach_step simp: life_step_def)

lemma reach_serving: "reach life_start (life_step d gp hp) serving"
proof -
  let ?g0 = "\<lparr>lfDone = False, lfErr = None, lfReady = NewChecker, lfGrpc = GListen, lfGStop = None, lfStreams = 0,
      lfHttp = HStart, lfHStop = None, lfRequests = 0, lfHealth = True, lfMain = StartWait, lfStoreOpen = True\<rparr>"
  let ?g1 = "?g0\<lparr>lfGrpc := GSetReady, lfGStop := Some StopWait\<rparr>"
  let ?g2 = "?g1\<lparr>lfGrpc := GServe, lfReady := SetReady True (lfReady ?g1)\<rparr>"
  let ?g3 = "?g2\<lparr>lfGrpc := GServing\<rparr>"
  let ?g4 = "?g3\<lparr>lfHttp := HListen, lfHStop := Some StopWait\<rparr>"
  let ?g5 = "?g4\<lparr>lfHttp := HServing\<rparr>"
  let ?g6 = "?g5\<lparr>lfStreams := Suc (lfStreams ?g5)\<rparr>"
  let ?g7 = "?g6\<lparr>lfRequests := Suc (lfRequests ?g6)\<rparr>"
  have "reach life_start (life_step d gp hp) ?g0" by (rule reach_init) (simp add: life_start_def)
  then have "reach life_start (life_step d gp hp) ?g1" by (rule reach_own) (rule listen_ok, simp)
  then have "reach life_start (life_step d gp hp) ?g2" by (rule reach_own) (rule set_ready, simp)
  then have "reach life_start (life_step d gp hp) ?g3" by (rule reach_own) (rule serve_ok, simp_all)
  then have "reach life_start (life_step d gp hp) ?g4" by (rule reach_own) (rule http_start, simp)
  then have "reach life_start (life_step d gp hp) ?g5" by (rule reach_own) (rule http_listen, simp_all)
  then have "reach life_start (life_step d gp hp) ?g6" by (rule reach_env) (rule stream_open, simp_all)
  then have "reach life_start (life_step d gp hp) ?g7" by (rule reach_env) (rule request_in, simp_all)
  then show ?thesis by (simp add: serving_def)
qed


text \<open>\<open>Start\<close> returns without an error only when every worker stream has ended.\<close>

lemma clean_return: "life_inv True g \<Longrightarrow> lfMain g = StartReturned \<Longrightarrow> lfErr g = None \<Longrightarrow> lfStreams g = 0"
  by (auto simp: life_inv_def grpc_inv_def start_inv_def)

lemma stopping_waits:
  "life_step True gp hp g g' \<Longrightarrow> lfStreams g \<le> lfStreams g' \<Longrightarrow>
   lfGStop g = Some StopStopping \<and> lfGrpc g = GServing \<and> lfStreams g \<noteq> 0 \<and> lfMain g = StartWait \<Longrightarrow>
   lfGStop g' = Some StopStopping \<and> lfGrpc g' = GServing \<and> lfStreams g' \<noteq> 0 \<and> lfMain g' = StartWait"
proof -
  assume s: "life_step True gp hp g g'" "lfStreams g \<le> lfStreams g'"
    and a: "lfGStop g = Some StopStopping \<and> lfGrpc g = GServing \<and> lfStreams g \<noteq> 0 \<and> lfMain g = StartWait"
  from s(1) consider "own_step True gp hp g g'" | "env_step g g'" unfolding life_step_def by blast
  then show ?thesis
  proof cases
    case 1
    then show ?thesis by (rule own_stepE) (use a in auto)
  next
    case 2
    then show ?thesis by (rule env_stepE) (use a s(2) in auto)
  qed
qed

text \<open>A connected worker keeps the master from shutting down: \<open>Start\<close> returns without an error only when no
  worker stream is open, and a master whose gRPC server is being stopped while a stream is open stays
  there, whatever its goroutines, the clients and the timeouts do, as long as no stream ends.\<close>

theorem connected_worker_blocks_shutdown:
  assumes "reach life_start (life_step True grpcPort httpPort) g"
  shows "(lfMain g = StartReturned \<and> lfErr g = None \<longrightarrow> lfStreams g = 0) \<and>
    (lfGStop g = Some StopStopping \<and> lfGrpc g = GServing \<and> lfStreams g \<noteq> 0 \<and>
     (\<lambda>a b. life_step True grpcPort httpPort a b \<and> lfStreams a \<le> lfStreams b)\<^sup>*\<^sup>* g g' \<longrightarrow>
       lfMain g' = StartWait \<and> lfGStop g' = Some StopStopping)"
proof -
  have i: "life_inv True g" using life.reach_inv [OF assms] .
  have "lfGStop g' = Some StopStopping \<and> lfGrpc g' = GServing \<and> lfStreams g' \<noteq> 0 \<and> lfMain g' = StartWait"
    if "(\<lambda>a b. life_step True grpcPort httpPort a b \<and> lfStreams a \<le> lfStreams b)\<^sup>*\<^sup>* g g'"
      "lfGStop g = Some StopStopping" "lfGrpc g = GServing" "lfStreams g \<noteq> 0"
    using that(1)
  proof (induction rule: rtranclp_induct)
    case base
    then show ?case using that i by (auto simp: life_inv_def start_inv_def)
  next
    case (step y z)
    then show ?case using stopping_waits by blast
  qed
  then show ?thesis using clean_return [OF i] by blast
qed

theorem connected_worker_blocks_shutdown_witness:
  "let g = serving\<lparr>lfDone := True, lfReady := SetReady False (SetReady True NewChecker), lfGStop := Some StopStopping\<rparr> in
   \<forall>g'. (\<lambda>a b. life_step True '':50051'' '':9092'' a b \<and> lfStreams a \<le> lfStreams b)\<^sup>*\<^sup>* g g' \<longrightarrow> lfMain g' = StartWait"
proof -
  let ?g1 = "serving\<lparr>lfDone := True\<rparr>"
  let ?g2 = "?g1\<lparr>lfGStop := Some StopCleared, lfReady := SetReady False (lfReady ?g1)\<rparr>"
  let ?g3 = "?g2\<lparr>lfGStop := Some StopStopping\<rparr>"
  let ?R = "reach life_start (life_step True '':50051'' '':9092'')"
  have "?R ?g1" by (rule reach_env [OF reach_serving]) (rule signal)
  then have "?R ?g2" by (rule reach_own) (rule stop_wake, simp_all add: serving_def)
  then have r: "?R ?g3" by (rule reach_own) (rule stop_call, simp)
  show ?thesis using connected_worker_blocks_shutdown [OF r] by (simp add: Let_def serving_def)
qed

lemma ready_when_stopped:
  "\<exists>g. reach life_start (life_step drains gp hp) g \<and> lfGStop g = Some StopDone \<and> respCode (ReadinessHandler (lfReady g)) = 200"
proof -
  let ?R = "reach life_start (life_step drains gp hp)"
  let ?g0 = "\<lparr>lfDone = False, lfErr = None, lfReady = NewChecker, lfGrpc = GListen, lfGStop = None, lfStreams = 0,
      lfHttp = HStart, lfHStop = None, lfRequests = 0, lfHealth = True, lfMain = StartWait, lfStoreOpen = True\<rparr>"
  let ?g1 = "?g0\<lparr>lfGrpc := GSetReady, lfGStop := Some StopWait\<rparr>"
  let ?g2 = "?g1\<lparr>lfDone := True\<rparr>"
  let ?g3 = "?g2\<lparr>lfGStop := Some StopCleared, lfReady := SetReady False (lfReady ?g2)\<rparr>"
  let ?g4 = "?g3\<lparr>lfGrpc := GServe, lfReady := SetReady True (lfReady ?g3)\<rparr>"
  let ?g5 = "?g4\<lparr>lfGStop := Some StopStopping\<rparr>"
  let ?g6 = "?g5\<lparr>lfGStop := Some StopDone\<rparr>"
  have "?R ?g0" by (rule reach_init) (simp add: life_start_def)
  then have "?R ?g1" by (rule reach_own) (rule listen_ok, simp)
  then have "?R ?g2" by (rule reach_env) (rule signal)
  then have "?R ?g3" by (rule reach_own) (rule stop_wake, simp_all)
  then have "?R ?g4" by (rule reach_own) (rule set_ready, simp)
  then have "?R ?g5" by (rule reach_own) (rule stop_call, simp)
  then have "?R ?g6" by (rule reach_own) (rule stop_done, simp_all)
  then show ?thesis by (intro exI [of _ ?g6]) (simp add: ReadinessHandler_def status_json_def)
qed

text \<open>Two races of the shutdown: the process can end while a request is still being served, before the timeout
  of \<open>Shutdown\<close>, because \<open>startHTTP\<close> does not wait for it; and a master that is told to stop while it starts can
  have its stopped gRPC server reported as ready.\<close>

theorem shutdown_races:
  "(\<exists>g. reach life_start (life_step drains grpcPort httpPort) g \<and> lfMain g = StartReturned \<and> lfErr g = None \<and>
      lfHStop g = Some StopStopping \<and> lfRequests g = 1) \<and>
   (\<exists>g. reach life_start (life_step drains grpcPort httpPort) g \<and> lfGStop g = Some StopDone \<and>
      respCode (ReadinessHandler (lfReady g)) = 200)"
proof -
  let ?R = "reach life_start (life_step drains grpcPort httpPort)"
  let ?a1 = "serving\<lparr>lfStreams := 0\<rparr>"
  let ?a2 = "?a1\<lparr>lfDone := True\<rparr>"
  let ?a3 = "?a2\<lparr>lfGStop := Some StopCleared, lfReady := SetReady False (lfReady ?a2)\<rparr>"
  let ?a4 = "?a3\<lparr>lfGStop := Some StopStopping\<rparr>"
  let ?a5 = "?a4\<lparr>lfGStop := Some StopDone\<rparr>"
  let ?a6 = "group_return None (?a5\<lparr>lfGrpc := GReturned\<rparr>)"
  let ?a7 = "?a6\<lparr>lfHStop := Some StopStopping\<rparr>"
  let ?a8 = "group_return None (?a7\<lparr>lfHttp := HReturned\<rparr>)"
  let ?a9 = "?a8\<lparr>lfHealth := False\<rparr>"
  let ?a10 = "?a9\<lparr>lfMain := StartClose, lfDone := True\<rparr>"
  let ?a11 = "?a10\<lparr>lfMain := StartReturned, lfStoreOpen := False\<rparr>"
  have "?R ?a1" by (rule reach_env [OF reach_serving], rule stream_close) (simp add: serving_def)
  then have "?R ?a2" by (rule reach_env) (rule signal)
  then have "?R ?a3" by (rule reach_own) (rule stop_wake, simp_all add: serving_def)
  then have "?R ?a4" by (rule reach_own) (rule stop_call, simp)
  then have "?R ?a5" by (rule reach_own) (rule stop_done, simp_all)
  then have "?R ?a6" by (rule reach_own) (rule serve_return, simp_all add: serving_def)
  then have "?R ?a7" by (rule reach_own) (rule hstop_call, simp_all add: serving_def)
  then have "?R ?a8" by (rule reach_own) (rule http_closed, simp_all add: serving_def)
  then have "?R ?a9" by (rule reach_own) (rule health_return, simp_all add: serving_def)
  then have "?R ?a10" by (rule reach_own) (rule wait_return, simp_all add: serving_def)
  then have "?R ?a11" by (rule reach_own) (rule close_store, simp)
  moreover have "lfErr ?a11 = None \<and> lfHStop ?a11 = Some StopStopping \<and> lfRequests ?a11 = 1 \<and> lfMain ?a11 = StartReturned"
    by (simp add: serving_def)
  ultimately have 1: "\<exists>g. ?R g \<and> lfMain g = StartReturned \<and> lfErr g = None \<and> lfHStop g = Some StopStopping \<and> lfRequests g = 1"
    by blast
  show ?thesis using 1 ready_when_stopped by blast
qed

end
