(* ===== verification/Dashboard.thy ===== *)
theory Dashboard
  imports EventBus "HOL-Library.Sublist"
begin

text \<open>
  The event stream of the dashboard, \<open>handleWebSocket\<close> in \<open>src/internal/master/api_handlers.go\<close>: any number of
  handlers, each with its reading goroutine, interleaved with each other and with the publishers of the
  bus. A frame is the event it carries; its bytes are in \<open>JsonApi\<close>.
\<close>

section \<open>Handlers\<close>

datatype ws_pc = WsUpgrade | WsSubscribe | WsRange | WsWrite event | WsUnsub | WsClosing | WsDone

text \<open>
  \<open>wsConn\<close> says that the client is there, \<open>wsReading\<close> that the goroutine that discards its messages is.
  \<open>wsOut\<close> are the frames \<open>WriteMessage\<close> has accepted.
\<close>

record ws =
  wsPc :: ws_pc
  wsChan :: "ref option"
  wsConn :: bool
  wsReading :: bool
  wsOut :: "event list"

definition new_ws :: ws where
  "new_ws = \<lparr>wsPc = WsUpgrade, wsChan = None, wsConn = True, wsReading = False, wsOut = []\<rparr>"

text \<open>
  The goroutines of the bus are numbered; those in \<open>dConns\<close> run a handler, the others publish.
  \<open>dOffered ch\<close> lists the events for which a publisher has executed its send on the channel.
\<close>

record dash =
  dBus :: bus_sys
  dConns :: "nat \<Rightarrow> ws option"
  dOffered :: "ref \<Rightarrow> event list"

definition put_ws :: "nat \<Rightarrow> ws \<Rightarrow> dash \<Rightarrow> dash" where
  "put_ws k w d = d\<lparr>dConns := (dConns d)(k \<mapsto> w)\<rparr>"

definition the_chan :: "dash \<Rightarrow> ref \<Rightarrow> chan" where
  "the_chan d ch = chans (the_bus (dBus d)) ch"

definition set_bus :: "bus \<Rightarrow> dash \<Rightarrow> dash" where
  "set_bus b d = d\<lparr>dBus := (dBus d)\<lparr>the_bus := b\<rparr>\<rparr>"

definition receive_from :: "ref \<Rightarrow> event list \<Rightarrow> bus \<Rightarrow> bus" where
  "receive_from ch es b = b\<lparr>chans := (chans b)(ch := (chans b ch)\<lparr>ch_buf := es\<rparr>)\<rparr>"

inductive dash_step :: "dash \<Rightarrow> dash \<Rightarrow> bool" where
  connect: "dConns d k = None \<Longrightarrow> pcs (dBus d) k = Idle \<Longrightarrow> dash_step d (put_ws k new_ws d)"
| upgrade_fail: "dConns d k = Some w \<Longrightarrow> wsPc w = WsUpgrade \<Longrightarrow> dash_step d (put_ws k (w\<lparr>wsPc := WsDone\<rparr>) d)"
| upgrade_ok: "dConns d k = Some w \<Longrightarrow> wsPc w = WsUpgrade \<Longrightarrow> dash_step d (put_ws k (w\<lparr>wsPc := WsSubscribe\<rparr>) d)"
| subscribe: "dConns d k = Some w \<Longrightarrow> wsPc w = WsSubscribe \<Longrightarrow> wlock_free (dBus d) \<Longrightarrow>
    Subscribe (the_bus (dBus d)) = (ch, b) \<Longrightarrow>
    dash_step d (put_ws k (w\<lparr>wsPc := WsRange, wsChan := Some ch, wsReading := True\<rparr>) (set_bus b d))"
| client_leaves: "dConns d k = Some w \<Longrightarrow> dash_step d (put_ws k (w\<lparr>wsConn := False\<rparr>) d)"
| reader_ends: "dConns d k = Some w \<Longrightarrow> wsReading w \<Longrightarrow> \<not> wsConn w \<Longrightarrow> dash_step d (put_ws k (w\<lparr>wsReading := False\<rparr>) d)"
| range_next: "dConns d k = Some w \<Longrightarrow> wsPc w = WsRange \<Longrightarrow> wsChan w = Some ch \<Longrightarrow> ch_buf (the_chan d ch) = e # es \<Longrightarrow>
    dash_step d (put_ws k (w\<lparr>wsPc := WsWrite e\<rparr>) (set_bus (receive_from ch es (the_bus (dBus d))) d))"
| range_closed: "dConns d k = Some w \<Longrightarrow> wsPc w = WsRange \<Longrightarrow> wsChan w = Some ch \<Longrightarrow> ch_buf (the_chan d ch) = [] \<Longrightarrow>
    ch_closed (the_chan d ch) \<Longrightarrow> dash_step d (put_ws k (w\<lparr>wsPc := WsUnsub\<rparr>) d)"
| write_ok: "dConns d k = Some w \<Longrightarrow> wsPc w = WsWrite e \<Longrightarrow>
    dash_step d (put_ws k (w\<lparr>wsPc := WsRange, wsOut := wsOut w @ [e]\<rparr>) d)"
| write_fail: "dConns d k = Some w \<Longrightarrow> wsPc w = WsWrite e \<Longrightarrow> \<not> wsConn w \<Longrightarrow>
    dash_step d (put_ws k (w\<lparr>wsPc := WsUnsub\<rparr>) d)"
| unsub_lock: "dConns d k = Some w \<Longrightarrow> wsPc w = WsUnsub \<Longrightarrow> wsChan w = Some ch \<Longrightarrow> wlock_free (dBus d) \<Longrightarrow>
    dash_step d (put_ws k (w\<lparr>wsPc := WsClosing\<rparr>)
      (d\<lparr>dBus := goto k (UnsubClosing ch) ((dBus d)\<lparr>the_bus := unsub_delete ch (the_bus (dBus d))\<rparr>)\<rparr>))"
| unsub_unlocked: "dConns d k = Some w \<Longrightarrow> wsPc w = WsClosing \<Longrightarrow> wsChan w = Some ch \<Longrightarrow>
    dash_step d (put_ws k (w\<lparr>wsPc := WsDone, wsConn := False\<rparr>)
      (d\<lparr>dBus := or_panic k Idle (unsub_close ch (the_bus (dBus d))) (dBus d)\<rparr>))"
| pub_lock: "dConns d i = None \<Longrightarrow> pcs (dBus d) i = Idle \<Longrightarrow> range_ok order (subscribers (the_bus (dBus d))) \<Longrightarrow>
    dash_step d (d\<lparr>dBus := goto i (PubLoop e order) (dBus d)\<rparr>)"
| pub_send: "pcs (dBus d) i = PubLoop e (ch # chs) \<Longrightarrow>
    dash_step d (d\<lparr>dBus := or_panic i (PubLoop e chs) (publish_one e ch (the_bus (dBus d))) (dBus d),
                   dOffered := (dOffered d)(ch := dOffered d ch @ [e])\<rparr>)"
| pub_unlock: "pcs (dBus d) i = PubLoop e [] \<Longrightarrow> dash_step d (d\<lparr>dBus := goto i Idle (dBus d)\<rparr>)"

inductive_cases dash_stepE: "dash_step d d'"

definition dash_start :: "dash \<Rightarrow> bool" where
  "dash_start d \<longleftrightarrow> bus_start (dBus d) \<and> (\<forall>k. dConns d k = None) \<and> (\<forall>ch. dOffered d ch = [])"

section \<open>Who is subscribed\<close>

definition registered :: "ws \<Rightarrow> bool" where
  "registered w \<longleftrightarrow> wsPc w \<notin> {WsUpgrade, WsSubscribe, WsClosing, WsDone}"

text \<open>Each handler owns its channel, registered as long as the handler may receive from it.\<close>

definition owns :: "dash \<Rightarrow> nat \<Rightarrow> ws \<Rightarrow> bool" where
  "owns d k w \<longleftrightarrow>
     (wsChan w = None \<longrightarrow> wsPc w \<in> {WsUpgrade, WsSubscribe, WsDone} \<and> wsOut w = []) \<and>
     (\<forall>ch. wsChan w = Some ch \<longrightarrow> wsPc w \<notin> {WsUpgrade, WsSubscribe} \<and> ch < next_chan (the_bus (dBus d)) \<and>
        (registered w \<longleftrightarrow> ch \<in> gm_keys (subscribers (the_bus (dBus d)))) \<and>
        (wsPc w = WsClosing \<longrightarrow> pcs (dBus d) k = UnsubClosing ch)) \<and>
     (wsPc w \<noteq> WsClosing \<longrightarrow> pcs (dBus d) k = Idle)"

definition chan_inv :: "dash \<Rightarrow> bool" where
  "chan_inv d \<longleftrightarrow>
     (\<forall>k w. dConns d k = Some w \<longrightarrow> owns d k w) \<and>
     (\<forall>j k v w ch. dConns d j = Some v \<longrightarrow> dConns d k = Some w \<longrightarrow> wsChan v = Some ch \<longrightarrow> wsChan w = Some ch \<longrightarrow> j = k) \<and>
     (\<forall>ch \<in> gm_keys (subscribers (the_bus (dBus d))). \<exists>k w. dConns d k = Some w \<and> wsChan w = Some ch)"

section \<open>What has been written\<close>

definition in_hand :: "ws \<Rightarrow> event list" where
  "in_hand w = (case wsPc w of WsWrite e \<Rightarrow> [e] | _ \<Rightarrow> [])"

definition pending :: "dash \<Rightarrow> ws \<Rightarrow> ref \<Rightarrow> event list" where
  "pending d w ch = (if registered w then in_hand w @ ch_buf (the_chan d ch) else [])"

definition flows :: "dash \<Rightarrow> ws \<Rightarrow> ref \<Rightarrow> bool" where
  "flows d w ch \<longleftrightarrow> subseq (wsOut w @ pending d w ch) (dOffered d ch) \<and>
     (registered w \<and> wsPc w \<noteq> WsUnsub \<and> length (dOffered d ch) \<le> chan_cap \<longrightarrow>
        wsOut w @ pending d w ch = dOffered d ch)"

definition flow_inv :: "dash \<Rightarrow> bool" where
  "flow_inv d \<longleftrightarrow> (\<forall>ch \<ge> next_chan (the_bus (dBus d)). dOffered d ch = []) \<and>
     (\<forall>k w ch. dConns d k = Some w \<longrightarrow> wsChan w = Some ch \<longrightarrow> flows d w ch)"

definition dash_inv :: "dash \<Rightarrow> bool" where
  "dash_inv d \<longleftrightarrow> bus_inv (dBus d) \<and> chan_inv d \<and> flow_inv d"

section \<open>The invariant\<close>

lemma put_ws_simps [simp]:
  "dBus (put_ws k w d) = dBus d" "dConns (put_ws k w d) = (dConns d)(k \<mapsto> w)" "dOffered (put_ws k w d) = dOffered d"
  by (simp_all add: put_ws_def)

lemma set_bus_simps [simp]:
  "dBus (set_bus b d) = (dBus d)\<lparr>the_bus := b\<rparr>" "dConns (set_bus b d) = dConns d" "dOffered (set_bus b d) = dOffered d"
  by (simp_all add: set_bus_def)

lemma receive_from_simps [simp]:
  "subscribers (receive_from ch es b) = subscribers b" "next_chan (receive_from ch es b) = next_chan b"
  "chans (receive_from ch es b) = (chans b)(ch := (chans b ch)\<lparr>ch_buf := es\<rparr>)"
  by (simp_all add: receive_from_def)

lemma goto_simps [simp]: "the_bus (goto i c st) = the_bus st" "pcs (goto i c st) = (pcs st)(i := c)"
  by (simp_all add: goto_def)

lemma dash_bus_inv:
  assumes "dash_step d d'" "bus_inv (dBus d)" "chan_inv d"
  shows "bus_inv (dBus d')"
proof -
  have own: "owns d k w" if "dConns d k = Some w" for k w using assms(3) that by (simp add: chan_inv_def)
  from assms(1) show ?thesis
  proof (cases rule: dash_step.cases)
    case (subscribe k w ch b)
    then show ?thesis using bus_inv_subscribe [OF assms(2)] by simp
  next
    case (range_next k w ch e es)
    then show ?thesis using bus_inv_receive [OF assms(2), of ch e es] by (simp add: receive_from_def the_chan_def)
  next
    case (unsub_lock k w ch)
    then have "ch \<in> gm_keys (subscribers (the_bus (dBus d)))" using own [of k w] by (auto simp: owns_def registered_def)
    then show ?thesis using unsub_lock bus_inv_unsub_lock [OF assms(2)] by simp
  next
    case (unsub_unlocked k w ch)
    then have "pcs (dBus d) k = UnsubClosing ch" using own [of k w] by (auto simp: owns_def)
    then show ?thesis using unsub_unlocked bus_inv_unsub_close [OF assms(2)] by simp
  next
    case (pub_lock i order e)
    then show ?thesis using bus.inv_step [OF assms(2) bus_step.pub_lock] by simp
  next
    case (pub_send i e ch chs)
    then show ?thesis using bus_inv_send [OF assms(2)] by simp
  next
    case (pub_unlock i e)
    then show ?thesis using bus.inv_step [OF assms(2) bus_step.pub_unlock] by simp
  qed (use assms(2) in simp_all)
qed

text \<open>The bus after a close, and after a send, which the invariant of the bus keeps from panicking.\<close>

lemma close_result:
  assumes "bus_inv (dBus d)" "pcs (dBus d) k = UnsubClosing ch"
  shows "\<exists>b. unsub_close ch (the_bus (dBus d)) = Some b \<and> subscribers b = subscribers (the_bus (dBus d)) \<and>
    next_chan b = next_chan (the_bus (dBus d)) \<and> (\<forall>c. ch_buf (chans b c) = ch_buf (the_chan d c))"
  using assms by (auto simp: bus_inv_def unsub_close_def close_chan_def the_chan_def)

lemma send_result:
  assumes "bus_inv (dBus d)" "pcs (dBus d) i = PubLoop e (ch # chs)"
  shows "\<exists>b. publish_one e ch (the_bus (dBus d)) = Some b \<and> subscribers b = subscribers (the_bus (dBus d)) \<and>
    next_chan b = next_chan (the_bus (dBus d)) \<and> ch \<in> gm_keys (subscribers (the_bus (dBus d))) \<and>
    (\<forall>c. ch_buf (chans b c) = (if c = ch \<and> length (ch_buf (the_chan d ch)) < chan_cap
       then ch_buf (the_chan d ch) @ [e] else ch_buf (the_chan d c)))"
proof -
  have "ch \<in> gm_keys (subscribers (the_bus (dBus d)))" using assms by (auto simp: bus_inv_def dest!: spec [of _ i])
  moreover from this have "\<not> ch_closed (chans (the_bus (dBus d)) ch)" using assms(1) by (auto simp: bus_inv_def bus_ok_def)
  ultimately show ?thesis by (auto simp: publish_one_open the_chan_def)
qed

text \<open>The ownership of channels when one handler changes, and when none does.\<close>

abbreviation sub_keys :: "dash \<Rightarrow> ref set" where
  "sub_keys d \<equiv> gm_keys (subscribers (the_bus (dBus d)))"

lemma chan_inv_owns: "chan_inv d \<Longrightarrow> dConns d k = Some w \<Longrightarrow> owns d k w"
  by (simp add: chan_inv_def)

lemma chan_inv_put:
  assumes "chan_inv d" "dConns d' = (dConns d)(k \<mapsto> w')" "owns d' k w'"
    and "\<And>j v. j \<noteq> k \<Longrightarrow> dConns d j = Some v \<Longrightarrow> owns d j v \<Longrightarrow> owns d' j v"
    and "\<And>ch. ch \<in> sub_keys d' \<Longrightarrow> ch \<in> sub_keys d \<or> wsChan w' = Some ch"
    and "\<And>j v ch. j \<noteq> k \<Longrightarrow> dConns d j = Some v \<Longrightarrow> wsChan v = Some ch \<Longrightarrow> wsChan w' \<noteq> Some ch"
    and "\<And>w ch. dConns d k = Some w \<Longrightarrow> wsChan w = Some ch \<Longrightarrow> wsChan w' = Some ch"
  shows "chan_inv d'"
  unfolding chan_inv_def
proof (intro conjI allI impI ballI)
  show "owns d' j v" if "dConns d' j = Some v" for j v
    using that assms(2-4) chan_inv_owns [OF assms(1)] by (cases "j = k") auto
  show "i = j" if "dConns d' i = Some v" "dConns d' j = Some w" "wsChan v = Some ch" "wsChan w = Some ch" for i j v w ch
  proof (cases "i = k \<or> j = k")
    case True
    then show ?thesis using that assms(2) assms(6) by (auto split: if_splits)
  next
    case False
    then show ?thesis using that assms(1,2) by (auto simp: chan_inv_def)
  qed
  show "\<exists>j v. dConns d' j = Some v \<and> wsChan v = Some ch" if ch: "ch \<in> sub_keys d'" for ch
  proof (cases "wsChan w' = Some ch")
    case False
    then obtain j v where jv: "dConns d j = Some v" "wsChan v = Some ch"
      using assms(1) assms(5) [OF ch] by (auto simp: chan_inv_def)
    then have "j \<noteq> k" using assms(7) [of v ch] False by auto
    then show ?thesis using jv assms(2) by auto
  qed (use assms(2) in auto)
qed

lemma chan_inv_same:
  assumes "chan_inv d" "dConns d' = dConns d" "\<And>j v. dConns d j = Some v \<Longrightarrow> owns d j v \<Longrightarrow> owns d' j v"
    and "sub_keys d' = sub_keys d"
  shows "chan_inv d'"
  using assms unfolding chan_inv_def by simp

lemma chan_inj:
  "chan_inv d \<Longrightarrow> dConns d j = Some v \<Longrightarrow> dConns d k = Some w \<Longrightarrow> wsChan v = Some ch \<Longrightarrow> wsChan w = Some ch \<Longrightarrow> j = k"
  unfolding chan_inv_def by blast

text \<open>A step that changes a handler but neither its channel nor whether it is registered.\<close>

lemma chan_inv_local:
  assumes "chan_inv d" "dConns d k = Some w" "dConns d' = (dConns d)(k \<mapsto> w')" "wsChan w' = wsChan w"
    and "registered w' = registered w" "wsPc w' = WsClosing \<longleftrightarrow> wsPc w = WsClosing"
    and "wsChan w = None \<Longrightarrow> wsPc w' \<in> {WsUpgrade, WsSubscribe, WsDone} \<and> wsOut w' = []"
    and "wsChan w \<noteq> None \<Longrightarrow> wsPc w' \<notin> {WsUpgrade, WsSubscribe}"
    and "subscribers (the_bus (dBus d')) = subscribers (the_bus (dBus d))"
    and "next_chan (the_bus (dBus d')) = next_chan (the_bus (dBus d))" "pcs (dBus d') = pcs (dBus d)"
  shows "chan_inv d'"
proof (rule chan_inv_put [OF assms(1,3)])
  show "owns d' k w'" using chan_inv_owns [OF assms(1,2)] assms(4-11) by (cases "wsChan w") (auto simp: owns_def)
  show "owns d' j v" if "owns d j v" for j v using that assms(9-11) by (simp add: owns_def)
  show "wsChan w' \<noteq> Some ch" if "j \<noteq> k" "dConns d j = Some v" "wsChan v = Some ch" for j v ch
    using chan_inj [OF assms(1) that(2) assms(2) that(3)] that(1) assms(4) by auto
qed (use assms in auto)

lemma dash_chan_inv:
  assumes "dash_step d d'" "bus_inv (dBus d)" "chan_inv d"
  shows "chan_inv d'"
  using assms(1)
proof (cases rule: dash_step.cases)
  case (connect k)
  show ?thesis
    by (rule chan_inv_put [OF assms(3), of d' k new_ws]) (use connect in \<open>auto simp: owns_def new_ws_def\<close>)
next
  case (upgrade_fail k w)
  have o: "owns d k w" using chan_inv_owns [OF assms(3)] upgrade_fail by blast
  show ?thesis
    by (rule chan_inv_local [OF assms(3) upgrade_fail(2), of d' "w\<lparr>wsPc := WsDone\<rparr>"])
      (use upgrade_fail o in \<open>auto simp: registered_def owns_def\<close>)
next
  case (upgrade_ok k w)
  have o: "owns d k w" using chan_inv_owns [OF assms(3)] upgrade_ok by blast
  show ?thesis
    by (rule chan_inv_local [OF assms(3) upgrade_ok(2), of d' "w\<lparr>wsPc := WsSubscribe\<rparr>"])
      (use upgrade_ok o in \<open>auto simp: registered_def owns_def\<close>)
next
  case (subscribe k w ch b)
  then have ch: "ch = next_chan (the_bus (dBus d))" "next_chan b = Suc ch"
      "gm_keys (subscribers b) = insert ch (gm_keys (subscribers (the_bus (dBus d))))"
    by (auto simp: Subscribe_def Let_def)
  have o: "owns d k w" using chan_inv_owns [OF assms(3)] subscribe by blast
  show ?thesis
  proof (rule chan_inv_put [OF assms(3), of d' k "w\<lparr>wsPc := WsRange, wsChan := Some ch, wsReading := True\<rparr>"])
    show "owns d' j v" if "owns d j v" for j v using that subscribe ch by (auto simp: owns_def)
    show "wsChan (w\<lparr>wsPc := WsRange, wsChan := Some ch, wsReading := True\<rparr>) \<noteq> Some c"
      if "dConns d j = Some v" "wsChan v = Some c" for j v c
      using chan_inv_owns [OF assms(3) that(1)] that(2) ch(1) by (auto simp: owns_def)
  qed (use subscribe ch o in \<open>auto simp: owns_def registered_def\<close>)
next
  case (client_leaves k w)
  have o: "owns d k w" using chan_inv_owns [OF assms(3)] client_leaves by blast
  show ?thesis
    by (rule chan_inv_local [OF assms(3) client_leaves(2), of d' "w\<lparr>wsConn := False\<rparr>"])
      (use client_leaves o in \<open>auto simp: registered_def owns_def\<close>)
next
  case (reader_ends k w)
  have o: "owns d k w" using chan_inv_owns [OF assms(3)] reader_ends by blast
  show ?thesis
    by (rule chan_inv_local [OF assms(3) reader_ends(2), of d' "w\<lparr>wsReading := False\<rparr>"])
      (use reader_ends o in \<open>auto simp: registered_def owns_def\<close>)
next
  case (range_next k w ch e es)
  show ?thesis
    by (rule chan_inv_local [OF assms(3) range_next(2), of d' "w\<lparr>wsPc := WsWrite e\<rparr>"])
      (use range_next in \<open>auto simp: registered_def\<close>)
next
  case (range_closed k w ch)
  show ?thesis
    by (rule chan_inv_local [OF assms(3) range_closed(2), of d' "w\<lparr>wsPc := WsUnsub\<rparr>"])
      (use range_closed in \<open>auto simp: registered_def\<close>)
next
  case (write_ok k w e)
  have o: "owns d k w" using chan_inv_owns [OF assms(3)] write_ok by blast
  show ?thesis
    by (rule chan_inv_local [OF assms(3) write_ok(2), of d' "w\<lparr>wsPc := WsRange, wsOut := wsOut w @ [e]\<rparr>"])
      (use write_ok o in \<open>auto simp: registered_def owns_def\<close>)
next
  case (write_fail k w e)
  have o: "owns d k w" using chan_inv_owns [OF assms(3)] write_fail by blast
  show ?thesis
    by (rule chan_inv_local [OF assms(3) write_fail(2), of d' "w\<lparr>wsPc := WsUnsub\<rparr>"])
      (use write_fail o in \<open>auto simp: registered_def owns_def\<close>)
next
  case (unsub_lock k w ch)
  have o: "owns d k w" using chan_inv_owns [OF assms(3)] unsub_lock by blast
  show ?thesis
  proof (rule chan_inv_put [OF assms(3), of d' k "w\<lparr>wsPc := WsClosing\<rparr>"])
    show "owns d' j v" if "j \<noteq> k" "dConns d j = Some v" "owns d j v" for j v
      using that unsub_lock chan_inj [OF assms(3) that(2) unsub_lock(2)] by (auto simp: owns_def unsub_delete_def)
    show "wsChan (w\<lparr>wsPc := WsClosing\<rparr>) \<noteq> Some c" if "j \<noteq> k" "dConns d j = Some v" "wsChan v = Some c" for j v c
      using that chan_inj [OF assms(3) that(2) unsub_lock(2) that(3)] by auto
  qed (use unsub_lock o in \<open>auto simp: owns_def registered_def unsub_delete_def\<close>)
next
  case (unsub_unlocked k w ch)
  have o: "owns d k w" using chan_inv_owns [OF assms(3)] unsub_unlocked by blast
  then have "pcs (dBus d) k = UnsubClosing ch" using unsub_unlocked by (simp add: owns_def)
  then obtain b where b: "unsub_close ch (the_bus (dBus d)) = Some b" "subscribers b = subscribers (the_bus (dBus d))"
    "next_chan b = next_chan (the_bus (dBus d))" using close_result [OF assms(2)] by blast
  show ?thesis
  proof (rule chan_inv_put [OF assms(3), of d' k "w\<lparr>wsPc := WsDone, wsConn := False\<rparr>"])
    show "wsChan (w\<lparr>wsPc := WsDone, wsConn := False\<rparr>) \<noteq> Some c" if "j \<noteq> k" "dConns d j = Some v" "wsChan v = Some c" for j v c
      using that chan_inj [OF assms(3) that(2) unsub_unlocked(2) that(3)] by auto
  qed (use unsub_unlocked o b in \<open>auto simp: owns_def registered_def or_panic_def\<close>)
next
  case (pub_lock i order e)
  show ?thesis by (rule chan_inv_same [OF assms(3)]) (use pub_lock in \<open>auto simp: owns_def\<close>)
next
  case (pub_send i e ch chs)
  then obtain b where b: "publish_one e ch (the_bus (dBus d)) = Some b" "subscribers b = subscribers (the_bus (dBus d))"
    "next_chan b = next_chan (the_bus (dBus d))" using send_result [OF assms(2)] by blast
  show ?thesis by (rule chan_inv_same [OF assms(3)]) (use pub_send b in \<open>auto simp: owns_def or_panic_def\<close>)
next
  case (pub_unlock i e)
  show ?thesis by (rule chan_inv_same [OF assms(3)]) (use pub_unlock in \<open>auto simp: owns_def\<close>)
qed

text \<open>The flow of events when one handler changes, and when a publisher sends.\<close>

lemma flow_inv_flows: "flow_inv d \<Longrightarrow> dConns d k = Some w \<Longrightarrow> wsChan w = Some ch \<Longrightarrow> flows d w ch"
  unfolding flow_inv_def by blast

lemma flows_cong:
  "ch_buf (the_chan d' ch) = ch_buf (the_chan d ch) \<Longrightarrow> dOffered d' ch = dOffered d ch \<Longrightarrow> flows d' w ch = flows d w ch"
  by (simp only: flows_def pending_def)

lemma flow_inv_put:
  assumes "flow_inv d" "chan_inv d" "dConns d' = (dConns d)(k \<mapsto> w')" "dOffered d' = dOffered d"
    and "next_chan (the_bus (dBus d)) \<le> next_chan (the_bus (dBus d'))"
    and "\<And>ch. wsChan w' = Some ch \<Longrightarrow> flows d' w' ch"
    and "\<And>ch. wsChan w' \<noteq> Some ch \<Longrightarrow> ch < next_chan (the_bus (dBus d)) \<Longrightarrow> ch_buf (the_chan d' ch) = ch_buf (the_chan d ch)"
    and "\<And>j v ch. j \<noteq> k \<Longrightarrow> dConns d j = Some v \<Longrightarrow> wsChan v = Some ch \<Longrightarrow> wsChan w' \<noteq> Some ch"
  shows "flow_inv d'"
  unfolding flow_inv_def
proof (intro conjI allI impI)
  show "dOffered d' ch = []" if "next_chan (the_bus (dBus d')) \<le> ch" for ch
    using that assms(1,4,5) by (auto simp: flow_inv_def)
  show "flows d' v ch" if jv: "dConns d' j = Some v" "wsChan v = Some ch" for j v ch
  proof (cases "j = k")
    case False
    then have v: "dConns d j = Some v" using jv assms(3) by simp
    then have "ch < next_chan (the_bus (dBus d))" using chan_inv_owns [OF assms(2) v] jv(2) by (simp add: owns_def)
    then have "ch_buf (the_chan d' ch) = ch_buf (the_chan d ch)" using assms(7,8) False v jv(2) by blast
    then show ?thesis using flows_cong [of d' ch d v] flow_inv_flows [OF assms(1) v jv(2)] assms(4) by simp
  qed (use jv assms(3,6) in auto)
qed

lemma flow_inv_local:
  assumes "flow_inv d" "chan_inv d" "dConns d k = Some w" "dConns d' = (dConns d)(k \<mapsto> w')" "dOffered d' = dOffered d"
    and "next_chan (the_bus (dBus d')) = next_chan (the_bus (dBus d))" "wsChan w' = wsChan w"
    and "\<And>ch. wsChan w = Some ch \<Longrightarrow> flows d w ch \<Longrightarrow> flows d' w' ch"
    and "\<And>ch. wsChan w \<noteq> Some ch \<Longrightarrow> ch_buf (the_chan d' ch) = ch_buf (the_chan d ch)"
  shows "flow_inv d'"
proof (rule flow_inv_put [OF assms(1,2,4,5)])
  show "flows d' w' ch" if "wsChan w' = Some ch" for ch
    using assms(7,8) flow_inv_flows [OF assms(1,3)] that by simp
  show "wsChan w' \<noteq> Some ch" if "j \<noteq> k" "dConns d j = Some v" "wsChan v = Some ch" for j v ch
    using chan_inj [OF assms(2) that(2) assms(3) that(3)] that(1) assms(7) by auto
qed (use assms(6,7,9) in auto)

lemma flow_inv_send:
  assumes "flow_inv d" "dConns d' = dConns d" "dOffered d' = (dOffered d)(ch := dOffered d ch @ [e])"
    and "next_chan (the_bus (dBus d')) = next_chan (the_bus (dBus d))" "ch < next_chan (the_bus (dBus d))"
    and "\<And>c. ch_buf (the_chan d' c) = (if c = ch \<and> length (ch_buf (the_chan d ch)) < chan_cap
       then ch_buf (the_chan d ch) @ [e] else ch_buf (the_chan d c))"
  shows "flow_inv d'"
  unfolding flow_inv_def
proof (intro conjI allI impI)
  show "dOffered d' c = []" if "next_chan (the_bus (dBus d')) \<le> c" for c
    using that assms(1,3-5) by (auto simp: flow_inv_def)
  show "flows d' w c" if kw: "dConns d' k = Some w" "wsChan w = Some c" for k w c
  proof -
    have f: "flows d w c" using flow_inv_flows [OF assms(1)] kw assms(2) by simp
    show ?thesis
    proof (cases "c = ch")
      case True
      let ?x = "wsOut w @ in_hand w @ ch_buf (the_chan d ch)"
      have room: "length (ch_buf (the_chan d ch)) < chan_cap" if "?x = dOffered d ch" "length (dOffered d ch) < chan_cap"
        using that(2) unfolding that(1) [symmetric] by simp
      have "subseq xs ys \<Longrightarrow> subseq (xs @ [e]) (ys @ [e])" "subseq xs ys \<Longrightarrow> subseq xs (ys @ [e])" for xs ys :: "event list"
        by (auto intro: list_emb_append_mono subseq_rev_drop_many)
      then show ?thesis using f assms(3,6) room True unfolding flows_def pending_def
        by (cases "registered w") (auto simp flip: append_assoc)
    qed (use f flows_cong [of d' c d w] assms(3,6) in simp)
  qed
qed

lemma dash_flow_inv:
  assumes "dash_step d d'" "bus_inv (dBus d)" "chan_inv d" "flow_inv d"
  shows "flow_inv d'"
  using assms(1)
proof (cases rule: dash_step.cases)
  case (connect k)
  show ?thesis
    by (rule flow_inv_put [OF assms(4,3), of d' k new_ws]) (use connect in \<open>auto simp: new_ws_def the_chan_def\<close>)
next
  case (upgrade_fail k w)
  have o: "wsChan w = None" using chan_inv_owns [OF assms(3) upgrade_fail(2)] upgrade_fail(3) by (auto simp: owns_def)
  show ?thesis
    by (rule flow_inv_local [OF assms(4,3) upgrade_fail(2), of d' "w\<lparr>wsPc := WsDone\<rparr>"])
      (use upgrade_fail o in \<open>auto simp: the_chan_def\<close>)
next
  case (upgrade_ok k w)
  have o: "wsChan w = None" using chan_inv_owns [OF assms(3) upgrade_ok(2)] upgrade_ok(3) by (auto simp: owns_def)
  show ?thesis
    by (rule flow_inv_local [OF assms(4,3) upgrade_ok(2), of d' "w\<lparr>wsPc := WsSubscribe\<rparr>"])
      (use upgrade_ok o in \<open>auto simp: the_chan_def\<close>)
next
  case (subscribe k w ch b)
  let ?w = "w\<lparr>wsPc := WsRange, wsChan := Some ch, wsReading := True\<rparr>"
  have ch: "ch = next_chan (the_bus (dBus d))" "next_chan b = Suc ch" "ch_buf (chans b ch) = []"
      "\<And>c. c \<noteq> ch \<Longrightarrow> chans b c = the_chan d c"
    using subscribe(5) by (auto simp: Subscribe_def Let_def the_chan_def)
  show ?thesis
  proof (rule flow_inv_put [OF assms(4,3), of d' k ?w])
    have "dOffered d ch = []" using assms(4) ch(1) by (simp add: flow_inv_def)
    moreover have "wsOut w = []" using chan_inv_owns [OF assms(3) subscribe(2)] subscribe(3) by (auto simp: owns_def)
    ultimately show "flows d' ?w c" if "wsChan ?w = Some c" for c
      using that subscribe(1) ch(3) by (simp add: flows_def pending_def in_hand_def the_chan_def)
    show "wsChan ?w \<noteq> Some c" if "dConns d j = Some v" "wsChan v = Some c" for j v c
      using chan_inv_owns [OF assms(3) that(1)] that(2) ch(1) by (auto simp: owns_def)
  qed (use subscribe(1) ch in \<open>auto simp: the_chan_def\<close>)
next
  case (client_leaves k w)
  show ?thesis
    by (rule flow_inv_local [OF assms(4,3) client_leaves(2), of d' "w\<lparr>wsConn := False\<rparr>"])
      (use client_leaves in \<open>auto simp: the_chan_def flows_def pending_def registered_def in_hand_def\<close>)
next
  case (reader_ends k w)
  show ?thesis
    by (rule flow_inv_local [OF assms(4,3) reader_ends(2), of d' "w\<lparr>wsReading := False\<rparr>"])
      (use reader_ends in \<open>auto simp: the_chan_def flows_def pending_def registered_def in_hand_def\<close>)
next
  case (range_next k w ch e es)
  show ?thesis
    by (rule flow_inv_local [OF assms(4,3) range_next(2), of d' "w\<lparr>wsPc := WsWrite e\<rparr>"])
      (use range_next in \<open>auto simp: the_chan_def flows_def pending_def registered_def in_hand_def\<close>)
next
  case (range_closed k w ch)
  show ?thesis
    by (rule flow_inv_local [OF assms(4,3) range_closed(2), of d' "w\<lparr>wsPc := WsUnsub\<rparr>"])
      (use range_closed in \<open>auto simp: the_chan_def flows_def pending_def registered_def in_hand_def\<close>)
next
  case (write_ok k w e)
  show ?thesis
    by (rule flow_inv_local [OF assms(4,3) write_ok(2), of d' "w\<lparr>wsPc := WsRange, wsOut := wsOut w @ [e]\<rparr>"])
      (use write_ok in \<open>auto simp: the_chan_def flows_def pending_def registered_def in_hand_def\<close>)
next
  case (write_fail k w e)
  have drop: "subseq (xs @ e # ys) zs \<Longrightarrow> subseq (xs @ ys) zs" for xs ys zs
    by (erule subseq_order.trans [rotated], rule list_emb_append_mono) auto
  show ?thesis
    by (rule flow_inv_local [OF assms(4,3) write_fail(2), of d' "w\<lparr>wsPc := WsUnsub\<rparr>"])
      (use write_fail in \<open>auto simp: the_chan_def flows_def pending_def registered_def in_hand_def intro: drop\<close>)
next
  case (unsub_lock k w ch)
  have pre: "subseq (xs @ ys) zs \<Longrightarrow> subseq xs zs" for xs ys zs :: "event list"
    by (rule subseq_order.trans [rotated]) auto
  show ?thesis
    by (rule flow_inv_local [OF assms(4,3) unsub_lock(2), of d' "w\<lparr>wsPc := WsClosing\<rparr>"])
      (use unsub_lock in \<open>auto simp: the_chan_def flows_def pending_def registered_def in_hand_def unsub_delete_def intro: pre\<close>)
next
  case (unsub_unlocked k w ch)
  have "pcs (dBus d) k = UnsubClosing ch" using chan_inv_owns [OF assms(3) unsub_unlocked(2)] unsub_unlocked(3,4) by (simp add: owns_def)
  then obtain b where b: "unsub_close ch (the_bus (dBus d)) = Some b" "next_chan b = next_chan (the_bus (dBus d))"
    "\<forall>c. ch_buf (chans b c) = ch_buf (the_chan d c)" using close_result [OF assms(2)] by blast
  show ?thesis
    by (rule flow_inv_local [OF assms(4,3) unsub_unlocked(2), of d' "w\<lparr>wsPc := WsDone, wsConn := False\<rparr>"])
      (use unsub_unlocked b in \<open>auto simp: the_chan_def flows_def pending_def registered_def or_panic_def\<close>)
next
  case (pub_lock i order e)
  then show ?thesis using assms(4) flows_cong [of d' _ d] by (simp add: flow_inv_def the_chan_def)
next
  case (pub_send i e ch chs)
  then obtain b where b: "publish_one e ch (the_bus (dBus d)) = Some b" "next_chan b = next_chan (the_bus (dBus d))"
    "ch \<in> sub_keys d" "\<forall>c. ch_buf (chans b c) = (if c = ch \<and> length (ch_buf (the_chan d ch)) < chan_cap
       then ch_buf (the_chan d ch) @ [e] else ch_buf (the_chan d c))" using send_result [OF assms(2)] by blast
  have "ch < next_chan (the_bus (dBus d))" using b(3) assms(2) by (auto simp: bus_inv_def bus_ok_def)
  then show ?thesis
    by (intro flow_inv_send [OF assms(4), of d' ch e]) (use pub_send(1) b in \<open>simp_all add: or_panic_def the_chan_def\<close>)
next
  case (pub_unlock i e)
  then show ?thesis using assms(4) flows_cong [of d' _ d] by (simp add: flow_inv_def the_chan_def)
qed

interpretation dash: inv_system dash_start dash_step dash_inv
proof unfold_locales
  show "dash_start d \<Longrightarrow> dash_inv d" for d
    using bus.inv_init by (auto simp: dash_start_def dash_inv_def chan_inv_def flow_inv_def bus_start_def)
  show "dash_inv d \<Longrightarrow> dash_step d d' \<Longrightarrow> dash_inv d'" for d d'
    unfolding dash_inv_def using dash_bus_inv dash_chan_inv dash_flow_inv by metis
qed

text \<open>A run: one client, one event published and written, and the client gone.\<close>

lemma sample_stream:
  "\<exists>d w. reach dash_start dash_step d \<and> dConns d 0 = Some w \<and> wsPc w = WsRange \<and> wsChan w = Some 0 \<and>
     \<not> wsConn w \<and> \<not> wsReading w \<and> wsOut w = [e] \<and> ch_buf (the_chan d 0) = [] \<and> dOffered d 0 = [e]"
proof -
  let ?b0 = "NewBus (\<lambda>_. \<lparr>ch_buf = [], ch_closed = False\<rparr>)"
  let ?d0 = "\<lparr>dBus = \<lparr>the_bus = ?b0, pcs = \<lambda>_. Idle\<rparr>, dConns = \<lambda>_. None, dOffered = \<lambda>_. []\<rparr>"
  let ?d1 = "put_ws 0 new_ws ?d0"
  let ?w2 = "new_ws\<lparr>wsPc := WsSubscribe\<rparr>"
  let ?d2 = "put_ws 0 ?w2 ?d1"
  let ?w3 = "?w2\<lparr>wsPc := WsRange, wsChan := Some 0, wsReading := True\<rparr>"
  let ?b3 = "snd (Subscribe ?b0)"
  let ?d3 = "put_ws 0 ?w3 (set_bus ?b3 ?d2)"
  let ?d4 = "?d3\<lparr>dBus := goto 1 (PubLoop e [0]) (dBus ?d3)\<rparr>"
  let ?d5 = "?d4\<lparr>dBus := or_panic 1 (PubLoop e []) (publish_one e 0 (the_bus (dBus ?d4))) (dBus ?d4),
                 dOffered := (dOffered ?d4)(0 := dOffered ?d4 0 @ [e])\<rparr>"
  let ?d6 = "?d5\<lparr>dBus := goto 1 Idle (dBus ?d5)\<rparr>"
  let ?w7 = "?w3\<lparr>wsPc := WsWrite e\<rparr>"
  let ?d7 = "put_ws 0 ?w7 (set_bus (receive_from 0 [] (the_bus (dBus ?d6))) ?d6)"
  let ?w8 = "?w7\<lparr>wsPc := WsRange, wsOut := wsOut ?w7 @ [e]\<rparr>"
  let ?d8 = "put_ws 0 ?w8 ?d7"
  let ?w9 = "?w8\<lparr>wsConn := False\<rparr>"
  let ?d9 = "put_ws 0 ?w9 ?d8"
  let ?w10 = "?w9\<lparr>wsReading := False\<rparr>"
  let ?d10 = "put_ws 0 ?w10 ?d9"
  let ?R = "reach dash_start dash_step"
  have "?R ?d0" by (rule reach_init) (simp add: dash_start_def bus_start_def NewBus_def)
  then have "?R ?d1" by (rule reach_step) (rule connect, simp_all)
  then have "?R ?d2" by (rule reach_step) (rule upgrade_ok, simp_all add: new_ws_def)
  then have "?R ?d3" by (rule reach_step) (rule subscribe, simp_all add: wlock_free_def Subscribe_def NewBus_def)
  then have "?R ?d4" by (rule reach_step) (rule pub_lock, simp_all add: range_ok_def Subscribe_def NewBus_def)
  then have "?R ?d5" by (rule reach_step) (rule pub_send, simp)
  then have "?R ?d6"
    by (rule reach_step) (rule pub_unlock, simp add: or_panic_def publish_one_def try_send_def Subscribe_def NewBus_def chan_cap_def)
  then have "?R ?d7"
    by (rule reach_step)
      (rule range_next, simp_all add: the_chan_def or_panic_def publish_one_def try_send_def Subscribe_def NewBus_def chan_cap_def)
  then have "?R ?d8" by (rule reach_step) (rule write_ok, simp_all)
  then have "?R ?d9" by (rule reach_step) (rule client_leaves, simp)
  then have "?R ?d10" by (rule reach_step) (rule reader_ends, simp_all)
  moreover have "dConns ?d10 0 = Some ?w10" by simp
  moreover have "wsPc ?w10 = WsRange \<and> wsChan ?w10 = Some 0 \<and> \<not> wsConn ?w10 \<and> \<not> wsReading ?w10 \<and> wsOut ?w10 = [e]"
    by (simp add: new_ws_def)
  moreover have "ch_buf (the_chan ?d10 0) = [] \<and> dOffered ?d10 0 = [e]" by (simp add: the_chan_def)
  ultimately show ?thesis by blast
qed

section \<open>Properties\<close>

text \<open>C40: Every dashboard sees the events in order: the frames written to a client are a subsequence of the events
  published to its channel, and while the handler streams and no more than 512 events have been
  published to it, written, in-hand and buffered events are exactly these; nothing panics, and the
  subscriptions are those of the handlers still streaming, one channel each.\<close>

theorem websocket_streams_in_order:
  assumes "reach dash_start dash_step d"
  shows "pcs (dBus d) i \<noteq> Panicked \<and>
    (\<forall>k w ch. dConns d k = Some w \<longrightarrow> wsChan w = Some ch \<longrightarrow>
       subseq (wsOut w) (dOffered d ch) \<and>
       (wsPc w = WsRange \<and> length (dOffered d ch) \<le> chan_cap \<longrightarrow>
          wsOut w @ ch_buf (the_chan d ch) = dOffered d ch)) \<and>
    gm_keys (subscribers (the_bus (dBus d))) = {ch. \<exists>k w. dConns d k = Some w \<and> wsChan w = Some ch \<and> registered w} \<and>
    (\<forall>j k v w. dConns d j = Some v \<longrightarrow> dConns d k = Some w \<longrightarrow> wsChan v \<noteq> None \<longrightarrow> wsChan v = wsChan w \<longrightarrow> j = k)"
proof -
  have i: "bus_inv (dBus d)" "chan_inv d" "flow_inv d" using dash.reach_inv [OF assms] by (simp_all add: dash_inv_def)
  have out: "subseq (wsOut w) (dOffered d ch)"
      "wsPc w = WsRange \<Longrightarrow> length (dOffered d ch) \<le> chan_cap \<Longrightarrow> wsOut w @ ch_buf (the_chan d ch) = dOffered d ch"
    if "dConns d k = Some w" "wsChan w = Some ch" for k w ch
  proof -
    have f: "flows d w ch" using flow_inv_flows [OF i(3) that] .
    have "subseq (wsOut w) (wsOut w @ pending d w ch)" by (intro subseq_rev_drop_many) simp
    then show "subseq (wsOut w) (dOffered d ch)" using f subseq_order.trans unfolding flows_def by blast
    show "wsOut w @ ch_buf (the_chan d ch) = dOffered d ch" if "wsPc w = WsRange" "length (dOffered d ch) \<le> chan_cap"
      using f that by (simp add: flows_def pending_def registered_def in_hand_def)
  qed
  have keys: "sub_keys d = {ch. \<exists>k w. dConns d k = Some w \<and> wsChan w = Some ch \<and> registered w}"
  proof (intro set_eqI iffI)
    fix ch assume "ch \<in> sub_keys d"
    then obtain k w where "dConns d k = Some w" "wsChan w = Some ch" using i(2) by (auto simp: chan_inv_def)
    then show "ch \<in> {ch. \<exists>k w. dConns d k = Some w \<and> wsChan w = Some ch \<and> registered w}"
      using chan_inv_owns [OF i(2)] \<open>ch \<in> sub_keys d\<close> by (fastforce simp: owns_def)
  qed (use chan_inv_owns [OF i(2)] in \<open>fastforce simp: owns_def\<close>)
  have inj: "j = k" if "dConns d j = Some v" "dConns d k = Some w" "wsChan v \<noteq> None" "wsChan v = wsChan w" for j k v w
    using chan_inj [OF i(2) that(1,2)] that(3,4) by auto
  show ?thesis using i(1) out keys inj by (auto simp: bus_inv_def)
qed

definition sample_event :: event where
  "sample_event = \<lparr>evType = EventWorkerConnected, evTimestamp = 7, evData = []\<rparr>"

theorem websocket_streams_in_order_witness:
  "\<exists>d w. dConns d 0 = Some w \<and> dOffered d 0 = [sample_event] \<and> wsOut w @ ch_buf (the_chan d 0) = [sample_event]"
proof -
  obtain d w where d: "reach dash_start dash_step d" "dConns d 0 = Some w" "wsPc w = WsRange" "wsChan w = Some 0"
    "dOffered d 0 = [sample_event]" using sample_stream [of sample_event] by blast
  have "wsOut w @ ch_buf (the_chan d 0) = dOffered d 0"
    using websocket_streams_in_order [OF d(1), of 0] d(2-5) by (simp add: chan_cap_def)
  with d show ?thesis by auto
qed

text \<open>A handler that waits on its empty channel is left alone by every step but a send on that channel.\<close>

lemma waiting_stays:
  assumes "dash_step d d'" "dash_inv d" "dConns d k = Some w" "wsPc w = WsRange" "wsChan w = Some ch"
    and "ch_buf (the_chan d ch) = []" "dOffered d' ch = dOffered d ch"
  shows "\<exists>w'. dConns d' k = Some w' \<and> wsPc w' = WsRange \<and> wsChan w' = Some ch \<and> ch_buf (the_chan d' ch) = []"
proof -
  have i: "bus_inv (dBus d)" "chan_inv d" using assms(2) by (simp_all add: dash_inv_def)
  have o: "ch \<in> sub_keys d" "ch < next_chan (the_bus (dBus d))" "\<not> ch_closed (the_chan d ch)"
    using chan_inv_owns [OF i(2) assms(3)] assms(4,5) i(1)
    by (auto simp: owns_def registered_def bus_inv_def bus_ok_def the_chan_def)
  from assms(1) show ?thesis
  proof (cases rule: dash_step.cases)
    case (subscribe j v c b)
    then have "c \<noteq> ch" "\<forall>x. x \<noteq> c \<longrightarrow> chans b x = the_chan d x"
      using o(2) by (auto simp: Subscribe_def Let_def the_chan_def)
    then show ?thesis using subscribe assms(3-6) by (cases "j = k") (auto simp: the_chan_def)
  next
    case (range_next j v c e es)
    then show ?thesis using assms(3-6) chan_inj [OF i(2) range_next(2) assms(3)] by (cases "j = k") (auto simp: the_chan_def)
  next
    case (unsub_unlocked j v c)
    then have "pcs (dBus d) j = UnsubClosing c" using chan_inv_owns [OF i(2) unsub_unlocked(2)] by (simp add: owns_def)
    then obtain b where "unsub_close c (the_bus (dBus d)) = Some b" "\<forall>c. ch_buf (chans b c) = ch_buf (the_chan d c)"
      using close_result [OF i(1)] by blast
    then show ?thesis using unsub_unlocked assms(3-6) by (cases "j = k") (auto simp: the_chan_def or_panic_def)
  next
    case (pub_send i' e c chs)
    then obtain b where b: "publish_one e c (the_bus (dBus d)) = Some b" "\<forall>x. x \<noteq> c \<longrightarrow> ch_buf (chans b x) = ch_buf (the_chan d x)"
      using send_result [OF i(1) pub_send(2)] by auto
    have "c \<noteq> ch" using pub_send(1) assms(7) by auto
    then show ?thesis using pub_send b assms(3-6) by (auto simp: the_chan_def or_panic_def)
  qed (use assms(3-6) o in \<open>auto simp: the_chan_def unsub_delete_def\<close>)
qed

text \<open>A client that has gone is noticed only by a failing write: a handler that waits for an event stays there,
  subscribed, over any steps, the client's and its reader's included, until an event is published to its
  channel.\<close>

theorem gone_client_stays_subscribed:
  assumes "reach dash_start dash_step d" "dConns d k = Some w" "wsPc w = WsRange" "wsChan w = Some ch"
    and "ch_buf (the_chan d ch) = []"
    and "(\<lambda>a b. dash_step a b \<and> dOffered b ch = dOffered a ch)\<^sup>*\<^sup>* d d'"
  shows "\<exists>w'. dConns d' k = Some w' \<and> wsPc w' = WsRange \<and> ch \<in> gm_keys (subscribers (the_bus (dBus d')))"
proof -
  from assms(6) have "reach dash_start dash_step d' \<and>
      (\<exists>w'. dConns d' k = Some w' \<and> wsPc w' = WsRange \<and> wsChan w' = Some ch \<and> ch_buf (the_chan d' ch) = [])"
  proof (induction rule: rtranclp_induct)
    case (step y z)
    then obtain w' where y: "reach dash_start dash_step y" "dConns y k = Some w'" "wsPc w' = WsRange" "wsChan w' = Some ch"
      "ch_buf (the_chan y ch) = []" by blast
    have yz: "dash_step y z" "dOffered z ch = dOffered y ch" using step.hyps(2) by simp_all
    show ?case using reach_step [OF y(1) yz(1)] waiting_stays [OF yz(1) dash.reach_inv [OF y(1)] y(2-5) yz(2)] by simp
  qed (use assms in blast)
  then obtain w' where z: "dash_inv d'" "dConns d' k = Some w'" "wsPc w' = WsRange" "wsChan w' = Some ch"
    using dash.reach_inv by blast
  then have "owns d' k w'" using chan_inv_owns by (simp add: dash_inv_def)
  then show ?thesis using z by (simp add: owns_def registered_def)
qed

theorem gone_client_stays_subscribed_witness:
  "\<exists>d w. dConns d 0 = Some w \<and> \<not> wsConn w \<and> \<not> wsReading w \<and>
     (\<forall>d'. (\<lambda>a b. dash_step a b \<and> dOffered b 0 = dOffered a 0)\<^sup>*\<^sup>* d d' \<longrightarrow> 0 \<in> gm_keys (subscribers (the_bus (dBus d'))))"
proof -
  obtain d w where d: "reach dash_start dash_step d" "dConns d 0 = Some w" "wsPc w = WsRange" "wsChan w = Some 0"
    "ch_buf (the_chan d 0) = []" "\<not> wsConn w" "\<not> wsReading w" using sample_stream [of sample_event] by blast
  then show ?thesis using gone_client_stays_subscribed [OF d(1-5)] by blast
qed

end
