(* ===== verification/LoadTest.thy ===== *)
theory LoadTest
  imports Prelude
begin

text \<open>
  The load tester, \<open>src/cmd/loadtest/main.go\<close>: a loop that starts one goroutine per request, the goroutines
  that post and count, and the percentiles of the latencies at the end. The server's answers are part of
  the actions; the flags are arguments. The product of a length and a percentage, in floats, is an argument.
\<close>

section \<open>Requests\<close>

datatype post_result = PostError | Answer int64 duration

datatype req_pc = Posting | Counted duration | ReqDone

record load =
  ldReqs :: "req_pc list"
  ldErrors :: int32
  ldSubmitted :: int32
  ldLatencies :: "duration list"

definition load_start :: load where
  "load_start = \<lparr>ldReqs = [], ldErrors = 0, ldSubmitted = 0, ldLatencies = []\<rparr>"

text \<open>\<open>time.Second / time.Duration(rate)\<close>, truncated; the division panics on zero.\<close>

definition interval :: "int64 \<Rightarrow> duration option" where
  "interval rate =
     (if rate = 0 then None
      else Some (word_of_int (sgn (sint rate) * (sint Second div \<bar>sint rate\<bar>))))"

datatype load_act = Spawn | Respond nat post_result | Append nat

text \<open>The loop starts request after request; a goroutine counts, then appends under the mutex.\<close>

fun load_step :: "int64 \<Rightarrow> load_act \<Rightarrow> load \<Rightarrow> load option" where
  "load_step num Spawn s =
     (if int (length (ldReqs s)) < sint num then Some (s\<lparr>ldReqs := ldReqs s @ [Posting]\<rparr>) else None)"
| "load_step num (Respond n out) s =
     (if n < length (ldReqs s) \<and> ldReqs s ! n = Posting then
        case out of
          Answer code latency \<Rightarrow>
            if code = 200 then
              Some (s\<lparr>ldReqs := (ldReqs s)[n := Counted latency], ldSubmitted := ldSubmitted s + 1\<rparr>)
            else Some (s\<lparr>ldReqs := (ldReqs s)[n := ReqDone], ldErrors := ldErrors s + 1\<rparr>)
        | PostError \<Rightarrow> Some (s\<lparr>ldReqs := (ldReqs s)[n := ReqDone], ldErrors := ldErrors s + 1\<rparr>)
      else None)"
| "load_step num (Append n) s =
     (if n < length (ldReqs s) then
        case ldReqs s ! n of
          Counted latency \<Rightarrow>
            Some (s\<lparr>ldReqs := (ldReqs s)[n := ReqDone], ldLatencies := ldLatencies s @ [latency]\<rparr>)
        | _ \<Rightarrow> None
      else None)"

fun load_run :: "int64 \<Rightarrow> load_act list \<Rightarrow> load \<Rightarrow> load option" where
  "load_run num [] s = Some s"
| "load_run num (a # as) s = (case load_step num a s of None \<Rightarrow> None | Some s \<Rightarrow> load_run num as s)"

text \<open>What lets \<open>wg.Wait\<close> return after the loop.\<close>

definition load_done :: "int64 \<Rightarrow> load \<Rightarrow> bool" where
  "load_done num s \<longleftrightarrow> sint num \<le> int (length (ldReqs s)) \<and> list_all (\<lambda>r. r = ReqDone) (ldReqs s)"

section \<open>The report\<close>

definition sorted_latencies :: "load \<Rightarrow> duration list" where
  "sorted_latencies s = sort_key sint (ldLatencies s)"

definition percentile :: "(nat \<Rightarrow> 'f \<Rightarrow> nat) \<Rightarrow> duration list \<Rightarrow> 'f \<Rightarrow> duration" where
  "percentile scale latencies pct =
     (if length latencies = 0 then 0
      else
        let idx = scale (length latencies) pct;
            idx = (if length latencies \<le> idx then length latencies - 1 else idx)
        in latencies ! idx)"

section \<open>Properties\<close>

definition waiting :: "load \<Rightarrow> nat" where
  "waiting s = length (filter (\<lambda>r. case r of Counted _ \<Rightarrow> True | _ \<Rightarrow> False) (ldReqs s))"

definition posting :: "load \<Rightarrow> nat" where
  "posting s = length (filter (\<lambda>r. r = Posting) (ldReqs s))"

text \<open>Each request is being posted, waits to append, failed, or has its latency in the list.\<close>

definition load_inv :: "int64 \<Rightarrow> load \<Rightarrow> bool" where
  "load_inv num s \<longleftrightarrow>
     int (length (ldReqs s)) \<le> max 0 (sint num) \<and>
     (\<exists>failed. ldErrors s = of_nat failed \<and> ldSubmitted s = of_nat (length (ldLatencies s) + waiting s) \<and>
        length (ldReqs s) = posting s + waiting s + failed + length (ldLatencies s))"

lemma filter_update:
  "n < length xs \<Longrightarrow> length (filter P (xs[n := y])) + of_bool (P (xs ! n)) = length (filter P xs) + of_bool (P y)"
proof (induction xs arbitrary: n)
  case (Cons x xs)
  then show ?case by (cases n) auto
qed simp

lemma load_inv_step: "load_inv num s \<Longrightarrow> load_step num a s = Some s' \<Longrightarrow> load_inv num s'"
proof -
  assume i: "load_inv num s" and st: "load_step num a s = Some s'"
  then obtain failed where f: "ldErrors s = of_nat failed" "ldSubmitted s = of_nat (length (ldLatencies s) + waiting s)"
      "length (ldReqs s) = posting s + waiting s + failed + length (ldLatencies s)" "int (length (ldReqs s)) \<le> max 0 (sint num)"
    by (auto simp: load_inv_def)
  have upd: "length (filter P ((ldReqs s)[n := y])) + of_bool (P (ldReqs s ! n)) = length (filter P (ldReqs s)) + of_bool (P y)"
    if "n < length (ldReqs s)" for P n y using filter_update [OF that] .
  show "load_inv num s'"
  proof (cases a)
    case Spawn
    then show ?thesis using st f by (auto simp: load_inv_def waiting_def posting_def split: if_splits)
  next
    case (Respond n out)
    then have n: "n < length (ldReqs s)" "ldReqs s ! n = Posting" using st by (auto split: if_splits)
    consider (fail) "s' = s\<lparr>ldReqs := (ldReqs s)[n := ReqDone], ldErrors := ldErrors s + 1\<rparr>"
      | (ok) l where "s' = s\<lparr>ldReqs := (ldReqs s)[n := Counted l], ldSubmitted := ldSubmitted s + 1\<rparr>"
      using st Respond by (auto split: if_splits post_result.splits)
    then show ?thesis
    proof cases
      case fail
      then have "Suc (posting s') = posting s" "waiting s' = waiting s"
        using upd [OF n(1), of "\<lambda>r. r = Posting" ReqDone]
          upd [OF n(1), of "\<lambda>r. case r of Counted _ \<Rightarrow> True | _ \<Rightarrow> False" ReqDone] n(2)
        by (simp_all add: posting_def waiting_def)
      then show ?thesis using fail f by (auto simp: load_inv_def intro!: exI [of _ "Suc failed"])
    next
      case ok
      then have "Suc (posting s') = posting s" "waiting s' = Suc (waiting s)"
        using upd [OF n(1), of "\<lambda>r. r = Posting" "Counted l"]
          upd [OF n(1), of "\<lambda>r. case r of Counted _ \<Rightarrow> True | _ \<Rightarrow> False" "Counted l"] n(2)
        by (simp_all add: posting_def waiting_def)
      then show ?thesis using ok f by (auto simp: load_inv_def intro!: exI [of _ failed])
    qed
  next
    case (Append n)
    then obtain l where n: "n < length (ldReqs s)" "ldReqs s ! n = Counted l"
      and s': "s' = s\<lparr>ldReqs := (ldReqs s)[n := ReqDone], ldLatencies := ldLatencies s @ [l]\<rparr>"
      using st by (auto split: if_splits req_pc.splits)
    then have "posting s' = posting s" "Suc (waiting s') = waiting s"
      using upd [OF n(1), of "\<lambda>r. r = Posting" ReqDone]
        upd [OF n(1), of "\<lambda>r. case r of Counted _ \<Rightarrow> True | _ \<Rightarrow> False" ReqDone] n(2)
      by (simp_all add: posting_def waiting_def)
    moreover from this have "length (ldLatencies s') + waiting s' = length (ldLatencies s) + waiting s" using s' by simp
    then have "ldSubmitted s' = of_nat (length (ldLatencies s') + waiting s')" using s' f(2) by (simp only:) simp
    ultimately show ?thesis using s' f(1,3,4) unfolding load_inv_def by (intro conjI exI [of _ failed]) auto
  qed
qed

interpretation load: inv_system "\<lambda>s. s = load_start" "\<lambda>s s'. \<exists>a. load_step num a s = Some s'" "load_inv num"
proof unfold_locales
  show "s = load_start \<Longrightarrow> load_inv num s" for s by (simp add: load_start_def load_inv_def waiting_def posting_def)
  show "load_inv num s \<Longrightarrow> \<exists>a. load_step num a s = Some s' \<Longrightarrow> load_inv num s'" for s s' using load_inv_step by blast
qed

lemma load_run_reach:
  "load_run num as s = Some s' \<Longrightarrow> reach (\<lambda>s. s = load_start) (\<lambda>s s'. \<exists>a. load_step num a s = Some s') s \<Longrightarrow>
   reach (\<lambda>s. s = load_start) (\<lambda>s s'. \<exists>a. load_step num a s = Some s') s'"
proof (induction as arbitrary: s)
  case (Cons a as)
  then obtain s1 where s1: "load_step num a s = Some s1" "load_run num as s1 = Some s'" by (auto split: option.splits)
  then have "\<exists>a. load_step num a s = Some s1" by blast
  with reach_step [OF Cons.prems(2) this] show ?case using Cons.IH [OF s1(2)] by simp
qed simp

text \<open>A percentile of some latencies is one of them, and percentiles grow with the index.\<close>

lemma percentile_mem: "xs \<noteq> [] \<Longrightarrow> percentile scale xs pct \<in> set xs"
  by (simp add: percentile_def Let_def)

lemma percentile_mono:
  "scale (length xs) a \<le> scale (length xs) b \<Longrightarrow> sint (percentile scale (sort_key sint xs) a) \<le> sint (percentile scale (sort_key sint xs) b)"
proof -
  assume le: "scale (length xs) a \<le> scale (length xs) b"
  have nth: "i \<le> j \<Longrightarrow> j < length xs \<Longrightarrow> sint (sort_key sint xs ! i) \<le> sint (sort_key sint xs ! j)" for i j
    using sorted_nth_mono [of "map sint (sort_key sint xs)" i j] by (simp add: sorted_sort_key)
  show ?thesis by (cases "xs = []") (use le in \<open>auto simp: percentile_def Let_def intro!: nth\<close>)
qed

text \<open>The report accounts for every request: when \<open>wg.Wait\<close> returns, submitted and failed requests add up to the
  number of requests, every submitted one has left its latency, and the percentiles are latencies, in order.\<close>

theorem load_report_adds_up:
  assumes "load_run num as load_start = Some s" "load_done num s" "0 < sint num" "sint num < 2 ^ 31"
  shows "sint (ldSubmitted s) + sint (ldErrors s) = sint num \<and> sint (ldSubmitted s) = int (length (ldLatencies s)) \<and>
    (ldLatencies s \<noteq> [] \<longrightarrow> percentile scale (sorted_latencies s) pct \<in> set (ldLatencies s)) \<and>
    (scale (length (ldLatencies s)) pct \<le> scale (length (ldLatencies s)) pct' \<longrightarrow>
       sint (percentile scale (sorted_latencies s) pct) \<le> sint (percentile scale (sorted_latencies s) pct'))"
proof -
  have "load_inv num s" using load.reach_inv [OF load_run_reach [OF assms(1) reach_init]] by simp
  then obtain failed where f: "ldErrors s = of_nat failed" "ldSubmitted s = of_nat (length (ldLatencies s) + waiting s)"
      "length (ldReqs s) = posting s + waiting s + failed + length (ldLatencies s)" "int (length (ldReqs s)) \<le> sint num"
    using assms(3) by (auto simp: load_inv_def)
  have z: "posting s = 0" "waiting s = 0"
    using assms(2) by (auto simp: load_done_def list_all_iff posting_def waiting_def filter_empty_conv)
  have n: "int failed + int (length (ldLatencies s)) = sint num" using f(3,4) z assms(2) by (simp add: load_done_def)
  have small: "sint (of_nat k :: int32) = int k" if "int k < 2 ^ 31" for k
    using that sint_sbintrunc' [of "int k", where 'a = 32] by (simp add: signed_take_bit_int_eq_self)
  have "sint (ldErrors s) = int failed" "sint (ldSubmitted s) = int (length (ldLatencies s))"
    using small f(1,2) z(2) n assms(4) by auto
  moreover have "sorted_latencies s \<noteq> []" if "ldLatencies s \<noteq> []"
    using that by (metis length_sort list.size(3) length_0_conv sorted_latencies_def)
  ultimately show ?thesis
    using n percentile_mem [of "sorted_latencies s" scale pct] percentile_mono [of scale "ldLatencies s" pct pct']
    by (auto simp: sorted_latencies_def)
qed

text \<open>Two requests, one answered late and one refused.\<close>

definition sample_load :: load where
  "sample_load = \<lparr>ldReqs = [ReqDone, ReqDone], ldErrors = 1, ldSubmitted = 1, ldLatencies = [7]\<rparr>"

theorem load_report_adds_up_witness:
  "load_run 2 [Spawn, Spawn, Respond 1 (Answer 200 7), Respond 0 PostError, Append 1] load_start = Some sample_load \<and>
   sint (ldSubmitted sample_load) + sint (ldErrors sample_load) = 2 \<and>
   percentile (\<lambda>n p. n * p div 100) (sorted_latencies sample_load) (50 :: nat) \<in> set (ldLatencies sample_load)"
proof -
  have r: "load_run 2 [Spawn, Spawn, Respond 1 (Answer 200 7), Respond 0 PostError, Append 1] load_start = Some sample_load"
    by (simp add: load_start_def sample_load_def)
  have "load_done 2 sample_load" by (simp add: load_done_def sample_load_def)
  from load_report_adds_up [OF r this, of "\<lambda>n p. n * p div 100" 50 50] show ?thesis using r by (simp add: sample_load_def)
qed

end
