(* ===== verification/Credentials.thy ===== *)
theory Credentials
  imports Executor
begin

text \<open>
  Two set-up packages that the program carries and does not call: the mTLS credentials of
  \<open>src/internal/tls/tls.go\<close> and the tracer provider of \<open>src/internal/tracing/tracing.go\<close>. The crypto library,
  the file system and OpenTelemetry are parameters; what is modelled is which of their results the code
  combines into which configuration, and the errors.
\<close>

section \<open>Mutual TLS\<close>

record ('cert, 'pool) crypto =
  LoadX509KeyPair :: "string \<Rightarrow> string \<Rightarrow> go_error + 'cert"
  os_ReadFile :: "string \<Rightarrow> go_error + string"
  NewCertPool :: 'pool
  AppendCertsFromPEM :: "string \<Rightarrow> 'pool \<Rightarrow> bool \<times> 'pool"

datatype client_auth = NoClientCert | RequireAndVerifyClientCert

record ('cert, 'pool) tls_config =
  Certificates :: "'cert list"
  ClientCAs :: "'pool option"
  RootCAs :: "'pool option"
  ClientAuth :: client_auth
  MinVersion :: nat

definition VersionTLS13 :: nat where
  "VersionTLS13 = 772"

text \<open>The two functions differ in the first error text and in what the pool is for.\<close>

definition ServerCredentials :: "('cert, 'pool) crypto \<Rightarrow> string \<Rightarrow> string \<Rightarrow> string \<Rightarrow> go_error + ('cert, 'pool) tls_config" where
  "ServerCredentials lib certFile keyFile caFile =
     (case LoadX509KeyPair lib certFile keyFile of
        Inl err \<Rightarrow> Inl (Wrapped ''load server keypair: '' err)
      | Inr cert \<Rightarrow>
          (case os_ReadFile lib caFile of
             Inl err \<Rightarrow> Inl (Wrapped ''read CA cert: '' err)
           | Inr caCert \<Rightarrow>
               (case AppendCertsFromPEM lib caCert (NewCertPool lib) of
                  (ok, caPool) \<Rightarrow>
                    if \<not> ok then Inl (PlainError ''failed to add CA cert to pool'')
                    else Inr \<lparr>Certificates = [cert], ClientCAs = Some caPool, RootCAs = None,
                              ClientAuth = RequireAndVerifyClientCert, MinVersion = VersionTLS13\<rparr>)))"

definition ClientCredentials :: "('cert, 'pool) crypto \<Rightarrow> string \<Rightarrow> string \<Rightarrow> string \<Rightarrow> go_error + ('cert, 'pool) tls_config" where
  "ClientCredentials lib certFile keyFile caFile =
     (case LoadX509KeyPair lib certFile keyFile of
        Inl err \<Rightarrow> Inl (Wrapped ''load client keypair: '' err)
      | Inr cert \<Rightarrow>
          (case os_ReadFile lib caFile of
             Inl err \<Rightarrow> Inl (Wrapped ''read CA cert: '' err)
           | Inr caCert \<Rightarrow>
               (case AppendCertsFromPEM lib caCert (NewCertPool lib) of
                  (ok, caPool) \<Rightarrow>
                    if \<not> ok then Inl (PlainError ''failed to add CA cert to pool'')
                    else Inr \<lparr>Certificates = [cert], ClientCAs = None, RootCAs = Some caPool,
                              ClientAuth = NoClientCert, MinVersion = VersionTLS13\<rparr>)))"

text \<open>
  What a handshake between two configurations needs, given who signed what: the versions allow one
  another, the client finds the server's certificate under its roots, and a server that demands a
  certificate finds the client's under its client authorities.
\<close>

definition accepts :: "('cert \<Rightarrow> 'pool \<Rightarrow> bool) \<Rightarrow> ('cert, 'pool) tls_config \<Rightarrow> ('cert, 'pool) tls_config \<Rightarrow> bool" where
  "accepts issued srv cli \<longleftrightarrow>
     (\<exists>pool. RootCAs cli = Some pool \<and> list_ex (\<lambda>c. issued c pool) (Certificates srv)) \<and>
     (ClientAuth srv = RequireAndVerifyClientCert \<longrightarrow>
        (\<exists>pool. ClientCAs srv = Some pool \<and> list_ex (\<lambda>c. issued c pool) (Certificates cli)))"

text \<open>With one authority file on both sides, each side is accepted exactly when that authority signed both
  certificates; a client without a certificate never is.\<close>

theorem mutual_authentication:
  assumes "ServerCredentials lib sc sk ca = Inr srv" and "ClientCredentials lib cc ck ca = Inr cli"
  shows "\<exists>scert ccert pem pool. LoadX509KeyPair lib sc sk = Inr scert \<and> LoadX509KeyPair lib cc ck = Inr ccert \<and>
    os_ReadFile lib ca = Inr pem \<and> AppendCertsFromPEM lib pem (NewCertPool lib) = (True, pool) \<and>
    (accepts issued srv cli \<longleftrightarrow> issued scert pool \<and> issued ccert pool) \<and>
    \<not> accepts issued srv (cli\<lparr>Certificates := []\<rparr>) \<and> MinVersion srv = VersionTLS13 \<and> MinVersion cli = VersionTLS13"
  using assms by (auto simp: ServerCredentials_def ClientCredentials_def accepts_def split: sum.splits prod.splits if_splits)

definition toy_crypto :: "(string, string list) crypto" where
  "toy_crypto = \<lparr>LoadX509KeyPair = (\<lambda>c k. if k = [] then Inl (PlainError ''no key'') else Inr c),
     os_ReadFile = (\<lambda>f. Inr f), NewCertPool = [], AppendCertsFromPEM = (\<lambda>pem pool. (pem \<noteq> [], pem # pool))\<rparr>"

theorem mutual_authentication_witness:
  "\<exists>srv cli. ServerCredentials toy_crypto ''s.pem'' ''s.key'' ''ca'' = Inr srv \<and> ClientCredentials toy_crypto ''c.pem'' ''c.key'' ''ca'' = Inr cli \<and>
     accepts (\<lambda>c pool. ''ca'' \<in> set pool) srv cli \<and> \<not> accepts (\<lambda>c pool. ''ca'' \<in> set pool) srv (cli\<lparr>Certificates := []\<rparr>) \<and>
     ServerCredentials toy_crypto ''s.pem'' [] ''ca'' = Inl (Wrapped ''load server keypair: '' (PlainError ''no key''))"
proof -
  obtain srv where srv: "ServerCredentials toy_crypto ''s.pem'' ''s.key'' ''ca'' = Inr srv"
    by (simp add: ServerCredentials_def toy_crypto_def)
  obtain cli where cli: "ClientCredentials toy_crypto ''c.pem'' ''c.key'' ''ca'' = Inr cli"
    by (simp add: ClientCredentials_def toy_crypto_def)
  have "AppendCertsFromPEM toy_crypto pem (NewCertPool toy_crypto) = (True, pool) \<Longrightarrow> os_ReadFile toy_crypto ''ca'' = Inr pem \<Longrightarrow> ''ca'' \<in> set pool"
    for pem pool by (auto simp: toy_crypto_def)
  with mutual_authentication [OF srv cli, of "\<lambda>c pool. ''ca'' \<in> set pool"]
  have "accepts (\<lambda>c pool. ''ca'' \<in> set pool) srv cli" "\<not> accepts (\<lambda>c pool. ''ca'' \<in> set pool) srv (cli\<lparr>Certificates := []\<rparr>)" by blast+
  moreover have "ServerCredentials toy_crypto ''s.pem'' [] ''ca'' = Inl (Wrapped ''load server keypair: '' (PlainError ''no key''))"
    by (simp add: ServerCredentials_def toy_crypto_def)
  ultimately show ?thesis using srv cli by blast
qed

section \<open>Tracing\<close>

record ('exp, 'res, 'tp) otel =
  stdouttrace_New :: "go_error + 'exp"
  resource_New :: "string \<Rightarrow> go_error + 'res"
  NewTracerProvider :: "'exp \<Rightarrow> 'res \<Rightarrow> 'tp"

text \<open>\<open>Init\<close> returns the provider whose \<open>Shutdown\<close> the caller defers; the global provider is the state.\<close>

definition Init :: "('exp, 'res, 'tp) otel \<Rightarrow> string \<Rightarrow> 'tp \<Rightarrow> (go_error + 'tp) \<times> 'tp" where
  "Init lib serviceName provider =
     (case stdouttrace_New lib of
        Inl err \<Rightarrow> (Inl err, provider)
      | Inr exporter \<Rightarrow>
          (case resource_New lib serviceName of
             Inl err \<Rightarrow> (Inl err, provider)
           | Inr res \<Rightarrow> let tp = NewTracerProvider lib exporter res in (Inr tp, tp)))"

definition Tracer :: "('tp \<Rightarrow> string \<Rightarrow> 'tracer) \<Rightarrow> string \<Rightarrow> 'tp \<Rightarrow> 'tracer" where
  "Tracer otel_Tracer name provider = otel_Tracer provider name"

text \<open>The provider that spans go to is replaced exactly when the caller gets its shutdown function.\<close>

lemma Init_provider:
  "Init lib serviceName provider = (r, provider') \<Longrightarrow> (case r of Inl _ \<Rightarrow> provider' = provider | Inr tp \<Rightarrow> provider' = tp)"
  by (auto simp: Init_def Let_def split: sum.splits)

end
