(* ===== verification/GoUtf8.thy ===== *)
theory GoUtf8
  imports Prelude
begin

text \<open>
  The part of \<open>unicode/utf8\<close> and \<open>unicode/utf16\<close> that \<open>encoding/json\<close> rests on. A Go string is a list of
  bytes; \<open>rune_len\<close> is the number of bytes of the rune a string starts with, \<open>None\<close> where
  \<open>DecodeRune\<close> returns \<open>RuneError\<close> of width one.
\<close>

section \<open>Runes\<close>

definition within :: "nat \<Rightarrow> nat \<Rightarrow> char \<Rightarrow> bool" where
  "within lo hi c \<longleftrightarrow> lo \<le> of_char c \<and> of_char c \<le> hi"

abbreviation contin :: "char \<Rightarrow> bool" where
  "contin \<equiv> within 0x80 0xBF"

fun rune_len :: "string \<Rightarrow> nat option" where
  "rune_len [] = None"
| "rune_len (a # s) =
     (if within 0 0x7F a then Some 1
      else if within 0xC2 0xDF a then
        (case s of b # _ \<Rightarrow> if contin b then Some 2 else None | _ \<Rightarrow> None)
      else if within 0xE0 0xEF a then
        (case s of b # c # _ \<Rightarrow>
            if within (if a = CHR 0xE0 then 0xA0 else 0x80) (if a = CHR 0xED then 0x9F else 0xBF) b \<and> contin c
            then Some 3 else None
         | _ \<Rightarrow> None)
      else if within 0xF0 0xF4 a then
        (case s of b # c # d # _ \<Rightarrow>
            if within (if a = CHR 0xF0 then 0x90 else 0x80) (if a = CHR 0xF4 then 0x8F else 0xBF) b \<and>
               contin c \<and> contin d
            then Some 4 else None
         | _ \<Rightarrow> None)
      else None)"

lemma rune_len_bounds: "rune_len s = Some n \<Longrightarrow> 1 \<le> n \<and> n \<le> 4 \<and> n \<le> length s"
  by (cases s) (auto split: if_splits list.splits)

lemma rune_len_append: "rune_len s = Some n \<Longrightarrow> rune_len (take n s @ t) = Some n"
  by (cases s) (auto split: if_splits list.splits)

declare rune_len.simps(2) [simp del]

text \<open>\<open>AppendRune\<close>: surrogates and values out of range are written as \<open>U+FFFD\<close>.\<close>

definition RuneError :: string where
  "RuneError = [CHR 0xEF, CHR 0xBF, CHR 0xBD]"

definition EncodeRune :: "nat \<Rightarrow> string" where
  "EncodeRune r =
     (if r < 0x80 then [char_of r]
      else if r < 0x800 then [char_of (0xC0 + r div 64), char_of (0x80 + r mod 64)]
      else if (0xD800 \<le> r \<and> r < 0xE000) \<or> 0x110000 \<le> r then RuneError
      else if r < 0x10000 then
        [char_of (0xE0 + r div 4096), char_of (0x80 + r div 64 mod 64), char_of (0x80 + r mod 64)]
      else
        [char_of (0xF0 + r div 262144), char_of (0x80 + r div 4096 mod 64), char_of (0x80 + r div 64 mod 64),
         char_of (0x80 + r mod 64)])"

section \<open>Valid strings\<close>

text \<open>\<open>utf8.ValidString\<close>, and what \<open>strings.ToValidUTF8\<close> makes of a string when each bad byte becomes \<open>U+FFFD\<close>.\<close>

function to_valid :: "string \<Rightarrow> string" where
  "to_valid [] = []"
| "to_valid (c # s) =
     (case rune_len (c # s) of
        None \<Rightarrow> RuneError @ to_valid s
      | Some n \<Rightarrow> take n (c # s) @ to_valid (drop n (c # s)))"
  by pat_completeness auto
termination
  by (relation "measure length") (auto dest!: rune_len_bounds)

function ValidString :: "string \<Rightarrow> bool" where
  "ValidString [] = True"
| "ValidString (c # s) =
     (case rune_len (c # s) of None \<Rightarrow> False | Some n \<Rightarrow> ValidString (drop n (c # s)))"
  by pat_completeness auto
termination
  by (relation "measure length") (auto dest!: rune_len_bounds)

declare to_valid.simps(2) [simp del] ValidString.simps(2) [simp del]

lemma to_valid_id: "ValidString s \<Longrightarrow> to_valid s = s"
  by (induction s rule: ValidString.induct)
     (simp_all add: to_valid.simps ValidString.simps split: option.splits)

lemma rune_len_ascii: "within 0 0x7F c \<Longrightarrow> rune_len (c # s) = Some 1"
  by (simp add: rune_len.simps)

text \<open>A string of ASCII bytes is valid.\<close>

lemma ascii_valid: "list_all (within 0 0x7F) s \<Longrightarrow> ValidString s"
  by (induction s) (simp_all add: ValidString.simps rune_len_ascii)

lemma ValidString_append: "ValidString s \<Longrightarrow> ValidString t \<Longrightarrow> ValidString (s @ t)"
proof (induction s rule: ValidString.induct)
  case (2 c s)
  then obtain n where n: "rune_len (c # s) = Some n" "ValidString (drop n (c # s))"
    by (auto simp: ValidString.simps split: option.splits)
  have le: "n \<le> length (c # s)" using rune_len_bounds [OF n(1)] by simp
  have "rune_len ((c # s) @ t) = Some n"
    using rune_len_append [OF n(1), of "drop n (c # s) @ t"] append_take_drop_id [of n "c # s"]
    by (metis append.assoc)
  moreover have "drop n ((c # s) @ t) = drop n (c # s) @ t" using le by (simp only: drop_append) simp
  ultimately show ?case
    using 2(1) [OF n(1) n(2) 2(3)] by (simp add: ValidString.simps)
qed simp

end
