(* ===== verification/GoJson.thy ===== *)
theory GoJson
  imports GoUtf8 GoParse
begin

text \<open>
  What the program uses of \<open>encoding/json\<close>: the encoder \<open>Marshal\<close> with its escaping, the scanner and the
  decoder of one value at the head of a stream, and the storing of a value in the fields of a struct. The
  parser is the scanner's state machine: a stack of open arrays and objects and what may come next. A
  syntax error and the end of the input are \<open>None\<close>.
\<close>

section \<open>Strings\<close>

definition quote :: char where "quote = CHR 0x22"
definition bslash :: char where "bslash = CHR 0x5C"

definition hex_digit :: "nat \<Rightarrow> char" where
  "hex_digit n = (if n < 10 then char_of (48 + n) else char_of (87 + n))"

definition hex_val :: "char \<Rightarrow> nat option" where
  "hex_val c =
     (if within 48 57 c then Some (of_char c - 48)
      else if within 97 102 c then Some (of_char c - 87)
      else if within 65 70 c then Some (of_char c - 55)
      else None)"

text \<open>\<open>appendString\<close> with \<open>escapeHTML\<close> set: bytes below 0x80, then whole runes.\<close>

definition enc_ascii :: "char \<Rightarrow> string" where
  "enc_ascii c =
     (if c = quote \<or> c = bslash then [bslash, c]
      else if c = CHR 0x08 then [bslash, CHR ''b'']
      else if c = CHR 0x0C then [bslash, CHR ''f'']
      else if c = CHR 0x0A then [bslash, CHR ''n'']
      else if c = CHR 0x0D then [bslash, CHR ''r'']
      else if c = CHR 0x09 then [bslash, CHR ''t'']
      else if within 0 0x1F c \<or> c = CHR ''<'' \<or> c = CHR ''>'' \<or> c = CHR ''&'' then
        [bslash, CHR ''u'', CHR ''0'', CHR ''0'', hex_digit (of_char c div 16), hex_digit (of_char c mod 16)]
      else [c])"

definition enc_rune :: "string \<Rightarrow> string" where
  "enc_rune u =
     (if u = [CHR 0xE2, CHR 0x80, CHR 0xA8] then bslash # ''u2028''
      else if u = [CHR 0xE2, CHR 0x80, CHR 0xA9] then bslash # ''u2029''
      else u)"

function enc_body :: "string \<Rightarrow> string" where
  "enc_body [] = []"
| "enc_body (c # s) =
     (if within 0 0x7F c then enc_ascii c @ enc_body s
      else case rune_len (c # s) of
        None \<Rightarrow> (bslash # ''ufffd'') @ enc_body s
      | Some n \<Rightarrow> enc_rune (take n (c # s)) @ enc_body (drop n (c # s)))"
  by pat_completeness auto
termination
  by (relation "measure length") (auto dest!: rune_len_bounds)

definition enc_str :: "string \<Rightarrow> string" where
  "enc_str s = quote # enc_body s @ [quote]"

text \<open>\<open>getu4\<close> and the escapes of \<open>unquote\<close>, after the backslash: what they stand for and the rest.\<close>

definition hex4 :: "string \<Rightarrow> (nat \<times> string) option" where
  "hex4 s =
     (case s of
        a # b # c # d # r \<Rightarrow>
          (case (hex_val a, hex_val b, hex_val c, hex_val d) of
             (Some x, Some y, Some z, Some w) \<Rightarrow> Some (((x * 16 + y) * 16 + z) * 16 + w, r)
           | _ \<Rightarrow> None)
      | _ \<Rightarrow> None)"

text \<open>A high surrogate joins the low one that follows it; any other surrogate is \<open>U+FFFD\<close>.\<close>

definition surrogates :: "nat \<Rightarrow> string \<Rightarrow> string \<times> string" where
  "surrogates x r =
     (case r of
        b # u # r1 \<Rightarrow>
          if b = bslash \<and> u = CHR ''u'' then
            (case hex4 r1 of
               Some (y, r2) \<Rightarrow>
                 if x < 0xDC00 \<and> 0xDC00 \<le> y \<and> y < 0xE000
                 then (EncodeRune ((x - 0xD800) * 1024 + (y - 0xDC00) + 0x10000), r2)
                 else (RuneError, r)
             | None \<Rightarrow> (RuneError, r))
          else (RuneError, r)
      | _ \<Rightarrow> (RuneError, r))"

definition unescape :: "string \<Rightarrow> (string \<times> string) option" where
  "unescape s =
     (case s of
        [] \<Rightarrow> None
      | c # r \<Rightarrow>
          if c = quote \<or> c = bslash \<or> c = CHR ''/'' then Some ([c], r)
          else if c = CHR ''b'' then Some ([CHR 0x08], r)
          else if c = CHR ''f'' then Some ([CHR 0x0C], r)
          else if c = CHR ''n'' then Some ([CHR 0x0A], r)
          else if c = CHR ''r'' then Some ([CHR 0x0D], r)
          else if c = CHR ''t'' then Some ([CHR 0x09], r)
          else if c = CHR ''u'' then
            (case hex4 r of
               None \<Rightarrow> None
             | Some (x, r1) \<Rightarrow>
                 Some (if 0xD800 \<le> x \<and> x < 0xE000 then surrogates x r1 else (EncodeRune x, r1)))
          else None)"

lemma hex4_shorter: "hex4 s = Some (x, r) \<Longrightarrow> length r < length s"
  by (auto simp: hex4_def split: list.splits option.splits prod.splits)

lemma surrogates_shorter: "surrogates x r = (u, r') \<Longrightarrow> length r' \<le> length r"
  by (auto simp: surrogates_def split: list.splits option.splits prod.splits if_splits dest: hex4_shorter)

lemma unescape_shorter: "unescape s = Some (u, r) \<Longrightarrow> length r < length s"
  by (fastforce simp: unescape_def split: list.splits option.splits prod.splits if_splits
      dest: hex4_shorter surrogates_shorter)

text \<open>The inside of a string up to its closing quote. Control characters are refused.\<close>

definition emit :: "string \<Rightarrow> (string \<times> string) option \<Rightarrow> (string \<times> string) option" where
  "emit u res = map_option (\<lambda>(s, r). (u @ s, r)) res"

function lex_str :: "string \<Rightarrow> (string \<times> string) option" where
  "lex_str [] = None"
| "lex_str (c # s) =
     (if c = quote then Some ([], s)
      else if c = bslash then
        (case unescape s of None \<Rightarrow> None | Some (u, r) \<Rightarrow> emit u (lex_str r))
      else if within 0 0x1F c then None
      else case rune_len (c # s) of
        None \<Rightarrow> emit RuneError (lex_str s)
      | Some n \<Rightarrow> emit (take n (c # s)) (lex_str (drop n (c # s))))"
  by pat_completeness auto
termination
  by (relation "measure length") (auto dest!: rune_len_bounds unescape_shorter)

declare enc_body.simps(2) [simp del] lex_str.simps(2) [simp del]

lemma emit_simps [simp]: "emit u (Some (s, r)) = Some (u @ s, r)" "emit u None = None"
  by (simp_all add: emit_def)

lemma emit_emit [simp]: "emit u (emit v x) = emit (u @ v) x"
  by (cases x) (auto simp: emit_def)

lemma lex_str_shorter: "lex_str s = Some (u, r) \<Longrightarrow> length r < length s"
proof (induction s arbitrary: u rule: lex_str.induct)
  case (2 c s)
  then show ?case
    by (auto simp: lex_str.simps emit_def split: if_splits option.splits dest!: unescape_shorter rune_len_bounds)
      fastforce+
qed simp

section \<open>Strings come back\<close>

lemma hex_val_digit: "n < 16 \<Longrightarrow> hex_val (hex_digit n) = Some n"
  by (auto simp: hex_val_def hex_digit_def within_def)

lemma lex_enc_ascii:
  assumes "within 0 0x7F c"
  shows "lex_str (enc_ascii c @ t) = emit [c] (lex_str t)"
proof -
  have h: "of_char c div 16 < (16 :: nat)" "of_char c mod 16 < (16 :: nat)" "of_char c < (128 :: nat)"
    using assms by (auto simp: within_def)
  have v: "EncodeRune (of_char c) = [c]" "\<not> 0xD800 \<le> (of_char c :: nat)"
    using h(3) by (auto simp: EncodeRune_def)
  have z: "hex_val (CHR ''0'') = Some 0" by (simp add: hex_val_def within_def)
  consider "c = quote \<or> c = bslash" | "c \<in> {CHR 0x08, CHR 0x0C, CHR 0x0A, CHR 0x0D, CHR 0x09}"
    | "c \<notin> {quote, bslash, CHR 0x08, CHR 0x0C, CHR 0x0A, CHR 0x0D, CHR 0x09}" by blast
  then show ?thesis
  proof cases
    case 1 then show ?thesis
      by (auto simp: enc_ascii_def quote_def bslash_def lex_str.simps unescape_def)
  next
    case 2 then show ?thesis
      by (auto simp: enc_ascii_def quote_def bslash_def lex_str.simps unescape_def)
  next
    case 3 then show ?thesis
      using assms v h by (auto simp: enc_ascii_def quote_def bslash_def lex_str.simps unescape_def hex4_def hex_val_digit z rune_len_ascii)
  qed
qed

lemma encoded_runes:
  "EncodeRune 65533 = RuneError"
  "EncodeRune 8232 = [CHR 0xE2, CHR 0x80, CHR 0xA8]"
  "EncodeRune 8233 = [CHR 0xE2, CHR 0x80, CHR 0xA9]"
proof -
  have ch: "char_of (239 :: nat) = CHR 0xEF" "char_of (191 :: nat) = CHR 0xBF" "char_of (189 :: nat) = CHR 0xBD"
    "char_of (226 :: nat) = CHR 0xE2" "char_of (128 :: nat) = CHR 0x80" "char_of (168 :: nat) = CHR 0xA8"
    "char_of (169 :: nat) = CHR 0xA9"
    by (simp_all add: char_of_def bit_Suc_0_iff)
  show "EncodeRune 65533 = RuneError" "EncodeRune 8232 = [CHR 0xE2, CHR 0x80, CHR 0xA8]"
    "EncodeRune 8233 = [CHR 0xE2, CHR 0x80, CHR 0xA9]"
    by (simp_all add: EncodeRune_def RuneError_def ch)
qed

lemma lex_escaped_rune:
  "lex_str (bslash # ''ufffd'' @ t) = emit RuneError (lex_str t)"
  "lex_str (bslash # ''u2028'' @ t) = emit [CHR 0xE2, CHR 0x80, CHR 0xA8] (lex_str t)"
  "lex_str (bslash # ''u2029'' @ t) = emit [CHR 0xE2, CHR 0x80, CHR 0xA9] (lex_str t)"
  by (simp_all add: lex_str.simps unescape_def quote_def bslash_def hex4_def hex_val_def within_def encoded_runes)

lemma lex_enc_rune:
  assumes "rune_len s = Some n" "\<not> within 0 0x7F (hd s)"
  shows "lex_str (enc_rune (take n s) @ t) = emit (take n s) (lex_str t)"
proof -
  obtain c u where s: "take n s = c # u" "s = c # tl s"
    using rune_len_bounds [OF assms(1)] by (cases s; cases n) auto
  have n: "rune_len (take n s @ t) = Some n" by (rule rune_len_append [OF assms(1)])
  have len: "length (take n s) = n" using rune_len_bounds [OF assms(1)] by simp
  have "\<not> within 0 0x7F c" using assms(2) s(2) by (metis list.sel(1))
  then have c: "c \<noteq> quote" "c \<noteq> bslash" "\<not> within 0 0x1F c"
    by (auto simp: quote_def bslash_def within_def)
  have split: "take n (c # (u @ t)) = c # u" "drop n (c # (u @ t)) = t"
    using len s(1) by auto
  have "lex_str (c # (u @ t)) =
      (case rune_len (c # (u @ t)) of None \<Rightarrow> emit RuneError (lex_str (u @ t))
       | Some n \<Rightarrow> emit (take n (c # (u @ t))) (lex_str (drop n (c # (u @ t)))))"
    using c by (simp only: lex_str.simps if_False)
  then have "lex_str (take n s @ t) = emit (take n s) (lex_str t)"
    using n by (simp only: s(1) append_Cons split option.case)
  then show ?thesis
    using lex_escaped_rune(2,3) [of t] by (auto simp: enc_rune_def)
qed

lemma lex_enc_body: "lex_str (enc_body s @ quote # r) = Some (to_valid s, r)"
proof (induction s rule: enc_body.induct)
  case 1 then show ?case by (simp add: lex_str.simps)
next
  case (2 c s)
  show ?case
  proof (cases "within 0 0x7F c")
    case True
    then show ?thesis using 2(1) by (simp add: enc_body.simps to_valid.simps rune_len_ascii lex_enc_ascii)
  next
    case ascii: False
    show ?thesis
    proof (cases "rune_len (c # s)")
      case None
      then show ?thesis
        using 2(2) [OF ascii] lex_escaped_rune(1) [of "enc_body s @ quote # r"] ascii
        by (simp add: enc_body.simps to_valid.simps)
    next
      case (Some n)
      then show ?thesis
        using 2(3) [OF ascii Some] lex_enc_rune [OF Some, of "enc_body (drop n (c # s)) @ quote # r"] ascii
        by (simp add: enc_body.simps to_valid.simps)
    qed
  qed
qed

section \<open>Values\<close>

datatype json =
    JNull
  | JBool bool
  | JNum string
  | JStr string
  | JArr "json list"
  | JObj "(string \<times> json) list"

text \<open>The text of a number is kept, as \<open>encoding/json\<close> does until it knows the type of the destination.\<close>

definition commas :: "string list \<Rightarrow> string" where
  "commas ss = (case ss of [] \<Rightarrow> [] | s # r \<Rightarrow> s @ concat (map (\<lambda>t. CHR '','' # t) r))"

fun Marshal :: "json \<Rightarrow> string" where
  "Marshal JNull = ''null''"
| "Marshal (JBool b) = (if b then ''true'' else ''false'')"
| "Marshal (JNum s) = s"
| "Marshal (JStr s) = enc_str s"
| "Marshal (JArr vs) = CHR ''['' # commas (map Marshal vs) @ '']''"
| "Marshal (JObj ms) = CHR ''{'' # commas (map (\<lambda>(k, v). enc_str k @ CHR '':'' # Marshal v) ms) @ ''}''"

text \<open>\<open>NewEncoder(w).Encode(v)\<close> ends the value with a newline.\<close>

definition Encode :: "json \<Rightarrow> string" where
  "Encode v = Marshal v @ [CHR 0x0A]"

section \<open>Tokens\<close>

datatype tok = LBrace | RBrace | LBrack | RBrack | Comma | Colon | Atom json

definition isSpace :: "char \<Rightarrow> bool" where
  "isSpace c \<longleftrightarrow> c \<in> {CHR '' '', CHR 0x09, CHR 0x0D, CHR 0x0A}"

text \<open>A number: the integer part, the fraction and the exponent, each with the rest.\<close>

definition num_int :: "string \<Rightarrow> (string \<times> string) option" where
  "num_int s =
     (case s of
        [] \<Rightarrow> None
      | c # r \<Rightarrow>
          if c = CHR ''0'' then Some (''0'', r)
          else if is_digit c then Some (takeWhile is_digit s, dropWhile is_digit s)
          else None)"

definition num_digits :: "string \<Rightarrow> string \<Rightarrow> (string \<times> string) option" where
  "num_digits pre s =
     (if takeWhile is_digit s = [] then None else Some (pre @ takeWhile is_digit s, dropWhile is_digit s))"

definition num_frac :: "string \<Rightarrow> (string \<times> string) option" where
  "num_frac s =
     (case s of
        c # r \<Rightarrow> if c = CHR ''.'' then num_digits ''.'' r else Some ([], s)
      | [] \<Rightarrow> Some ([], []))"

definition num_exp :: "string \<Rightarrow> (string \<times> string) option" where
  "num_exp s =
     (case s of
        c # r \<Rightarrow>
          if c = CHR ''e'' \<or> c = CHR ''E'' then
            (case r of
               d # r1 \<Rightarrow> if d = CHR ''+'' \<or> d = CHR ''-'' then num_digits [c, d] r1 else num_digits [c] r
             | [] \<Rightarrow> None)
          else Some ([], s)
      | [] \<Rightarrow> Some ([], []))"

definition lex_num :: "string \<Rightarrow> (string \<times> string) option" where
  "lex_num s =
     (let (sg, s0) = (case s of c # r \<Rightarrow> if c = CHR ''-'' then (''-'', r) else ([], s) | [] \<Rightarrow> ([], [])) in
      case num_int s0 of None \<Rightarrow> None | Some (a, s1) \<Rightarrow>
      case num_frac s1 of None \<Rightarrow> None | Some (b, s2) \<Rightarrow>
      case num_exp s2 of None \<Rightarrow> None | Some (c, s3) \<Rightarrow> Some (sg @ a @ b @ c, s3))"

definition keyword :: "string \<Rightarrow> json \<Rightarrow> string \<Rightarrow> (tok \<times> string) option" where
  "keyword w v s = (if take (length w) s = w then Some (Atom v, drop (length w) s) else None)"

definition next_tok :: "string \<Rightarrow> (tok \<times> string) option" where
  "next_tok s =
     (case dropWhile isSpace s of
        [] \<Rightarrow> None
      | c # r \<Rightarrow>
          if c = CHR ''{'' then Some (LBrace, r)
          else if c = CHR ''}'' then Some (RBrace, r)
          else if c = CHR ''['' then Some (LBrack, r)
          else if c = CHR '']'' then Some (RBrack, r)
          else if c = CHR '','' then Some (Comma, r)
          else if c = CHR '':'' then Some (Colon, r)
          else if c = quote then map_option (\<lambda>(u, r). (Atom (JStr u), r)) (lex_str r)
          else if c = CHR ''t'' then keyword ''true'' (JBool True) (c # r)
          else if c = CHR ''f'' then keyword ''false'' (JBool False) (c # r)
          else if c = CHR ''n'' then keyword ''null'' JNull (c # r)
          else map_option (\<lambda>(u, r). (Atom (JNum u), r)) (lex_num (c # r)))"

lemma num_int_shorter: "num_int s = Some (u, r) \<Longrightarrow> length r < length s"
  by (auto simp: num_int_def length_dropWhile_le less_Suc_eq_le split: list.splits if_splits)

lemma num_digits_shorter: "num_digits p s = Some (u, r) \<Longrightarrow> length r \<le> length s"
  by (auto simp: num_digits_def length_dropWhile_le split: if_splits)

lemma num_frac_shorter: "num_frac s = Some (u, r) \<Longrightarrow> length r \<le> length s"
  by (auto simp: num_frac_def split: list.splits if_splits dest!: num_digits_shorter)

lemma num_exp_shorter: "num_exp s = Some (u, r) \<Longrightarrow> length r \<le> length s"
  by (auto simp: num_exp_def split: list.splits if_splits dest!: num_digits_shorter)

lemma lex_num_shorter: "lex_num s = Some (u, r) \<Longrightarrow> length r < length s"
  by (fastforce simp: lex_num_def split: list.splits if_splits option.splits prod.splits
      dest!: num_int_shorter num_frac_shorter num_exp_shorter)

lemma lex_shorter:
  assumes "next_tok s = Some (t, r)"
  shows "length r < length s"
proof -
  have w: "length (dropWhile isSpace s) \<le> length s" by (rule length_dropWhile_le)
  have "length r < length (dropWhile isSpace s)"
    using assms
    by (auto simp: next_tok_def keyword_def split: list.splits if_splits dest: lex_str_shorter lex_num_shorter)
  then show ?thesis using w by simp
qed

section \<open>The scanner\<close>

text \<open>
  \<open>want\<close> is the scanner's \<open>step\<close>; a frame is an entry of \<open>parseState\<close> with what has been read of the array
  or object, the key of the pending member included.
\<close>

datatype want = BeginValue | BeginValueOrEmpty | BeginString | BeginStringOrEmpty | WantColon | EndValue

datatype frame = InArr "json list" | InObj "(string \<times> json) list" string

datatype scan = Refused | Accepted json | Scanning "frame list" want

definition maxNestingDepth :: nat where "maxNestingDepth = 10000"

definition end_value :: "json \<Rightarrow> frame list \<Rightarrow> scan" where
  "end_value v st =
     (case st of
        [] \<Rightarrow> Accepted v
      | InArr vs # st \<Rightarrow> Scanning (InArr (vs @ [v]) # st) EndValue
      | InObj ms k # st \<Rightarrow> Scanning (InObj (ms @ [(k, v)]) [] # st) EndValue)"

definition push_frame :: "frame \<Rightarrow> want \<Rightarrow> frame list \<Rightarrow> scan" where
  "push_frame f w st = (if length st < maxNestingDepth then Scanning (f # st) w else Refused)"

definition begin_value :: "tok \<Rightarrow> frame list \<Rightarrow> scan" where
  "begin_value t st =
     (case t of
        Atom v \<Rightarrow> end_value v st
      | LBrack \<Rightarrow> push_frame (InArr []) BeginValueOrEmpty st
      | LBrace \<Rightarrow> push_frame (InObj [] []) BeginStringOrEmpty st
      | _ \<Rightarrow> Refused)"

definition begin_string :: "tok \<Rightarrow> frame list \<Rightarrow> scan" where
  "begin_string t st =
     (case (t, st) of
        (Atom (JStr k), InObj ms _ # st) \<Rightarrow> Scanning (InObj ms k # st) WantColon
      | _ \<Rightarrow> Refused)"

definition close_frame :: "tok \<Rightarrow> frame list \<Rightarrow> scan" where
  "close_frame t st =
     (case (t, st) of
        (RBrack, InArr vs # st) \<Rightarrow> end_value (JArr vs) st
      | (RBrace, InObj ms _ # st) \<Rightarrow> end_value (JObj ms) st
      | _ \<Rightarrow> Refused)"

fun scan_step :: "want \<Rightarrow> tok \<Rightarrow> frame list \<Rightarrow> scan" where
  "scan_step BeginValue t st = begin_value t st"
| "scan_step BeginValueOrEmpty t st = (if t = RBrack then close_frame t st else begin_value t st)"
| "scan_step BeginString t st = begin_string t st"
| "scan_step BeginStringOrEmpty t st = (if t = RBrace then close_frame t st else begin_string t st)"
| "scan_step WantColon t st = (if t = Colon then Scanning st BeginValue else Refused)"
| "scan_step EndValue t st =
     (if t = Comma then
        (case st of
           InArr _ # _ \<Rightarrow> Scanning st BeginValue
         | InObj _ _ # _ \<Rightarrow> Scanning st BeginString
         | [] \<Rightarrow> Refused)
      else close_frame t st)"

function parse :: "frame list \<Rightarrow> want \<Rightarrow> string \<Rightarrow> (json \<times> string) option" where
  "parse st w s =
     (case next_tok s of
        None \<Rightarrow> None
      | Some (t, r) \<Rightarrow>
          (case scan_step w t st of
             Refused \<Rightarrow> None
           | Accepted v \<Rightarrow> Some (v, r)
           | Scanning st' w' \<Rightarrow> parse st' w' r))"
  by pat_completeness auto
termination
  by (relation "measure (\<lambda>(st, w, s). length s)") (auto dest: lex_shorter)

declare parse.simps [simp del]

text \<open>The value a stream starts with. What follows it is not looked at.\<close>

definition read_value :: "string \<Rightarrow> json option" where
  "read_value s = map_option fst (parse [] BeginValue s)"

text \<open>The whole of a text is one JSON value, as \<open>json.Valid\<close> and the parsers of other languages want it.\<close>

definition json_text :: "string \<Rightarrow> json option" where
  "json_text s =
     (case parse [] BeginValue s of
        None \<Rightarrow> None
      | Some (v, r) \<Rightarrow> if list_all isSpace r then Some v else None)"

lemma json_text_read: "json_text s = Some v \<Longrightarrow> read_value s = Some v"
  by (auto simp: json_text_def read_value_def split: option.splits if_splits)

section \<open>Values come back\<close>

text \<open>What is read back: strings with \<open>U+FFFD\<close> for bytes that are not UTF-8.\<close>

fun cleaned :: "json \<Rightarrow> json" where
  "cleaned (JStr s) = JStr (to_valid s)"
| "cleaned (JArr vs) = JArr (map cleaned vs)"
| "cleaned (JObj ms) = JObj (map (\<lambda>(k, v). (to_valid k, cleaned v)) ms)"
| "cleaned v = v"

definition is_number :: "string \<Rightarrow> bool" where
  "is_number s \<longleftrightarrow> lex_num s = Some (s, [])"

fun numbers_ok :: "json \<Rightarrow> bool" where
  "numbers_ok (JNum s) = is_number s"
| "numbers_ok (JArr vs) = list_all numbers_ok vs"
| "numbers_ok (JObj ms) = list_all (\<lambda>(k, v). numbers_ok v) ms"
| "numbers_ok v = True"

fun depth :: "json \<Rightarrow> nat" where
  "depth (JArr vs) = Suc (fold max (map depth vs) 0)"
| "depth (JObj ms) = Suc (fold max (map (\<lambda>(k, v). depth v) ms) 0)"
| "depth v = 0"

lemma fold_max_ge: "(a :: nat) \<le> fold max xs a"
proof (induction xs arbitrary: a)
  case (Cons x xs)
  have "a \<le> max x a" by simp
  also have "\<dots> \<le> fold max xs (max x a)" by (rule Cons)
  finally show ?case by simp
qed simp

lemma depth_le: "x \<in> set xs \<Longrightarrow> (x :: nat) \<le> fold max xs a"
  by (induction xs arbitrary: a) (auto intro: order_trans [OF max.cobounded1 fold_max_ge])

text \<open>A number ends where no byte of a number follows.\<close>

definition num_stop :: "string \<Rightarrow> bool" where
  "num_stop r = (case r of [] \<Rightarrow> True | c # _ \<Rightarrow> \<not> is_digit c \<and> c \<notin> {CHR ''.'', CHR ''e'', CHR ''E''})"

lemma digits_append:
  assumes "num_stop r"
  shows "takeWhile is_digit (s @ r) = takeWhile is_digit s" "dropWhile is_digit (s @ r) = dropWhile is_digit s @ r"
proof -
  have "takeWhile is_digit r = []" "dropWhile is_digit r = r"
    using assms by (auto simp: num_stop_def split: list.splits)
  then show "takeWhile is_digit (s @ r) = takeWhile is_digit s" "dropWhile is_digit (s @ r) = dropWhile is_digit s @ r"
    by (induction s) auto
qed

lemma num_int_append: "num_stop r \<Longrightarrow> num_int s = Some (u, t) \<Longrightarrow> num_int (s @ r) = Some (u, t @ r)"
  using digits_append [of r s] by (auto simp: num_int_def split: list.splits if_splits)

lemma num_digits_append: "num_stop r \<Longrightarrow> num_digits p s = Some (u, t) \<Longrightarrow> num_digits p (s @ r) = Some (u, t @ r)"
  by (auto simp: num_digits_def digits_append split: if_splits)

lemma num_frac_append: "num_stop r \<Longrightarrow> num_frac s = Some (u, t) \<Longrightarrow> num_frac (s @ r) = Some (u, t @ r)"
  by (auto simp: num_frac_def num_digits_append num_stop_def split: list.splits if_splits)

lemma num_exp_append:
  assumes "num_stop r" "num_exp s = Some (u, t)"
  shows "num_exp (s @ r) = Some (u, t @ r)"
proof (cases s)
  case Nil
  then show ?thesis using assms by (auto simp: num_exp_def num_stop_def split: list.splits)
next
  case (Cons c s')
  have "num_digits p (d # x @ r) = Some (u, t @ r)" if "num_digits p (d # x) = Some (u, t)" for p d x
    using num_digits_append [OF assms(1) that] by simp
  then show ?thesis
    using Cons assms by (auto simp: num_exp_def num_digits_append split: list.splits if_splits)
qed

lemma lex_num_append:
  assumes "num_stop r" "lex_num s = Some (u, t)"
  shows "lex_num (s @ r) = Some (u, t @ r)"
proof -
  define sg where "sg s = (case s of c # r \<Rightarrow> if c = CHR ''-'' then (''-'', r) else ([], s) | [] \<Rightarrow> ([], []))" for s
  have num: "lex_num s = (let (x, s0) = sg s in
      case num_int s0 of None \<Rightarrow> None | Some (a, s1) \<Rightarrow>
      case num_frac s1 of None \<Rightarrow> None | Some (b, s2) \<Rightarrow>
      case num_exp s2 of None \<Rightarrow> None | Some (c, s3) \<Rightarrow> Some (x @ a @ b @ c, s3))" for s
    by (simp add: lex_num_def sg_def)
  obtain x s0 where x: "sg s = (x, s0)" by (cases "sg s")
  obtain a s1 b s2 c where p: "num_int s0 = Some (a, s1)" "num_frac s1 = Some (b, s2)" "num_exp s2 = Some (c, t)"
      "u = x @ a @ b @ c"
    using assms(2) by (auto simp: num x split: option.splits)
  have "s \<noteq> []" using x p(1) by (auto simp: sg_def num_int_def)
  then have "sg (s @ r) = (x, s0 @ r)" using x by (cases s) (auto simp: sg_def split: if_splits)
  then show ?thesis
    using num_int_append [OF assms(1) p(1)] num_frac_append [OF assms(1) p(2)] num_exp_append [OF assms(1) p(3)] p(4)
    by (simp add: num)
qed

definition resume :: "scan \<Rightarrow> string \<Rightarrow> (json \<times> string) option" where
  "resume sc r =
     (case sc of Refused \<Rightarrow> None | Accepted v \<Rightarrow> Some (v, r) | Scanning st w \<Rightarrow> parse st w r)"

lemma parse_step: "next_tok s = Some (t, r) \<Longrightarrow> parse st w s = resume (scan_step w t st) r"
  by (simp add: parse.simps resume_def)

lemma resume_simps [simp]:
  "resume (Scanning st w) r = parse st w r"
  "resume (end_value v (InArr vs # st)) r = parse (InArr (vs @ [v]) # st) EndValue r"
  "resume (end_value v (InObj ms k # st)) r = parse (InObj (ms @ [(k, v)]) [] # st) EndValue r"
  by (simp_all add: resume_def end_value_def)

lemma lex_marks [simp]:
  "next_tok (CHR ''['' # r) = Some (LBrack, r)" "next_tok (CHR '']'' # r) = Some (RBrack, r)"
  "next_tok (CHR ''{'' # r) = Some (LBrace, r)" "next_tok (CHR ''}'' # r) = Some (RBrace, r)"
  "next_tok (CHR '','' # r) = Some (Comma, r)" "next_tok (CHR '':'' # r) = Some (Colon, r)"
  by (simp_all add: next_tok_def isSpace_def)

lemma lex_string [simp]: "next_tok (enc_str s @ r) = Some (Atom (JStr (to_valid s)), r)"
  using lex_enc_body [of s r] by (simp add: next_tok_def isSpace_def enc_str_def quote_def)

lemma lex_words [simp]:
  "next_tok (CHR ''n'' # CHR ''u'' # CHR ''l'' # CHR ''l'' # r) = Some (Atom JNull, r)"
  "next_tok (CHR ''t'' # CHR ''r'' # CHR ''u'' # CHR ''e'' # r) = Some (Atom (JBool True), r)"
  "next_tok (CHR ''f'' # CHR ''a'' # CHR ''l'' # CHR ''s'' # CHR ''e'' # r) = Some (Atom (JBool False), r)"
  by (simp_all add: next_tok_def isSpace_def keyword_def quote_def)

lemma lex_number:
  assumes "is_number s" "num_stop r"
  shows "next_tok (s @ r) = Some (Atom (JNum s), r)"
proof -
  obtain c t where s: "s = c # t" "c = CHR ''-'' \<or> is_digit c"
    using assms(1)
    by (cases s) (auto simp: is_number_def lex_num_def num_int_def is_digit_def split: if_splits option.splits prod.splits list.splits)
  have "c \<notin> {CHR ''{'', CHR ''}'', CHR ''['', CHR '']'', CHR '','', CHR '':'', quote, CHR ''t'', CHR ''f'', CHR ''n''}"
    "\<not> isSpace c"
    using s(2) by (auto simp: is_digit_def quote_def isSpace_def)
  moreover have "lex_num (c # t @ r) = Some (c # t, r)"
    using lex_num_append [OF assms(2), of s s "[]"] assms(1) s(1) by (simp add: is_number_def)
  ultimately show ?thesis by (simp add: next_tok_def s(1))
qed

lemma num_stop_marks [simp]:
  "num_stop (CHR '','' # r)" "num_stop (CHR '']'' # r)" "num_stop (CHR ''}'' # r)" "num_stop []"
  "num_stop (CHR 0x0A # r)"
  by (simp_all add: num_stop_def is_digit_def)

text \<open>What is known of a value before the arrays and objects around it are.\<close>

definition comes_back :: "json \<Rightarrow> bool" where
  "comes_back v \<longleftrightarrow> (\<forall>st r. depth v + length st \<le> maxNestingDepth \<longrightarrow> num_stop r \<longrightarrow>
     (\<forall>w \<in> {BeginValue, BeginValueOrEmpty}. parse st w (Marshal v @ r) = resume (end_value (cleaned v) st) r))"

lemma comes_backD:
  "comes_back v \<Longrightarrow> depth v + length st \<le> maxNestingDepth \<Longrightarrow> num_stop r \<Longrightarrow> w = BeginValue \<or> w = BeginValueOrEmpty \<Longrightarrow>
   parse st w (Marshal v @ r) = resume (end_value (cleaned v) st) r"
  by (auto simp: comes_back_def)

definition tail_text :: "string list \<Rightarrow> string" where
  "tail_text ss = concat (map (\<lambda>t. CHR '','' # t) ss)"

lemma tail_text_simps [simp]:
  "tail_text [] = []" "tail_text (s # ss) = CHR '','' # s @ tail_text ss"
  by (simp_all add: tail_text_def)

lemma num_stop_tail [simp]: "num_stop r \<Longrightarrow> num_stop (tail_text ss @ r)"
  by (cases ss) simp_all

lemma array_tail:
  assumes "list_all comes_back vs" "\<forall>v \<in> set vs. depth v + Suc (length st) \<le> maxNestingDepth"
  shows "parse (InArr us # st) EndValue (tail_text (map Marshal vs) @ CHR '']'' # r) =
    resume (end_value (JArr (us @ map cleaned vs)) st) r"
  using assms
proof (induction vs arbitrary: us)
  case Nil
  then show ?case by (simp add: parse_step close_frame_def)
next
  case (Cons v vs)
  have "parse (InArr us # st) BeginValue (Marshal v @ tail_text (map Marshal vs) @ CHR '']'' # r) =
      resume (end_value (cleaned v) (InArr us # st)) (tail_text (map Marshal vs) @ CHR '']'' # r)"
    using Cons.prems by (intro comes_backD) auto
  then show ?case using Cons by (simp add: parse_step)
qed

lemma object_tail:
  assumes "list_all (\<lambda>(k, v). comes_back v) ms" "\<forall>(k, v) \<in> set ms. depth v + Suc (length st) \<le> maxNestingDepth"
  shows "parse (InObj us [] # st) EndValue
      (tail_text (map (\<lambda>(k, v). enc_str k @ CHR '':'' # Marshal v) ms) @ CHR ''}'' # r) =
    resume (end_value (JObj (us @ map (\<lambda>(k, v). (to_valid k, cleaned v)) ms)) st) r"
  using assms
proof (induction ms arbitrary: us)
  case Nil
  then show ?case by (simp add: parse_step close_frame_def)
next
  case (Cons m ms)
  obtain k v where m: "m = (k, v)" by (cases m)
  let ?t = "tail_text (map (\<lambda>(k, v). enc_str k @ CHR '':'' # Marshal v) ms) @ CHR ''}'' # r"
  have "parse (InObj us (to_valid k) # st) BeginValue (Marshal v @ ?t) =
      resume (end_value (cleaned v) (InObj us (to_valid k) # st)) ?t"
    using Cons.prems m by (intro comes_backD) auto
  then show ?case using Cons m by (simp add: parse_step begin_string_def)
qed

lemma all_come_back: "numbers_ok v \<Longrightarrow> comes_back v"
proof (induction v rule: Marshal.induct)
  case (3 s)
  show ?case
    using lex_number [of s] 3 by (auto simp: comes_back_def parse_step begin_value_def)
next
  case (5 vs)
  have each: "list_all comes_back vs" using 5 by (auto simp: list_all_iff)
  have "parse st w (Marshal (JArr vs) @ r) = resume (end_value (cleaned (JArr vs)) st) r"
    if d: "depth (JArr vs) + length st \<le> maxNestingDepth" and w: "w = BeginValue \<or> w = BeginValueOrEmpty" for st r w
  proof -
    have le: "depth v + Suc (length st) \<le> maxNestingDepth" if "v \<in> set vs" for v
      using depth_le [of "depth v" "map depth vs" 0] that d by auto
    have "parse st w (Marshal (JArr vs) @ r) =
        parse (InArr [] # st) BeginValueOrEmpty (commas (map Marshal vs) @ CHR '']'' # r)"
      using w d by (auto simp: parse_step begin_value_def push_frame_def)
    also have "\<dots> = resume (end_value (JArr (map cleaned vs)) st) r"
    proof (cases vs)
      case Nil
      then show ?thesis by (simp add: commas_def parse_step close_frame_def)
    next
      case (Cons u us)
      have "parse (InArr [] # st) BeginValueOrEmpty (Marshal u @ tail_text (map Marshal us) @ CHR '']'' # r) =
          resume (end_value (cleaned u) (InArr [] # st)) (tail_text (map Marshal us) @ CHR '']'' # r)"
        using each le Cons by (intro comes_backD) auto
      then show ?thesis
        using array_tail [of us st "[cleaned u]" r] each le Cons by (simp add: commas_def tail_text_def)
    qed
    finally show ?thesis by simp
  qed
  then show ?case by (auto simp: comes_back_def)
next
  case (6 ms)
  have each: "list_all (\<lambda>(k, v). comes_back v) ms" using 6 by (fastforce simp: list_all_iff)
  have "parse st w (Marshal (JObj ms) @ r) = resume (end_value (cleaned (JObj ms)) st) r"
    if d: "depth (JObj ms) + length st \<le> maxNestingDepth" and w: "w = BeginValue \<or> w = BeginValueOrEmpty" for st r w
  proof -
    have le: "depth v + Suc (length st) \<le> maxNestingDepth" if "(k, v) \<in> set ms" for k v
      using depth_le [of "depth v" "map (\<lambda>(k, v). depth v) ms" 0] that d by force
    let ?m = "\<lambda>(k, v). enc_str k @ CHR '':'' # Marshal v"
    have "parse st w (Marshal (JObj ms) @ r) =
        parse (InObj [] [] # st) BeginStringOrEmpty (commas (map ?m ms) @ CHR ''}'' # r)"
      using w d by (auto simp: parse_step begin_value_def push_frame_def)
    also have "\<dots> = resume (end_value (JObj (map (\<lambda>(k, v). (to_valid k, cleaned v)) ms)) st) r"
    proof (cases ms)
      case Nil
      then show ?thesis by (simp add: commas_def parse_step close_frame_def)
    next
      case (Cons m us)
      obtain k u where m: "m = (k, u)" by (cases m)
      let ?t = "tail_text (map ?m us) @ CHR ''}'' # r"
      have "parse (InObj [] (to_valid k) # st) BeginValue (Marshal u @ ?t) =
          resume (end_value (cleaned u) (InObj [] (to_valid k) # st)) ?t"
        using each le Cons m by (intro comes_backD) auto
      then show ?thesis
        using object_tail [of us st "[(to_valid k, cleaned u)]" r] each le Cons m
        by (auto simp: commas_def tail_text_def parse_step begin_string_def)
    qed
    finally show ?thesis by simp
  qed
  then show ?case by (auto simp: comes_back_def)
qed (auto simp: comes_back_def parse_step begin_value_def)

text \<open>An encoded value is read back, whatever follows it.\<close>

lemma parse_Marshal:
  assumes "numbers_ok v" "depth v \<le> maxNestingDepth" "num_stop r"
  shows "parse [] BeginValue (Marshal v @ r) = Some (cleaned v, r)"
  using comes_backD [OF all_come_back [OF assms(1)], of "[]" r BeginValue] assms(2,3)
  by (simp add: resume_def end_value_def)

lemma read_Marshal: "numbers_ok v \<Longrightarrow> depth v \<le> maxNestingDepth \<Longrightarrow> read_value (Marshal v) = Some (cleaned v)"
  using parse_Marshal [of v "[]"] by (simp add: read_value_def)

lemma json_text_Encode: "numbers_ok v \<Longrightarrow> depth v \<le> maxNestingDepth \<Longrightarrow> json_text (Encode v) = Some (cleaned v)"
  using parse_Marshal [of v "[CHR 0x0A]"] by (simp add: json_text_def Encode_def isSpace_def)

lemma json_text_Marshal: "numbers_ok v \<Longrightarrow> depth v \<le> maxNestingDepth \<Longrightarrow> json_text (Marshal v) = Some (cleaned v)"
  using parse_Marshal [of v "[]"] by (simp add: json_text_def)

section \<open>Integers\<close>

lemma dec_zero: "0 \<le> i \<Longrightarrow> dec i = CHR ''0'' # r \<Longrightarrow> r = []"
proof (induction i arbitrary: r rule: dec.induct)
  case (1 i)
  show ?case
  proof (cases "i < 10")
    case True
    with 1 show ?thesis by (simp add: dec.simps [of i])
  next
    case False
    then have ge: "1 \<le> i div 10" by simp
    then obtain c t where d: "dec (i div 10) = c # t" using dec_digits [of "i div 10"] by (cases "dec (i div 10)") auto
    then have "dec (i div 10) = CHR ''0'' # t" using 1(3) False by (simp add: dec.simps [of i])
    then have "dec (i div 10) = ''0''" using 1(1) [OF False] ge by simp
    then have "digits_val (dec (i div 10)) = 0" by (simp add: digits_val_def)
    then show ?thesis using ge by simp
  qed
qed

lemma num_int_dec: "0 \<le> i \<Longrightarrow> num_int (dec i) = Some (dec i, [])"
  using dec_digits [of i] dec_zero [of i]
  by (cases "dec i") (auto simp: num_int_def list_all_iff takeWhile_eq_all_conv dropWhile_eq_Nil_conv)

lemma is_number_fmt_int [simp]: "is_number (fmt_int i)"
proof -
  have "lex_num (dec j) = Some (dec j, [])" "lex_num (CHR ''-'' # dec j) = Some (CHR ''-'' # dec j, [])" if "0 \<le> j" for j
    using num_int_dec [OF that] dec_digits [OF that]
    by (cases "dec j"; auto simp: lex_num_def num_frac_def num_exp_def dest: digit_not_sign)+
  then show ?thesis by (simp add: is_number_def fmt_int_def)
qed

section \<open>Into a struct\<close>

text \<open>
  The fields of a struct: the name in its \<open>json\<close> tag and how a value is stored. A key names the field with
  exactly its name, or else the first one that agrees with it up to case, in the sense of \<open>foldName\<close>: ASCII
  letters, and the two letters outside ASCII that fold to one, the long s and the Kelvin sign. Runes that
  fold to none are copied; they equal no name.
\<close>

type_synonym 'r fields = "(string \<times> (json \<Rightarrow> 'r \<Rightarrow> 'r option)) list"

definition upper :: "char \<Rightarrow> char" where
  "upper c = (if within 97 122 c then char_of (of_char c - 32 :: nat) else c)"

function foldName :: "string \<Rightarrow> string" where
  "foldName [] = []"
| "foldName (c # s) =
     (if take 2 (c # s) = [CHR 0xC5, CHR 0xBF] then CHR ''S'' # foldName (drop 1 s)
      else if take 3 (c # s) = [CHR 0xE2, CHR 0x84, CHR 0xAA] then CHR ''K'' # foldName (drop 2 s)
      else upper c # foldName s)"
  by pat_completeness auto
termination
  by (relation "measure length") auto

definition find_field :: "'r fields \<Rightarrow> string \<Rightarrow> (json \<Rightarrow> 'r \<Rightarrow> 'r option) option" where
  "find_field fs k =
     (case map_of fs k of
        Some f \<Rightarrow> Some f
      | None \<Rightarrow> map_option snd (List.find (\<lambda>(name, f). foldName name = foldName k) fs))"

text \<open>A value of the wrong type is skipped and makes the call fail at the end; \<open>null\<close> leaves the field alone.\<close>

definition set_string :: "(string \<Rightarrow> 'r \<Rightarrow> 'r) \<Rightarrow> json \<Rightarrow> 'r \<Rightarrow> 'r option" where
  "set_string upd v r = (case v of JStr s \<Rightarrow> Some (upd s r) | JNull \<Rightarrow> Some r | _ \<Rightarrow> None)"

definition set_int :: "(int64 \<Rightarrow> 'r \<Rightarrow> 'r) \<Rightarrow> json \<Rightarrow> 'r \<Rightarrow> 'r option" where
  "set_int upd v r =
     (case v of JNum s \<Rightarrow> map_option (\<lambda>i. upd i r) (Atoi s) | JNull \<Rightarrow> Some r | _ \<Rightarrow> None)"

definition store_member :: "'r fields \<Rightarrow> string \<times> json \<Rightarrow> bool \<times> 'r \<Rightarrow> bool \<times> 'r" where
  "store_member fs m st =
     (case find_field fs (fst m) of
        None \<Rightarrow> st
      | Some f \<Rightarrow> (case f (snd m) (snd st) of None \<Rightarrow> (False, snd st) | Some r \<Rightarrow> (fst st, r)))"

definition Unmarshal :: "'r fields \<Rightarrow> json \<Rightarrow> 'r \<Rightarrow> 'r option" where
  "Unmarshal fs v r =
     (case v of
        JObj ms \<Rightarrow> (case fold (store_member fs) ms (True, r) of (ok, r') \<Rightarrow> if ok then Some r' else None)
      | JNull \<Rightarrow> Some r
      | _ \<Rightarrow> None)"

text \<open>\<open>NewDecoder(body).Decode(&r)\<close>; \<open>why\<close> is the text of the error the library has for the body.\<close>

definition Decode :: "(string \<Rightarrow> string) \<Rightarrow> 'r fields \<Rightarrow> 'r \<Rightarrow> string \<Rightarrow> string + 'r" where
  "Decode why fs r body =
     (case read_value body of
        None \<Rightarrow> Inl (why body)
      | Some v \<Rightarrow> (case Unmarshal fs v r of None \<Rightarrow> Inl (why body) | Some r' \<Rightarrow> Inr r'))"

lemma find_field_here [simp]: "find_field ((k, f) # fs) k = Some f"
  by (simp add: find_field_def)

lemma find_field_exact: "map_of fs k = Some f \<Longrightarrow> find_field fs k = Some f"
  by (simp add: find_field_def)

lemma Decode_Marshal:
  "numbers_ok v \<Longrightarrow> depth v \<le> maxNestingDepth \<Longrightarrow>
   Decode why fs r (Marshal v) = (case Unmarshal fs (cleaned v) r of None \<Rightarrow> Inl (why (Marshal v)) | Some r' \<Rightarrow> Inr r')"
  by (simp add: Decode_def read_Marshal)

end
