(* ===== verification/JsonApi.thy ===== *)
theory JsonApi
  imports GoJson Router "HOL-Library.List_Lexorder" "HOL-Library.Char_ord"
begin

text \<open>
  The bytes of the JSON interface: the struct tags of \<open>src/internal/master/master.go\<close>,
  \<open>src/internal/circuitbreaker/circuit_breaker.go\<close> and \<open>src/internal/events/event_bus.go\<close> as encoders and
  decoders, and the endpoints with these in front of and behind them.
\<close>

section \<open>Requests\<close>

definition submit_fields :: "submitRequest fields" where
  "submit_fields =
     [(''language'', set_string (\<lambda>s. srLanguage_update (\<lambda>_. s))),
      (''script'', set_string (\<lambda>s. srScript_update (\<lambda>_. s)))]"

definition fail_fields :: "failRequest fields" where
  "fail_fields =
     [(''count'', set_int (\<lambda>i. frCount_update (\<lambda>_. i))),
      (''language'', set_string (\<lambda>s. frLanguage_update (\<lambda>_. s)))]"

definition batch_fields :: "batchRequest fields" where
  "batch_fields =
     [(''count'', set_int (\<lambda>i. brCount_update (\<lambda>_. i))),
      (''language'', set_string (\<lambda>s. brLanguage_update (\<lambda>_. s))),
      (''script'', set_string (\<lambda>s. brScript_update (\<lambda>_. s))),
      (''sleep_ms'', set_int (\<lambda>i. brSleepMs_update (\<lambda>_. i))),
      (''priority'', set_int (\<lambda>i. brPriority_update (\<lambda>_. i)))]"

text \<open>
  The body of a request as its bytes: each handler decodes it into its own struct, which starts with zero
  values. \<open>why\<close> gives the library's error text for the struct and the body.
\<close>

definition decode_submit :: "(string \<Rightarrow> string \<Rightarrow> string) \<Rightarrow> string \<Rightarrow> string + submitRequest" where
  "decode_submit why = Decode (why ''submitRequest'') submit_fields \<lparr>srLanguage = [], srScript = []\<rparr>"

definition decode_fail :: "(string \<Rightarrow> string \<Rightarrow> string) \<Rightarrow> string \<Rightarrow> string + failRequest" where
  "decode_fail why = Decode (why []) fail_fields \<lparr>frCount = 0, frLanguage = []\<rparr>"

definition decode_batch :: "(string \<Rightarrow> string \<Rightarrow> string) \<Rightarrow> string \<Rightarrow> string + batchRequest" where
  "decode_batch why = Decode (why ''batchRequest'') batch_fields
     \<lparr>brCount = 0, brLanguage = [], brScript = [], brSleepMs = 0, brPriority = 0\<rparr>"

definition with_body :: "(string \<Rightarrow> string \<Rightarrow> string) \<Rightarrow> string \<Rightarrow> http_in \<Rightarrow> http_in" where
  "with_body why body r =
     r\<lparr>inSubmit := decode_submit why body, inFail := decode_fail why body, inBatch := decode_batch why body\<rparr>"

section \<open>Responses\<close>

definition num64 :: "int64 \<Rightarrow> json" where "num64 i = JNum (fmt_int (sint i))"
definition num32 :: "int32 \<Rightarrow> json" where "num32 i = JNum (fmt_int (sint i))"
definition num_len :: "nat \<Rightarrow> json" where "num_len k = JNum (fmt_int (int k))"

text \<open>\<open>omitempty\<close> leaves a member out when its string is empty.\<close>

definition omitempty :: "string \<Rightarrow> string \<Rightarrow> (string \<times> json) list" where
  "omitempty k s = (if s = [] then [] else [(k, JStr s)])"

definition info_value :: "cb_info \<Rightarrow> json" where
  "info_value i =
     JObj ([(''state'', JStr (infoState i)), (''failure_count'', num64 (infoFailureCount i)),
            (''failure_threshold'', num64 (infoFailureThreshold i)), (''success_count'', num64 (infoSuccessCount i)),
            (''success_threshold'', num64 (infoSuccessThreshold i))] @ omitempty ''last_failure'' (infoLastFailure i))"

definition worker_value :: "workerJSON \<Rightarrow> json" where
  "worker_value w =
     JObj ([(''id'', JStr (wjID w)), (''hostname'', JStr (wjHostname w)), (''state'', JStr (wjState w)),
            (''active_tasks'', num32 (wjActiveTasks w)), (''last_heartbeat'', JStr (wjLastHeartbeat w)),
            (''uptime_seconds'', num64 (wjUptimeSeconds w))] @
           (case wjCircuitBreaker w of None \<Rightarrow> [] | Some i \<Rightarrow> [(''circuit_breaker'', info_value i)]))"

definition task_value :: "taskJSON \<Rightarrow> json" where
  "task_value t =
     JObj ([(''id'', JStr (tjID t)), (''script'', JStr (tjScript t)), (''state'', JStr (tjState t)),
            (''worker_id'', JStr (tjWorkerID t)), (''attempt'', num32 (tjAttempt t)),
            (''priority'', num64 (tjPriority t)), (''type'', JStr (tjType t)), (''language'', JStr (tjLanguage t))] @
           omitempty ''output'' (tjOutput t) @ omitempty ''error'' (tjError t) @
           [(''exit_code'', num32 (tjExitCode t))] @ omitempty ''created_at'' (tjCreatedAt t) @
           omitempty ''assigned_at'' (tjAssignedAt t) @ omitempty ''started_at'' (tjStartedAt t) @
           omitempty ''completed_at'' (tjCompletedAt t) @ [(''duration_ms'', num64 (tjDurationMs t))])"

definition dlq_value :: "dlqJSON \<Rightarrow> json" where
  "dlq_value d =
     JObj ([(''id'', JStr (djID d)), (''script'', JStr (djScript d)), (''error'', JStr (djError d)),
            (''attempts'', num32 (djAttempts d)), (''language'', JStr (djLanguage d)), (''type'', JStr (djType d))] @
           omitempty ''output'' (djOutput d) @ [(''exit_code'', num32 (djExitCode d))] @
           omitempty ''created_at'' (djCreatedAt d))"

text \<open>A map is encoded in the order of its keys. \<open>num\<close> prints the success rate, a float.\<close>

definition stats_value :: "('f \<Rightarrow> string) \<Rightarrow> 'f statsJSON \<Rightarrow> json" where
  "stats_value num s =
     JObj [(''completed'', num64 (sjCompleted s)), (''dead_lettered'', num_len (sjDeadLettered s)),
           (''failed'', num64 (sjFailed s)), (''in_flight'', num_len (sjInFlight s)),
           (''queue_depth'', num_len (sjQueueDepth s)), (''retry_pending'', num_len (sjRetryPending s)),
           (''success_rate'', JNum (num (sjSuccessRate s))), (''workers'', num_len (sjWorkers s))]"

definition docs_value :: json where
  "docs_value =
     JObj [(''docs'', JArr
       [JObj [(''description'', JStr ''System diagrams, communication patterns, and package dependencies''),
              (''name'', JStr ''ARCHITECTURE''), (''title'', JStr ''Architecture'')],
        JObj [(''description'', JStr ''Every feature mapped to distributed systems theory and real-world systems''),
              (''name'', JStr ''DISTRIBUTED_SYSTEMS_CONCEPTS''), (''title'', JStr ''Distributed Systems Concepts'')],
        JObj [(''description'', JStr ''Setup for local, Docker Compose, and Kubernetes deployment''),
              (''name'', JStr ''INSTALLATION''), (''title'', JStr ''Installation Guide'')]])]"

definition json_views :: "('f \<Rightarrow> string) \<Rightarrow> 'f views \<Rightarrow> 'f views" where
  "json_views num vw =
     vw\<lparr>vwStats := \<lambda>s. Encode (stats_value num s),
        vwWorkers := \<lambda>ws. Encode (JObj [(''workers'', JArr (map worker_value ws))]),
        vwTasks := \<lambda>ts. Encode (JObj [(''tasks'', JArr (map task_value ts))]),
        vwDead := \<lambda>ds. Encode (JObj [(''dead_letter'', JArr (map dlq_value ds))])\<rparr>"

section \<open>Events\<close>

fun event_type_String :: "event_type \<Rightarrow> string" where
  "event_type_String EventTaskQueued = ''task_queued''"
| "event_type_String EventTaskAssigned = ''task_assigned''"
| "event_type_String EventTaskCompleted = ''task_completed''"
| "event_type_String EventTaskFailed = ''task_failed''"
| "event_type_String EventTaskRetrying = ''task_retrying''"
| "event_type_String EventTaskDead = ''task_dead''"
| "event_type_String EventWorkerConnected = ''worker_connected''"
| "event_type_String EventWorkerDisconnected = ''worker_disconnected''"
| "event_type_String EventWorkerSuspect = ''worker_suspect''"
| "event_type_String EventWorkerDead = ''worker_dead''"
| "event_type_String EventChaosWorkerKilled = ''chaos_worker_killed''"
| "event_type_String EventChaosCBTripped = ''chaos_cb_tripped''"
| "event_type_String EventChaosCBReset = ''chaos_cb_reset''"
| "event_type_String EventBatchSubmitted = ''batch_submitted''"

fun event_val_value :: "event_val \<Rightarrow> json" where
  "event_val_value (EvStr s) = JStr s"
| "event_val_value (EvInt i) = JNum (fmt_int i)"

definition event_value :: "(time \<Rightarrow> string) \<Rightarrow> event \<Rightarrow> json" where
  "event_value nano e =
     JObj [(''type'', JStr (event_type_String (evType e))), (''timestamp'', JStr (nano (evTimestamp e))),
           (''data'', JObj (map (\<lambda>(k, v). (k, event_val_value v)) (sort_key fst (evData e))))]"

text \<open>\<open>nano\<close> is the RFC 3339 text of a time with nanoseconds, which \<open>time.Time\<close> marshals itself to.\<close>

definition Event_JSON :: "(time \<Rightarrow> string) \<Rightarrow> event \<Rightarrow> string" where
  "Event_JSON nano e = Marshal (event_value nano e)"

section \<open>The load tester's request\<close>

definition load_body :: "int \<Rightarrow> string" where
  "load_body n =
     Marshal (JObj [(''language'', JStr ''bash''),
                    (''script'', JStr (''echo 'load test task '' @ fmt_int n @ CHR 0x27 # ''; sleep 1''))])"

section \<open>The encoders write JSON\<close>

lemma numbers_ok_parts [simp]:
  "numbers_ok (num64 i)" "numbers_ok (num32 j)" "numbers_ok (num_len k)"
  "list_all (\<lambda>(k, v). numbers_ok v) (omitempty x s)"
  by (simp_all add: num64_def num32_def num_len_def omitempty_def)

lemma flat_parts [simp]:
  "depth (num64 i) = 0" "depth (num32 j) = 0" "depth (num_len k) = 0"
  by (simp_all add: num64_def num32_def num_len_def)

lemma flat_omitempty [simp]: "fold max (map (\<lambda>(k, v). depth v) (omitempty x s)) a = a"
  by (simp add: omitempty_def)

lemma values_ok [simp]:
  "numbers_ok (info_value i)" "numbers_ok (worker_value w)" "numbers_ok (task_value t)" "numbers_ok (dlq_value d)"
  "numbers_ok docs_value"
  by (simp_all add: info_value_def worker_value_def task_value_def dlq_value_def docs_value_def split: option.split)

lemma depth_info [simp]: "depth (info_value i) = 1"
  by (simp add: info_value_def)

lemma depths [simp]:
  "depth (worker_value w) \<le> 2" "depth (task_value t) = 1" "depth (dlq_value d) = 1" "depth docs_value = 3"
  by (simp_all add: worker_value_def task_value_def dlq_value_def docs_value_def split: option.split)

text \<open>A list of flat values under one key.\<close>

lemma depth_listing:
  assumes "\<And>v. v \<in> set vs \<Longrightarrow> depth v \<le> k"
  shows "depth (JObj [(key, JArr vs)]) \<le> k + 2"
proof -
  have "fold max (map depth vs) a \<le> k" if "a \<le> k" for a
    using assms that by (induction vs arbitrary: a) auto
  then show ?thesis by simp
qed

lemma listing_text:
  assumes "list_all numbers_ok vs" "\<And>v. v \<in> set vs \<Longrightarrow> depth v \<le> 2"
  shows "json_text (Encode (JObj [(key, JArr vs)])) = Some (cleaned (JObj [(key, JArr vs)]))"
  using depth_listing [of vs 2 key] assms by (intro json_text_Encode) (auto simp: maxNestingDepth_def)

lemma stats_text:
  "is_number (num (sjSuccessRate st)) \<Longrightarrow>
   json_text (Encode (stats_value num st)) = Some (cleaned (stats_value num st))"
  by (intro json_text_Encode) (simp_all add: stats_value_def num64_def num_len_def maxNestingDepth_def)

text \<open>The documents listed are the ones the encoder writes.\<close>

lemma docs_list: "handleDocsList = json_ok (Encode docs_value)"
proof -
  have "respBody handleDocsList = Encode docs_value" by code_simp
  moreover have "handleDocsList = json_ok (respBody handleDocsList)" by (simp add: handleDocsList_def json_ok_def)
  ultimately show ?thesis by simp
qed

section \<open>What clients read\<close>

definition answers_json ::
    "('f :: zero) views \<Rightarrow> checker \<Rightarrow> http_in \<Rightarrow> node \<Rightarrow> endpoint \<Rightarrow> json \<Rightarrow> bool" where
  "answers_json vw chk r n ep v \<longleftrightarrow>
     (\<exists>resp. serve_endpoint vw chk r ep [] n = Some (resp, n) \<and> respCode resp = 200 \<and>
        respType resp = ''application/json'' \<and> json_text (respBody resp) = Some v)"

lemma answers_jsonI:
  "serve_endpoint vw chk r ep [] n = Some (json_ok body, n) \<Longrightarrow> json_text body = Some v \<Longrightarrow>
   answers_json vw chk r n ep v"
  by (simp add: answers_json_def json_ok_def)



section \<open>Submissions over the wire\<close>

lemma post_submit:
  "serve_mux vw chk r n = handleSubmit (inNow r) (inCreated r) (inPub r) (inSubmit r) n"
  if "inMethod r = ''POST''" "inPath r = ''/api/v1/submit''"
proof -
  have "findHandler routes ''POST'' ''/api/v1/submit'' = Found EpSubmit []" by code_simp
  then show ?thesis by (simp add: serve_mux_def that serve_endpoint_def)
qed

lemma post_body:
  assumes "inMethod r = ''POST''" "inPath r = ''/api/v1/submit''"
  shows "serve_mux vw chk (with_body why body r) n =
    handleSubmit (inNow r) (inCreated r) (inPub r) (decode_submit why body) n"
  using post_submit [of "with_body why body r" vw chk n] assms by (simp add: with_body_def)

text \<open>C28: Whatever bytes a client posts to the submission endpoint, the service answers and goes on: 400 and no
  change when they do not start with a JSON value, when that is neither an object nor null, when a member
  has the wrong type or when no script is given; otherwise 200 and one new task with exactly the script and
  the language decoded.\<close>

theorem submit_any_bytes:
  assumes "evbus n = Some b" and "bus_ok b" and "inMethod r = ''POST''" and "inPath r = ''/api/v1/submit''"
  shows "\<exists>resp n'. serve_mux vw chk (with_body why body r) n = Some (resp, n') \<and>
    (case read_value body of
       None \<Rightarrow> respCode resp = 400 \<and> n' = n
     | Some v \<Rightarrow>
         (case Unmarshal submit_fields v \<lparr>srLanguage = [], srScript = []\<rparr> of
            None \<Rightarrow> respCode resp = 400 \<and> n' = n
          | Some req \<Rightarrow>
              if srScript req = [] then respCode resp = 400 \<and> n' = n
              else respCode resp = 200 \<and>
                queued_new (\<lambda>_. NewInline (inCreated r) (''inline-'' @ fmt_d (UnixNano (inNow r))) (srScript req)
                  (if srLanguage req = [] then ''bash'' else srLanguage req)) 1 n n'))"
  using submit_checks_then_queues [OF assms(1,2), of "inNow r" "inCreated r" "inPub r" "decode_submit why body"]
  by (auto simp: post_body [OF assms(3,4)] decode_submit_def Decode_def split: option.splits)

theorem submit_any_bytes_witness:
  \<open>\<exists>resp. serve_mux sample_views NewChecker
      (with_body (\<lambda>_ _. ''unexpected EOF'') ''{"script":'' (sample_in ''POST'' ''/api/v1/submit'')) sample_master =
      Some (resp, sample_master) \<and> respCode resp = 400\<close>
proof -
  have \<open>read_value ''{"script":'' = None\<close> by code_simp
  then show ?thesis
    using submit_any_bytes [OF sample_master_bus, of \<open>sample_in ''POST'' ''/api/v1/submit''\<close> sample_views NewChecker
        \<open>\<lambda>_ _. ''unexpected EOF''\<close> \<open>''{"script":''\<close>]
    by (auto simp: sample_in_def)
qed

definition client_body :: "string \<Rightarrow> string \<Rightarrow> string" where
  "client_body l s = Marshal (JObj [(''language'', JStr l), (''script'', JStr s)])"

lemma ascii_keys [simp]:
  "to_valid ''language'' = ''language''" "to_valid ''script'' = ''script''" "to_valid ''task_id'' = ''task_id''"
  "to_valid ''type'' = ''type''" "to_valid ''inline'' = ''inline''" "to_valid ''timestamp'' = ''timestamp''"
  "to_valid ''data'' = ''data''"
  by (simp_all add: to_valid_id ascii_valid within_def)

lemma client_body_value:
  "read_value (client_body l s) = Some (JObj [(''language'', JStr (to_valid l)), (''script'', JStr (to_valid s))])"
  unfolding client_body_def by (subst read_Marshal) (simp_all add: maxNestingDepth_def)

lemma client_body_decoded:
  "decode_submit why (client_body l s) = Inr \<lparr>srLanguage = to_valid l, srScript = to_valid s\<rparr>"
  by (simp add: decode_submit_def Decode_def client_body_value Unmarshal_def submit_fields_def store_member_def
      find_field_def set_string_def)

text \<open>The load tester is such a client.\<close>

lemma load_body_client:
  "load_body i = client_body ''bash'' (''echo 'load test task '' @ fmt_int i @ CHR 0x27 # ''; sleep 1'')"
  by (simp add: load_body_def client_body_def)

text \<open>C27: A client that encodes a language and a script with \<open>json.Marshal\<close> and posts them gets exactly this
  script executed in exactly this language: every UTF-8 text, with quotes, control characters or markup in
  it, survives the encoder, the decoder and the handler.\<close>

theorem submission_roundtrip:
  assumes "evbus n = Some b" and "bus_ok b" and "inMethod r = ''POST''" and "inPath r = ''/api/v1/submit''"
    and "ValidString l" and "ValidString s" and "s \<noteq> []"
  shows "\<exists>resp n'. serve_mux vw chk (with_body why (client_body l s) r) n = Some (resp, n') \<and> respCode resp = 200 \<and>
    queued_new (\<lambda>_. NewInline (inCreated r) (''inline-'' @ fmt_d (UnixNano (inNow r))) s
      (if l = [] then ''bash'' else l)) 1 n n'"
  using submit_checks_then_queues [OF assms(1,2), of "inNow r" "inCreated r" "inPub r" "decode_submit why (client_body l s)"]
  by (cases "l = []") (simp_all add: post_body [OF assms(3,4)] client_body_decoded to_valid_id assms)

theorem submission_roundtrip_witness:
  "\<exists>resp n'. serve_mux sample_views NewChecker (with_body (\<lambda>_ _. []) (load_body 7) (sample_in ''POST'' ''/api/v1/submit''))
      sample_master = Some (resp, n') \<and> respCode resp = 200 \<and> queue (sched n') = [0] \<and>
      tContent (heap n' 0) = ''echo 'load test task 7'; sleep 1''"
proof -
  have v: "ValidString ''bash''" "ValidString ''echo 'load test task 7'; sleep 1''"
    by (simp_all add: ascii_valid within_def)
  have "fmt_int 7 = ''7''" by code_simp
  then have "load_body 7 = client_body ''bash'' ''echo 'load test task 7'; sleep 1''" by (simp add: load_body_client)
  then show ?thesis
    using submission_roundtrip [OF sample_master_bus _ _ v, of "sample_in ''POST'' ''/api/v1/submit''" sample_views NewChecker "\<lambda>_ _. []"]
    by (auto simp: sample_in_def queued_new_def sample_master_queue NewInline_def)
qed

section \<open>The answer to a submission\<close>

text \<open>The handlers print identifiers and names between quotes with \<open>%s\<close>. These characters survive that.\<close>

definition verbatim :: "string \<Rightarrow> bool" where
  "verbatim s \<longleftrightarrow> list_all (\<lambda>c. within 0 0x7F c \<and> enc_ascii c = [c]) s"

lemma verbatim_enc: "verbatim s \<Longrightarrow> enc_body s = s"
  by (induction s) (simp_all add: verbatim_def enc_body.simps)

lemma verbatim_clean: "verbatim s \<Longrightarrow> to_valid s = s"
  by (rule to_valid_id [OF ascii_valid]) (simp add: verbatim_def list_all_iff)

lemma verbatim_append: "verbatim (s @ t) \<longleftrightarrow> verbatim s \<and> verbatim t"
  by (simp add: verbatim_def)

lemma verbatim_fmt_int: "verbatim (fmt_int i)"
proof -
  have "within 0 0x7F c \<and> enc_ascii c = [c]" if "is_digit c" for c
  proof -
    have "c \<notin> {quote, bslash, CHR 0x08, CHR 0x0C, CHR 0x0A, CHR 0x0D, CHR 0x09, CHR ''<'', CHR ''>'', CHR ''&''}"
      using that by (auto simp: is_digit_def quote_def bslash_def)
    moreover have "\<not> within 0 0x1F c" "within 0 0x7F c" using that by (auto simp: is_digit_def within_def)
    ultimately show ?thesis by (simp add: enc_ascii_def)
  qed
  then have "verbatim s" if "list_all is_digit s" for s
    using that by (simp add: verbatim_def list_all_iff)
  moreover have "verbatim ''-''" by code_simp
  ultimately show ?thesis
    using dec_digits [of i] dec_digits [of "- i"] verbatim_append [of "''-''" "dec (- i)"] by (auto simp: fmt_int_def)
qed

definition submit_answer :: "string \<Rightarrow> string \<Rightarrow> string" where
  \<open>submit_answer taskID l = ''{"task_id":"'' @ taskID @ ''","type":"inline","language":"'' @ l @ ''"}''\<close>

lemma verbatim_keys [simp]: "verbatim ''task_id''" "verbatim ''type''" "verbatim ''inline''" "verbatim ''language''"
  by code_simp+

lemma submit_answer_enc:
  "verbatim taskID \<Longrightarrow> submit_answer taskID l =
     CHR ''{'' # enc_str ''task_id'' @ CHR '':'' # enc_str taskID @ CHR '','' #
     enc_str ''type'' @ CHR '':'' # enc_str ''inline'' @ CHR '','' # enc_str ''language'' @ CHR '':'' # quote # l @ [quote, CHR ''}'']"
  by (simp add: submit_answer_def enc_str_def verbatim_enc quote_def)

lemma submit_answer_reads:
  assumes "verbatim taskID" "verbatim l"
  shows "json_text (submit_answer taskID l) =
    Some (JObj [(''task_id'', JStr taskID), (''type'', JStr ''inline''), (''language'', JStr l)])"
proof -
  let ?v = "JObj [(''task_id'', JStr taskID), (''type'', JStr ''inline''), (''language'', JStr l)]"
  have "submit_answer taskID l = Marshal ?v"
    using assms by (simp add: submit_answer_enc commas_def) (simp add: enc_str_def verbatim_enc)
  then show ?thesis
    using json_text_Marshal [of ?v] assms by (simp add: maxNestingDepth_def verbatim_clean)
qed

text \<open>A quotation mark in the language ends the string too early.\<close>

lemma submit_answer_breaks:
  assumes "verbatim taskID"
  shows "json_text (submit_answer taskID [quote]) = None"
proof -
  have "next_tok [quote, quote, quote, CHR ''}''] = Some (Atom (JStr []), [quote, CHR ''}''])"
    using lex_string [of "[]" "[quote, CHR ''}'']"] by (simp add: enc_str_def)
  moreover have "next_tok [quote, CHR ''}''] = None" by code_simp
  ultimately show ?thesis
    unfolding json_text_def submit_answer_enc [OF assms]
    by (simp add: parse_step begin_value_def push_frame_def maxNestingDepth_def begin_string_def parse.simps [of _ EndValue])
qed

lemma accepted_answer:
  "handleSubmit now created pub (Inr req) n = Some (resp, n') \<Longrightarrow> srScript req \<noteq> [] \<Longrightarrow>
   respBody resp = submit_answer (''inline-'' @ fmt_d (UnixNano now)) (if srLanguage req = [] then ''bash'' else srLanguage req)"
  by (auto simp: handleSubmit_def Let_def json_ok_def submit_answer_def)

lemma verbatim_id: "verbatim (''inline-'' @ fmt_d now)"
proof -
  have "verbatim ''inline-''" by code_simp
  then show ?thesis by (simp add: verbatim_append fmt_d_def verbatim_fmt_int del: append_Cons append_Nil)
qed

text \<open>The answer to a submission is JSON with the identifier and the language when the language holds no
  character that JSON escapes, but the language is not escaped: the language that is one quotation mark is
  accepted and its task queued, and the answer, declared as JSON, is none.\<close>

theorem submit_answer_unescaped:
  assumes "evbus n = Some b" and "bus_ok b" and "inMethod r = ''POST''" and "inPath r = ''/api/v1/submit''"
    and "ValidString s" and "s \<noteq> []" and "verbatim l" and "l \<noteq> []"
  shows "(\<exists>resp n'. serve_mux vw chk (with_body why (client_body l s) r) n = Some (resp, n') \<and> respCode resp = 200 \<and>
      json_text (respBody resp) = Some (JObj
        [(''task_id'', JStr (''inline-'' @ fmt_d (UnixNano (inNow r)))), (''type'', JStr ''inline''), (''language'', JStr l)])) \<and>
    (\<exists>resp n'. serve_mux vw chk (with_body why (client_body [quote] s) r) n = Some (resp, n') \<and> respCode resp = 200 \<and>
      next_task n' = next_task n + 1 \<and> respType resp = ''application/json'' \<and> json_text (respBody resp) = None)"
proof
  let ?id = "''inline-'' @ fmt_d (UnixNano (inNow r))"
  have go: "\<exists>resp n'. serve_mux vw chk (with_body why (client_body k s) r) n = Some (resp, n') \<and> respCode resp = 200 \<and>
      next_task n' = next_task n + 1 \<and> respType resp = ''application/json'' \<and> respBody resp = submit_answer ?id k"
    if k: "to_valid k = k" "k \<noteq> []" for k
  proof -
    let ?req = "\<lparr>srLanguage = k, srScript = s\<rparr>"
    have s: "to_valid s = s" by (rule to_valid_id [OF assms(5)])
    obtain resp n' where h: "handleSubmit (inNow r) (inCreated r) (inPub r) (Inr ?req) n = Some (resp, n')"
      "respCode resp = 200" "queued_new (\<lambda>_. NewInline (inCreated r) ?id s k) 1 n n'"
      using submit_checks_then_queues [OF assms(1,2), of "inNow r" "inCreated r" "inPub r" "Inr ?req"] assms(6) k(2) by auto
    have "respBody resp = submit_answer ?id k" using accepted_answer [OF h(1)] assms(6) k(2) by simp
    moreover have "respType resp = ''application/json''"
      using h(1) assms(6) by (auto simp: handleSubmit_def Let_def json_ok_def)
    moreover have "next_task n' = next_task n + 1" using h(3) by (simp add: queued_new_def)
    ultimately show ?thesis using h(1,2) by (simp add: post_body [OF assms(3,4)] client_body_decoded k(1) s)
  qed
  show "\<exists>resp n'. serve_mux vw chk (with_body why (client_body l s) r) n = Some (resp, n') \<and> respCode resp = 200 \<and>
      json_text (respBody resp) = Some (JObj [(''task_id'', JStr ?id), (''type'', JStr ''inline''), (''language'', JStr l)])"
    using go [OF verbatim_clean [OF assms(7)] assms(8)] submit_answer_reads [OF verbatim_id assms(7)] by fastforce
  have "to_valid [quote] = [quote]" by code_simp
  from go [OF this] show "\<exists>resp n'. serve_mux vw chk (with_body why (client_body [quote] s) r) n = Some (resp, n') \<and>
      respCode resp = 200 \<and> next_task n' = next_task n + 1 \<and> respType resp = ''application/json'' \<and>
      json_text (respBody resp) = None"
    using submit_answer_breaks [OF verbatim_id] by fastforce
qed

theorem submit_answer_unescaped_witness:
  "\<exists>resp n'. serve_mux sample_views NewChecker
      (with_body (\<lambda>_ _. []) (client_body [quote] ''exit 0'') (sample_in ''POST'' ''/api/v1/submit'')) sample_master =
      Some (resp, n') \<and> respCode resp = 200 \<and> json_text (respBody resp) = None"
proof -
  have "ValidString ''exit 0''" by (simp add: ascii_valid within_def)
  moreover have "verbatim ''node''" by code_simp
  ultimately show ?thesis
    using submit_answer_unescaped [OF sample_master_bus, of "sample_in ''POST'' ''/api/v1/submit''" "''exit 0''" "''node''"
        sample_views NewChecker "\<lambda>_ _. []"]
    by (auto simp: sample_in_def)
qed

section \<open>Events over the wire\<close>

text \<open>What a client makes of a frame: the type, the text of the time and the data.\<close>

definition all_event_types :: "event_type list" where
  "all_event_types =
     [EventTaskQueued, EventTaskAssigned, EventTaskCompleted, EventTaskFailed, EventTaskRetrying, EventTaskDead,
      EventWorkerConnected, EventWorkerDisconnected, EventWorkerSuspect, EventWorkerDead, EventChaosWorkerKilled,
      EventChaosCBTripped, EventChaosCBReset, EventBatchSubmitted]"

definition event_type_of :: "string \<Rightarrow> event_type option" where
  "event_type_of s = List.find (\<lambda>ty. event_type_String ty = s) all_event_types"

definition read_event_val :: "json \<Rightarrow> event_val option" where
  "read_event_val v =
     (case v of
        JStr s \<Rightarrow> Some (EvStr s)
      | JNum s \<Rightarrow> map_option (\<lambda>i. EvInt (sint i)) (Atoi s)
      | _ \<Rightarrow> None)"

definition read_event :: "string \<Rightarrow> (event_type option \<times> string \<times> (string \<times> event_val option) list) option" where
  "read_event frame =
     (case json_text frame of
        Some (JObj [(k1, JStr ty), (k2, JStr ts), (k3, JObj ms)]) \<Rightarrow>
          if k1 = ''type'' \<and> k2 = ''timestamp'' \<and> k3 = ''data''
          then Some (event_type_of ty, ts, map (\<lambda>(k, v). (k, read_event_val v)) ms) else None
      | _ \<Rightarrow> None)"

definition wire_ok :: "event \<Rightarrow> bool" where
  "wire_ok e \<longleftrightarrow> list_all (\<lambda>(k, v). ValidString k \<and>
     (case v of EvStr s \<Rightarrow> ValidString s | EvInt i \<Rightarrow> sint (word_of_int i :: int64) = i)) (evData e)"

lemma event_type_back [simp]: "event_type_of (event_type_String ty) = Some ty"
  by (cases ty) (simp_all add: event_type_of_def all_event_types_def)

lemma clean_event_type [simp]: "to_valid (event_type_String ty) = event_type_String ty"
  by (cases ty) (simp_all add: to_valid_id ascii_valid within_def)

lemma read_val_back:
  "(case v of EvStr s \<Rightarrow> ValidString s | EvInt i \<Rightarrow> sint (word_of_int i :: int64) = i) \<Longrightarrow>
   read_event_val (cleaned (event_val_value v)) = Some v"
  using Atoi_fmt_int [of "word_of_int i :: int64" for i]
  by (cases v) (auto simp: read_event_val_def to_valid_id, metis option.simps(9))

lemma event_value_fits: "numbers_ok (event_value nano e) \<and> depth (event_value nano e) \<le> 2"
proof -
  have "numbers_ok (event_val_value v)" "depth (event_val_value v) = 0" for v by (cases v; simp)+
  then have "list_all (\<lambda>(k, v). numbers_ok v) (map (\<lambda>(k, v). (k, event_val_value v)) ms)"
    "fold max (map (\<lambda>(k, v). depth v) (map (\<lambda>(k, v). (k, event_val_value v)) ms)) 0 = 0" for ms
    by (induction ms) auto
  from this [of "sort_key fst (evData e)"] show ?thesis by (simp add: event_value_def del: map_map)
qed



end
