(* ===== verification/TaskCodec.thy ===== *)
theory TaskCodec
  imports GoJson Store
begin

text \<open>
  What \<open>BadgerStore\<close> writes: \<open>json.Marshal\<close> of a \<open>Task\<close>, a struct without tags, so that every field is a
  member of its own name, and \<open>json.Unmarshal\<close> back into one. The text of a time is an argument: \<open>nano\<close> is
  \<open>MarshalJSON\<close> of \<open>time.Time\<close>, which fails for years of more than four digits, and \<open>parse_time\<close> reads it.
\<close>

section \<open>The codec\<close>

fun state_num :: "state \<Rightarrow> int" where
  "state_num StateQueued = 0" | "state_num StateAssigned = 1" | "state_num StateRunning = 2"
| "state_num StateCompleted = 3" | "state_num StateFailed = 4" | "state_num StateRetrying = 5"
| "state_num StateDead = 6" | "state_num (StateOther i) = i"

definition num_state :: "int \<Rightarrow> state" where
  "num_state i =
     (if 0 \<le> i \<and> i \<le> 6
      then [StateQueued, StateAssigned, StateRunning, StateCompleted, StateFailed, StateRetrying, StateDead] ! nat i
      else StateOther i)"

fun type_num :: "task_type \<Rightarrow> int" where
  "type_num TaskTypeScriptPath = 0" | "type_num TaskTypeInline = 1" | "type_num TaskTypeArchive = 2"
| "type_num (TaskTypeOther i) = i"

definition num_type :: "int \<Rightarrow> task_type" where
  "num_type i =
     (if 0 \<le> i \<and> i \<le> 2 then [TaskTypeScriptPath, TaskTypeInline, TaskTypeArchive] ! nat i else TaskTypeOther i)"

definition jint :: "int \<Rightarrow> json" where "jint i = JNum (fmt_int i)"

text \<open>The five times in the order of the fields; the first that cannot be printed fails the call.\<close>

definition task_times :: "task \<Rightarrow> time list" where
  "task_times t = [tCreatedAt t, tAssignedAt t, tStartedAt t, tCompletedAt t, tNextRetryAt t]"

fun print_times :: "(time \<Rightarrow> string + string) \<Rightarrow> time list \<Rightarrow> string + string list" where
  "print_times nano [] = Inr []"
| "print_times nano (t # ts) = bind_err (nano t) (\<lambda>s. bind_err (print_times nano ts) (\<lambda>ss. Inr (s # ss)))"

definition stored_task :: "task \<Rightarrow> string list \<Rightarrow> json" where
  "stored_task t ss =
     JObj ([(''ID'', JStr (tID t)), (''Script'', JStr (tScript t)), (''State'', jint (state_num (tState t))),
            (''Priority'', jint (sint (tPriority t))), (''Attempt'', jint (sint (tAttempt t))),
            (''MaxRetries'', jint (sint (tMaxRetries t))), (''WorkerID'', JStr (tWorkerID t)),
            (''Output'', JStr (tOutput t)), (''Error'', JStr (tError t)), (''ExitCode'', jint (sint (tExitCode t))),
            (''Type'', jint (type_num (tType t))), (''Content'', JStr (tContent t)),
            (''Language'', JStr (tLanguage t)), (''Entrypoint'', JStr (tEntrypoint t))] @
           zip [''CreatedAt'', ''AssignedAt'', ''StartedAt'', ''CompletedAt'', ''NextRetryAt''] (map JStr ss) @
           [(''TimeoutSec'', jint (sint (tTimeoutSec t)))])"

definition set_int32 :: "(int32 \<Rightarrow> 'r \<Rightarrow> 'r) \<Rightarrow> json \<Rightarrow> 'r \<Rightarrow> 'r option" where
  "set_int32 upd v r =
     (case v of
        JNum s \<Rightarrow>
          (case Atoi s of
             Some i \<Rightarrow> if sint (word_of_int (sint i) :: int32) = sint i then Some (upd (word_of_int (sint i)) r) else None
           | None \<Rightarrow> None)
      | JNull \<Rightarrow> Some r
      | _ \<Rightarrow> None)"

definition set_time :: "(string \<Rightarrow> time option) \<Rightarrow> (time \<Rightarrow> 'r \<Rightarrow> 'r) \<Rightarrow> json \<Rightarrow> 'r \<Rightarrow> 'r option" where
  "set_time parse_time upd v r =
     (case v of JStr s \<Rightarrow> map_option (\<lambda>x. upd x r) (parse_time s) | JNull \<Rightarrow> Some r | _ \<Rightarrow> None)"

definition task_fields :: "(string \<Rightarrow> time option) \<Rightarrow> task fields" where
  "task_fields parse_time =
     [(''ID'', set_string (\<lambda>x. tID_update (\<lambda>_. x))), (''Script'', set_string (\<lambda>x. tScript_update (\<lambda>_. x))),
      (''State'', set_int (\<lambda>x. tState_update (\<lambda>_. num_state (sint x)))),
      (''Priority'', set_int (\<lambda>x. tPriority_update (\<lambda>_. x))), (''Attempt'', set_int32 (\<lambda>x. tAttempt_update (\<lambda>_. x))),
      (''MaxRetries'', set_int32 (\<lambda>x. tMaxRetries_update (\<lambda>_. x))), (''WorkerID'', set_string (\<lambda>x. tWorkerID_update (\<lambda>_. x))),
      (''Output'', set_string (\<lambda>x. tOutput_update (\<lambda>_. x))), (''Error'', set_string (\<lambda>x. tError_update (\<lambda>_. x))),
      (''ExitCode'', set_int32 (\<lambda>x. tExitCode_update (\<lambda>_. x))),
      (''Type'', set_int (\<lambda>x. tType_update (\<lambda>_. num_type (sint x)))), (''Content'', set_string (\<lambda>x. tContent_update (\<lambda>_. x))),
      (''Language'', set_string (\<lambda>x. tLanguage_update (\<lambda>_. x))), (''Entrypoint'', set_string (\<lambda>x. tEntrypoint_update (\<lambda>_. x))),
      (''CreatedAt'', set_time parse_time (\<lambda>x. tCreatedAt_update (\<lambda>_. x))),
      (''AssignedAt'', set_time parse_time (\<lambda>x. tAssignedAt_update (\<lambda>_. x))),
      (''StartedAt'', set_time parse_time (\<lambda>x. tStartedAt_update (\<lambda>_. x))),
      (''CompletedAt'', set_time parse_time (\<lambda>x. tCompletedAt_update (\<lambda>_. x))),
      (''NextRetryAt'', set_time parse_time (\<lambda>x. tNextRetryAt_update (\<lambda>_. x))),
      (''TimeoutSec'', set_int (\<lambda>x. tTimeoutSec_update (\<lambda>_. x)))]"

text \<open>\<open>var t task.Task\<close>.\<close>

definition zero_task :: task where
  "zero_task =
     \<lparr>tID = [], tScript = [], tState = StateQueued, tPriority = 0, tAttempt = 0, tMaxRetries = 0, tWorkerID = [],
      tOutput = [], tError = [], tExitCode = 0, tType = TaskTypeScriptPath, tContent = [], tLanguage = [],
      tEntrypoint = [], tCreatedAt = zero_time, tAssignedAt = zero_time, tStartedAt = zero_time,
      tCompletedAt = zero_time, tNextRetryAt = zero_time, tTimeoutSec = 0\<rparr>"

definition json_codec :: "(time \<Rightarrow> string + string) \<Rightarrow> (string \<Rightarrow> time option) \<Rightarrow> (string \<Rightarrow> string) \<Rightarrow> string codec" where
  "json_codec nano parse_time why =
     \<lparr>marshal = (\<lambda>t. bind_err (print_times nano (task_times t)) (\<lambda>ss. Inr (Marshal (stored_task t ss)))),
      unmarshal = (\<lambda>b.
        case json_text b of
          None \<Rightarrow> Inl (why b)
        | Some v \<Rightarrow> (case Unmarshal (task_fields parse_time) v zero_task of None \<Rightarrow> Inl (why b) | Some t \<Rightarrow> Inr t))\<rparr>"

section \<open>It keeps every task\<close>

text \<open>What survives: strings of UTF-8, and the declared states and types.\<close>

definition storable :: "task \<Rightarrow> bool" where
  "storable t \<longleftrightarrow>
     list_all ValidString [tID t, tScript t, tWorkerID t, tOutput t, tError t, tContent t, tLanguage t, tEntrypoint t] \<and>
     (\<forall>i. tState t \<noteq> StateOther i) \<and> (\<forall>i. tType t \<noteq> TaskTypeOther i)"

text \<open>What is relied on of \<open>time\<close>: a printed time is ASCII and is read back.\<close>

definition time_text_ok :: "(time \<Rightarrow> string + string) \<Rightarrow> (string \<Rightarrow> time option) \<Rightarrow> bool" where
  "time_text_ok nano parse_time \<longleftrightarrow> (\<forall>t s. nano t = Inr s \<longrightarrow> ValidString s \<and> parse_time s = Some t)"

lemma set_int_printed [simp]: "set_int upd (jint (sint i)) r = Some (upd i r)"
  by (simp add: set_int_def jint_def Atoi_fmt_int)

lemma set_int32_printed [simp]: "set_int32 upd (jint (sint i)) r = Some (upd i r)" for i :: int32
proof -
  have "sint (word_of_int (sint i) :: int64) = sint i"
    using sint_ge [of i] sint_lt [of i] by (intro sint_of_int64) simp_all
  then have "Atoi (fmt_int (sint i)) = Some (word_of_int (sint i))"
    using Atoi_fmt_int [of "word_of_int (sint i) :: int64"] by simp
  then show ?thesis
    using \<open>sint (word_of_int (sint i) :: int64) = sint i\<close> by (simp add: set_int32_def jint_def)
qed

lemma num_back [simp]:
  "\<forall>i. st \<noteq> StateOther i \<Longrightarrow> set_int (\<lambda>x. upd (num_state (sint x))) (jint (state_num st)) r = Some (upd st r)"
  "\<forall>i. ty \<noteq> TaskTypeOther i \<Longrightarrow> set_int (\<lambda>x. upd' (num_type (sint x))) (jint (type_num ty)) r = Some (upd' ty r)"
proof -
  have small: "sint (word_of_int k :: int64) = k" if "0 \<le> k" "k < 7" for k
    using that by (intro sint_of_int64) simp_all
  have at: "set_int f (jint k) x = Some (f (word_of_int k) x)" if "0 \<le> k" "k < 7" for k x and f :: "int64 \<Rightarrow> 'b \<Rightarrow> 'b"
    using set_int_printed [of f "word_of_int k"] small [OF that] by simp
  show "\<forall>i. st \<noteq> StateOther i \<Longrightarrow> set_int (\<lambda>x. upd (num_state (sint x))) (jint (state_num st)) r = Some (upd st r)"
    by (cases st) (simp_all add: at small num_state_def)
  show "\<forall>i. ty \<noteq> TaskTypeOther i \<Longrightarrow> set_int (\<lambda>x. upd' (num_type (sint x))) (jint (type_num ty)) r = Some (upd' ty r)"
    by (cases ty) (simp_all add: at small num_type_def)
qed

lemma set_string_printed [simp]: "set_string upd (JStr s) r = Some (upd s r)"
  by (simp add: set_string_def)

lemma set_time_printed [simp]: "parse_time s = Some t \<Longrightarrow> set_time parse_time upd (JStr s) r = Some (upd t r)"
  by (simp add: set_time_def)

lemma jint_plain [simp]: "numbers_ok (jint i)" "depth (jint i) = 0" "cleaned (jint i) = jint i"
  by (simp_all add: jint_def)

lemma member_names [simp]:
  "list_all (\<lambda>k. to_valid k = k) (map fst (task_fields parse_time))"
proof -
  have "list_all ValidString (map fst (task_fields parse_time))"
    by (simp add: task_fields_def ascii_valid within_def)
  then show ?thesis by (auto simp: list_all_iff to_valid_id)
qed

lemma clean_stored:
  assumes "storable t" "list_all ValidString ss"
  shows "cleaned (stored_task t ss) = stored_task t ss"
proof -
  have k: "to_valid k = k" if "k \<in> set (map fst (task_fields p))" for k p
    using member_names [of p] that unfolding list_all_iff by blast
  have z: "map (\<lambda>(k, v). (to_valid k, cleaned v)) (zip ks (map JStr ss)) = zip ks (map JStr ss)"
    if "list_all (\<lambda>k. to_valid k = k) ks" for ks
    using that assms(2) by (induction ks ss rule: list_induct2') (auto simp: to_valid_id)
  show ?thesis
    using assms(1) k unfolding stored_task_def cleaned.simps map_append json.inject
    by (subst z) (auto simp: task_fields_def storable_def to_valid_id)
qed

lemma unmarshal_stored:
  assumes "storable t" "length ss = 5" "map parse_time ss = map Some (task_times t)"
  shows "Unmarshal (task_fields parse_time) (stored_task t ss) zero_task = Some t"
proof -
  obtain a b c d e where ss: "ss = [a, b, c, d, e]"
    using assms(2) by (auto simp: numeral_eq_Suc length_Suc_conv)
  have times: "parse_time a = Some (tCreatedAt t)" "parse_time b = Some (tAssignedAt t)" "parse_time c = Some (tStartedAt t)"
    "parse_time d = Some (tCompletedAt t)" "parse_time e = Some (tNextRetryAt t)"
    using assms(3) by (simp_all add: ss task_times_def)
  have st: "\<forall>i. tState t \<noteq> StateOther i" "\<forall>i. tType t \<noteq> TaskTypeOther i" using assms(1) by (simp_all add: storable_def)
  have num: "set_int (\<lambda>x. tState_update (\<lambda>_. num_state (sint x))) (jint (state_num (tState t))) r = Some (r\<lparr>tState := tState t\<rparr>)"
    "set_int (\<lambda>x. tType_update (\<lambda>_. num_type (sint x))) (jint (type_num (tType t))) r = Some (r\<lparr>tType := tType t\<rparr>)" for r :: task
    by (rule num_back(1) [OF st(1), of "\<lambda>x. tState_update (\<lambda>_. x)"], rule num_back(2) [OF st(2), of "\<lambda>x. tType_update (\<lambda>_. x)"])
  show ?thesis
    using num times unfolding stored_task_def Unmarshal_def ss
    by (cases t) (simp add: store_member_def find_field_def task_fields_def zero_task_def)
qed

lemma print_times_lengths:
  "print_times nano ts = Inr ss \<Longrightarrow> time_text_ok nano p \<Longrightarrow>
   length ss = length ts \<and> list_all ValidString ss \<and> map p ss = map Some ts"
  by (induction ts arbitrary: ss) (auto simp: bind_err_def time_text_ok_def split: sum.splits)

text \<open>The codec of the store unmarshals what it marshalled.\<close>

lemma json_codec_ok:
  assumes "time_text_ok nano parse_time" and "\<forall>t \<in> T. storable t"
  shows "codec_ok (json_codec nano parse_time why) T"
  unfolding codec_ok_def
proof (intro ballI allI impI)
  fix t b assume t: "t \<in> T" and m: "marshal (json_codec nano parse_time why) t = Inr b"
  then obtain ss where ss: "print_times nano (task_times t) = Inr ss" "b = Marshal (stored_task t ss)"
    by (auto simp: json_codec_def bind_err_def split: sum.splits)
  have p: "length ss = 5" "list_all ValidString ss" "map parse_time ss = map Some (task_times t)"
    using print_times_lengths [OF ss(1) assms(1)] by (simp_all add: task_times_def)
  obtain a1 a2 a3 a4 a5 where five: "ss = [a1, a2, a3, a4, a5]"
    using p(1) by (auto simp: numeral_eq_Suc length_Suc_conv)
  have st: "storable t" using t assms(2) by blast
  have "numbers_ok (stored_task t ss)" "depth (stored_task t ss) = 1"
    by (simp_all add: stored_task_def five)
  then have "json_text b = Some (stored_task t ss)"
    using json_text_Marshal [of "stored_task t ss"] clean_stored [OF st p(2)] ss(2) by (simp add: maxNestingDepth_def)
  then show "unmarshal (json_codec nano parse_time why) b = Inr t"
    using unmarshal_stored [OF st p(1,3)] by (simp add: json_codec_def)
qed

section \<open>Recovery with the codec\<close>

text \<open>C31: Across a crash or a close of the process and a new open of the database, \<open>RecoverTasks\<close> returns exactly
  the last saved versions of the tasks that had not finished, each once, every field as it was but the state,
  queued, and the worker, none: with tasks written and read as JSON, whatever UTF-8 text their scripts,
  outputs and errors hold.\<close>

theorem stored_tasks_survive_restart:
  assumes "kv_laws db" and "durable eng db" and "time_text_ok nano parse_time" and "\<forall>t \<in> set ts. storable t"
    and "NewBadgerStore eng path empty_disk = Inr s" and "\<forall>k. kv_get db s (taskKey k) = Inr None"
    and "badger_saves db (json_codec nano parse_time why) ts s = Inr s1"
    and "disk = kv_crash eng s1 \<or> disk = snd (badger_Close eng s1)"
    and "NewBadgerStore eng path disk = Inr s2" and "kv_iter db ''task:'' s2 = Inr items"
  shows "\<exists>rs. RecoverTasks db (json_codec nano parse_time why) s2 = Inr rs \<and> distinct (map tID rs) \<and>
    set rs = {t\<lparr>tState := StateQueued, tWorkerID := []\<rparr> | t. last_saved ts (tID t) = Some t \<and> \<not> IsTerminal (tState t)}"
  by (rule restart_recovers_unfinished [OF assms(1,2) json_codec_ok [OF assms(3,4)] assms(5-10)])

text \<open>Times as nanoseconds in decimal, for the example.\<close>

definition sample_nano :: "time \<Rightarrow> string + string" where
  "sample_nano t = (if sint (word_of_int t :: int64) = t then Inr (fmt_int t) else Inl ''year out of range'')"

definition sample_parse :: "string \<Rightarrow> time option" where
  "sample_parse s = map_option sint (Atoi s)"

lemma fmt_int_ascii: "ValidString (fmt_int i)"
proof -
  have "list_all (within 0 0x7F) s" if "list_all is_digit s" for s
    using that by (auto simp: list_all_iff is_digit_def within_def)
  then show ?thesis
    using dec_digits [of i] dec_digits [of "- i"] by (auto simp: fmt_int_def within_def intro!: ascii_valid)
qed

lemma sample_time_text: "time_text_ok sample_nano sample_parse"
  using Atoi_fmt_int [of "word_of_int t :: int64" for t]
  by (auto simp: time_text_ok_def sample_nano_def sample_parse_def fmt_int_ascii split: if_splits) metis

theorem stored_tasks_survive_restart_witness:
  "let t = (New 5 ''a'' ''a.sh'')\<lparr>tState := StateRunning, tWorkerID := ''w'', tOutput := [quote, CHR ''<'', CHR 0xC3, CHR 0xA9]\<rparr>;
       c = json_codec sample_nano sample_parse (\<lambda>_. [])
   in \<exists>s1 rs. badger_saves alist_kv c [t] [] = Inr s1 \<and> RecoverTasks alist_kv c s1 = Inr rs \<and>
        set rs = {t\<lparr>tState := StateQueued, tWorkerID := []\<rparr>}"
proof -
  let ?t = "(New 5 ''a'' ''a.sh'')\<lparr>tState := StateRunning, tWorkerID := ''w'', tOutput := [quote, CHR ''<'', CHR 0xC3, CHR 0xA9]\<rparr>"
  let ?c = "json_codec sample_nano sample_parse (\<lambda>_. [])"
  have store: "storable ?t"
    by (simp add: storable_def New_def ascii_valid within_def ValidString.simps quote_def rune_len.simps)
  have "\<exists>ss. print_times sample_nano (task_times ?t) = Inr ss"
    by (simp add: task_times_def New_def sample_nano_def bind_err_def)
  then obtain b where b: "marshal ?c ?t = Inr b" by (auto simp: json_codec_def bind_err_def)
  let ?s = "[(taskKey ''a'', b)]"
  have tid: "tID (New 5 ''a'' ''a.sh'') = ''a''" by (simp add: New_def)
  have s1: "badger_saves alist_kv ?c [?t] [] = Inr ?s"
    by (simp add: badger_Save_def b tid alist_kv_def gm_put_def bind_err_def)
  have open0: "NewBadgerStore plain_engine ''/data'' s = Inr s" for s :: "(string, string) gomap"
    by (simp add: NewBadgerStore_def plain_engine_def)
  have eng: "durable plain_engine alist_kv" by (simp add: durable_def plain_engine_def)
  have it: "kv_iter alist_kv ''task:'' ?s = Inr ?s" by (simp add: alist_kv_def gm_ok_def taskKey_def)
  have fresh: "\<forall>k. kv_get alist_kv [] (taskKey k) = Inr None" by (simp add: alist_kv_def)
  have crash: "?s = kv_crash plain_engine ?s \<or> ?s = snd (badger_Close plain_engine ?s)" by (simp add: plain_engine_def)
  have all: "\<forall>t \<in> set [?t]. storable t" using store by simp
  obtain rs where rs: "RecoverTasks alist_kv ?c ?s = Inr rs"
      "set rs = {t\<lparr>tState := StateQueued, tWorkerID := []\<rparr> | t. last_saved [?t] (tID t) = Some t \<and> \<not> IsTerminal (tState t)}"
    using stored_tasks_survive_restart [OF alist_kv_laws eng sample_time_text all open0 fresh s1 crash open0 it] by blast
  have "last_saved [?t] (tID t) = Some t \<and> \<not> IsTerminal (tState t) \<longleftrightarrow> t = ?t" for t
  proof
    assume "last_saved [?t] (tID t) = Some t \<and> \<not> IsTerminal (tState t)"
    then have "t \<in> set [?t]" using last_saved_Some by blast
    then show "t = ?t" by simp
  next
    assume "t = ?t"
    then show "last_saved [?t] (tID t) = Some t \<and> \<not> IsTerminal (tState t)"
      by (simp add: last_saved_def IsTerminal_def New_def)
  qed
  then have "set rs = {?t\<lparr>tState := StateQueued, tWorkerID := []\<rparr>}" using rs(2) by auto
  with s1 rs(1) show ?thesis unfolding Let_def by blast
qed

end
