(* ===== verification/Wire.thy ===== *)
theory Wire
  imports Cluster Master GoUtf8
begin

text \<open>
  What gRPC carries. The string fields of the messages in \<open>src/api/node.proto\<close> are proto3 strings, which
  must be UTF-8: a message with any other string cannot be marshalled, \<open>Send\<close> of an assignment and the call
  \<open>ReportTaskStatus\<close> return an error. Scripts, names and outputs are arbitrary bytes in the program.
\<close>

section \<open>Messages that can be sent\<close>

definition assignment_utf8 :: "assignment \<Rightarrow> bool" where
  "assignment_utf8 a \<longleftrightarrow> list_all ValidString [aTaskId a, aScript a, aContent a, aLanguage a, aEntrypoint a]"

definition payload_utf8 :: "payload \<Rightarrow> bool" where
  "payload_utf8 p \<longleftrightarrow> list_all ValidString [plID p, plScript p, plContent p, plLanguage p, plEntrypoint p]"

definition report_utf8 :: "task_report \<Rightarrow> bool" where
  "report_utf8 rep \<longleftrightarrow> list_all ValidString [rTaskId rep, rWorkerId rep, rOutput rep, rErrorMessage rep]"

lemma assigned_utf8: "assignment_utf8 a \<longleftrightarrow> payload_utf8 (assigned_payload a)"
  by (simp add: assignment_utf8_def payload_utf8_def assigned_payload_def)

text \<open>The actions of the cluster that the messages allow.\<close>

fun wire_ok :: "cact \<Rightarrow> cluster \<Rightarrow> bool" where
  "wire_ok (Service (Move i x)) c =
     (case streams (clService c) i of
        Some st \<Rightarrow> (case stPc st of
            PcSend p \<Rightarrow> si_sendok x \<longrightarrow> assignment_utf8 (mk_assignment (si_now x) (heap (nd (clService c)) p))
          | _ \<Rightarrow> True)
      | None \<Rightarrow> True)"
| "wire_ok (Arrive k env) c = (k < length (clNet c) \<longrightarrow> report_utf8 (snd (clNet c ! k)))"
| "wire_ok _ c = True"

definition wire_step :: "(assignment \<Rightarrow> exec_result \<Rightarrow> bool) \<Rightarrow> cluster \<Rightarrow> cluster \<Rightarrow> bool" where
  "wire_step runs c c' \<longleftrightarrow> (\<exists>a. cact_ok runs a c \<and> wire_ok a c \<and> cstep a c = Some c')"

definition utf8_runs :: "(assignment \<Rightarrow> exec_result \<Rightarrow> bool) \<Rightarrow> assignment \<Rightarrow> exec_result \<Rightarrow> bool" where
  "utf8_runs runs a r \<longleftrightarrow> runs a r \<and> ValidString (fst r)"

section \<open>What is sent\<close>

definition sent_utf8 :: "cluster \<Rightarrow> bool" where
  "sent_utf8 c \<longleftrightarrow> (\<forall>x \<in> set (sent (clService c)). assignment_utf8 (snd x))"

lemma stream_sends:
  assumes "stream_step i x st (stPc st) d = Some d'"
  shows "sent d' = sent d \<or>
    (\<exists>p. stPc st = PcSend p \<and> si_sendok x \<and> sent d' = sent d @ [(i, mk_assignment (si_now x) (heap (nd d) p))])"
  using assms by (cases "stPc st") (auto simp: goto_pc_def Let_def split: if_splits prod.splits option.splits)

lemma cstep_service:
  assumes "cstep a c = Some c'"
  shows "(\<exists>b. dstep b (clService c) = Some (clService c') \<and>
      (a = Service b \<or> (\<exists>i h k l host now. a = Join i h k l host now \<and> (\<exists>w. b = Open i w host now)) \<or>
       (\<exists>k env. a = Arrive k env \<and> k < length (clNet c) \<and> b = Report env (snd (clNet c ! k))))) \<or>
    clService c' = clService c"
  using assms by (cases a) (auto simp: Let_def simp del: dstep.simps wstep.simps split: if_splits option.splits)

lemma sent_utf8_step:
  assumes "sent_utf8 c" and "wire_ok a c" and "cstep a c = Some c'"
  shows "sent_utf8 c'"
proof (cases "\<exists>i x. a = Service (Move i x)")
  case True
  then obtain i x where a: "a = Service (Move i x)" by blast
  then obtain st where st: "streams (clService c) i = Some st" "stream_step i x st (stPc st) (clService c) = Some (clService c')"
    using assms(3) by (auto split: option.splits)
  have "\<forall>p. stPc st = PcSend p \<longrightarrow> si_sendok x \<longrightarrow> assignment_utf8 (mk_assignment (si_now x) (heap (nd (clService c)) p))"
    using assms(2) a st(1) by auto
  then show ?thesis using stream_sends [OF st(2)] assms(1) by (auto simp: sent_utf8_def)
next
  case False
  have "sent (clService c') = sent (clService c)"
    using cstep_service [OF assms(3)] dstep_sent [of _ "clService c" "clService c'"] False by fastforce
  then show ?thesis using assms(1) by (simp add: sent_utf8_def)
qed

section \<open>What is recorded\<close>

lemma cstep_extends:
  assumes "cluster_inv runs c" and "cact_ok runs a c" and "cstep a c = Some c'"
  shows "extends c c'"
proof (cases a)
  case (Service b)
  then show ?thesis
    using assms(3) extends_dstep [of b c _ "clNet c"] by (auto simp del: dstep.simps)
next
  case (Join i h k l host now)
  then obtain d' where d': "dstep (Open i (wID (NewWorker h k l)) host now) (clService c) = Some d'" "clWorkers c i = None"
    "c' = c\<lparr>clService := d', clWorkers := (clWorkers c)(i \<mapsto> NewWorker h k l)\<rparr>"
    using assms(3) by (auto simp: Let_def simp del: dstep.simps split: if_splits)
  then show ?thesis using extends_dstep [OF d'(1), of "clNet c"] by (auto simp: extends_def simp del: dstep.simps)
next
  case (Deliver i)
  then show ?thesis
    using assms(3) by (auto simp: extends_def keeps_tasks_def simp del: wstep.simps split: option.splits if_splits dest!: wstep_reports)
next
  case (Work i act)
  then show ?thesis
    using assms(3) by (auto simp: extends_def keeps_tasks_def simp del: wstep.simps split: option.splits if_splits dest!: wstep_reports)
next
  case (Arrive k env)
  then show ?thesis
    using assms(3) extends_dstep [of "Report env (snd (clNet c ! k))" c] by (auto simp del: dstep.simps split: if_splits)
next
  case (Lose k)
  then show ?thesis using assms(3) by (auto simp: extends_def keeps_tasks_def split: if_splits)
qed

definition wire_inv :: "(assignment \<Rightarrow> exec_result \<Rightarrow> bool) \<Rightarrow> cluster \<Rightarrow> bool" where
  "wire_inv runs c \<longleftrightarrow> cluster_inv runs c \<and> sent_utf8 c \<and>
     (\<forall>p < next_task (nd (clService c)). \<forall>v. result_of (heap (nd (clService c)) p) = Some v \<longrightarrow>
        v = timeout_result \<or> executed (utf8_runs runs) c p v)"

lemma report_made_utf8:
  assumes "report_utf8 rep"
  shows "executed (\<lambda>a r. runs a r \<and> (\<exists>k s e. rep = mk_report k a s e r)) c p v \<Longrightarrow> executed (utf8_runs runs) c p v"
proof (erule executed_mono)
  fix a r assume r: "runs a r \<and> (\<exists>k s e. rep = mk_report k a s e r)"
  then have "rOutput rep = fst r" by (auto simp: mk_report_def Let_def split: option.split)
  with r assms show "utf8_runs runs a r" by (simp add: utf8_runs_def report_utf8_def)
qed

text \<open>A result that is new after a step comes from the timeout check or from a report that was carried.\<close>

lemma new_results:
  assumes inv: "wire_inv runs c" and ok: "cact_ok runs a c" "wire_ok a c" and step: "cstep a c = Some c'"
    and p: "p < next_task (nd (clService c'))" and v: "result_of (heap (nd (clService c')) p) = Some v"
  shows "v = timeout_result \<or> executed (utf8_runs runs) c' p v"
proof -
  have ci: "cluster_inv runs c" using inv by (simp add: wire_inv_def)
  have ext: "extends c c'" by (rule cstep_extends [OF ci ok(1) step])
  have old: "v = timeout_result \<or> executed (utf8_runs runs) c' p v"
    if "p < next_task (nd (clService c))" "v = timeout_result \<or> executed (utf8_runs runs) c p v"
    using that executed_extends [OF _ ext] by blast
  show ?thesis
  proof (cases "clService c' = clService c")
    case True
    then show ?thesis using old inv p v by (simp add: wire_inv_def)
  next
    case False
    then obtain b where b: "dstep b (clService c) = Some (clService c')"
      "a = Service b \<or> (\<exists>i h k l host now. a = Join i h k l host now \<and> (\<exists>w. b = Open i w host now)) \<or>
       (\<exists>k env. a = Arrive k env \<and> k < length (clNet c) \<and> b = Report env (snd (clNet c ! k)))"
      using cstep_service [OF step] by blast
    have sub: "result_of t = None" if "b = SubmitTask t" for t
      using b(2) ok(1) that by (auto simp: result_of_def)
    have in_old: "p < next_task (nd (clService c))" using dstep_new_result [OF b(1) sub _ p] v by force
    have "result_of (heap (nd (clService c)) p) = Some v \<or> result_source b (nd (clService c)) p v"
      using dstep_results [OF b(1) sub] v unfolding results_from_def by blast
    then show ?thesis
    proof
      assume "result_of (heap (nd (clService c)) p) = Some v"
      then show ?thesis using old in_old inv by (simp add: wire_inv_def)
    next
      assume src: "result_source b (nd (clService c)) p v"
      show ?thesis
      proof (cases "v = timeout_result")
        case notime: False
        then obtain env rep where r: "b = Report env rep" "gm_get (inFlight (sched (nd (clService c)))) (rTaskId rep) = Some p"
          "v = reported_result rep"
          using src by (auto simp: result_source_def split: dact.splits)
        then obtain k where k: "a = Arrive k env" "k < length (clNet c)" "rep = snd (clNet c ! k)" using b(2) ok(1) by auto
        have "(fst (clNet c ! k), rep) \<in> set (clNet c)" using k by simp
        from report_executed [OF ci this r(2) in_old] report_made_utf8 [of rep runs c p v] ok(2) k r(3)
        have "executed (utf8_runs runs) c p v" by simp
        then show ?thesis using old in_old by blast
      qed simp
    qed
  qed
qed

interpretation wire: inv_system cluster_start "wire_step runs" "wire_inv runs"
proof
  show "wire_inv runs c" if "cluster_start c" for c
    using cluster.inv_init [OF that, of runs] that
    by (simp add: wire_inv_def sent_utf8_def cluster_start_def service_start_def)
  fix c c' assume inv: "wire_inv runs c" and step: "wire_step runs c c'"
  obtain a where a: "cact_ok runs a c" "wire_ok a c" "cstep a c = Some c'" using step by (auto simp: wire_step_def)
  have "cluster_inv runs c'" using inv cstep_inv [OF _ a(1,3)] by (simp add: wire_inv_def)
  moreover have "sent_utf8 c'" using inv sent_utf8_step [OF _ a(2,3)] by (simp add: wire_inv_def)
  ultimately show "wire_inv runs c'" using new_results [OF inv a] by (simp add: wire_inv_def)
qed

text \<open>C22: A task whose every execution prints bytes that are not UTF-8 never gets a result: the worker's reports of
  it cannot be sent, whether the script succeeds or fails, so that in every reachable state the task has no
  result or the error of the timeout check.\<close>

theorem binary_output_times_out:
  assumes "reach cluster_start (wire_step (ran_on os)) c" and "p < next_task (nd (clService c))"
    and "\<forall>a world. assigned_payload a = payload_of (heap (nd (clService c)) p) \<longrightarrow> \<not> ValidString (fst (fst (execute os a world)))"
  shows "result_of (heap (nd (clService c)) p) = None \<or> result_of (heap (nd (clService c)) p) = Some timeout_result"
proof (cases "result_of (heap (nd (clService c)) p)")
  case (Some v)
  then have "v = timeout_result \<or> executed (utf8_runs (ran_on os)) c p v"
    using wire.reach_inv [OF assms(1)] assms(2) unfolding wire_inv_def by blast
  moreover have "\<not> executed (utf8_runs (ran_on os)) c p v"
    using assms(3) unfolding executed_def made_by_def utf8_runs_def ran_on_def by blast
  ultimately show ?thesis using Some by blast
qed simp

text \<open>Runs of allowed actions, for the examples.\<close>

fun wires_ok :: "cact list \<Rightarrow> cluster \<Rightarrow> bool" where
  "wires_ok [] c = True"
| "wires_ok (a # as) c = (wire_ok a c \<and> (case cstep a c of None \<Rightarrow> True | Some c \<Rightarrow> wires_ok as c))"

lemma wire_run_reach:
  "reach cluster_start (wire_step runs) c \<Longrightarrow> crun_ok runs as c \<Longrightarrow> wires_ok as c \<Longrightarrow> crun as c = Some c' \<Longrightarrow>
     reach cluster_start (wire_step runs) c'"
proof (induction as arbitrary: c)
  case (Cons a as)
  then obtain c1 where c1: "cstep a c = Some c1" "crun as c1 = Some c'" by (auto split: option.splits simp del: cstep.simps)
  then have "wire_step runs c c1" "crun_ok runs as c1" "wires_ok as c1"
    using Cons.prems(2,3) by (auto simp: wire_step_def simp del: cstep.simps)
  with Cons.prems(1) c1(2) show ?case by (blast intro: Cons.IH reach_step)
qed simp

lemma wire_demo_reach: "reach cluster_start (wire_step runs) demo_cluster"
  using demo_cluster_start by (rule reach_init)

definition binary_os :: "(string \<rightharpoonup> string) os" where
  "binary_os = mem_os\<lparr>os_CombinedOutput := \<lambda>cmd w. (([CHR 0xFF], None), w)\<rparr>"

definition binary_run :: "cact list" where
  "binary_run =
     [Service (SubmitTask (New 5 ''a'' ''/a.sh'')), Join 0 ''host'' 7 2 ''h'' 1] @
     map (\<lambda>now. Service (Move 0 (go now))) [6, 7, 8] @ replicate 8 (Service (Move 0 (go 9))) @
     [Deliver 0] @ map (Work 0) [Select OnTask, Acquire True, Proceed, Proceed, Proceed, Job 0 10 11 ([CHR 0xFF], None)]"

theorem binary_output_times_out_witness:
  "\<exists>c w. crun binary_run demo_cluster = Some c \<and> clWorkers c 0 = Some w \<and> map rOutput (wReports w) = [[CHR 0xFF]] \<and>
     (result_of (heap (nd (clService c)) 0) = None \<or> result_of (heap (nd (clService c)) 0) = Some timeout_result)"
proof -
  have "crun_ok (\<lambda>a r. fst (execute binary_os a Map.empty) = r) binary_run demo_cluster" by code_simp
  then have ok: "crun_ok (ran_on binary_os) binary_run demo_cluster"
    by (rule crun_ok_mono [rotated]) (auto simp: ran_on_def)
  have wires: "wires_ok binary_run demo_cluster" by code_simp
  have "map_option (\<lambda>c. (next_task (nd (clService c)), map_option (\<lambda>w. map rOutput (wReports w)) (clWorkers c 0),
      payload_of (heap (nd (clService c)) 0))) (crun binary_run demo_cluster) =
    Some (1, Some [[CHR 0xFF]], payload_of (New 5 ''a'' ''/a.sh''))" by code_simp
  then obtain c w where c: "crun binary_run demo_cluster = Some c" "next_task (nd (clService c)) = 1"
    "clWorkers c 0 = Some w" "map rOutput (wReports w) = [[CHR 0xFF]]"
    "payload_of (heap (nd (clService c)) 0) = payload_of (New 5 ''a'' ''/a.sh'')" by auto
  have "reach cluster_start (wire_step (ran_on binary_os)) c"
    using wire_demo_reach ok wires c(1) by (rule wire_run_reach)
  moreover have "\<not> ValidString [CHR 0xFF]" by code_simp
  then have "\<forall>a world. assigned_payload a = payload_of (heap (nd (clService c)) 0) \<longrightarrow>
      \<not> ValidString (fst (fst (execute binary_os a world)))"
    unfolding c(5) by (auto simp: assigned_payload_def payload_of_def New_def execute_def executeScriptPath_def binary_os_def)
  ultimately show ?thesis using binary_output_times_out [of binary_os c 0] c(1-4) by auto
qed

section \<open>What cannot be sent\<close>

lemma unsent_steps:
  assumes "streams d i = Some st" and "stPc st = PcSend p" and "\<not> si_sendok x"
  shows "\<exists>d'. drun [Move i x, Move i y, Move i z] d = Some d' \<and> p \<in> set (queue (sched (nd d'))) \<and>
    map_option stPc (streams d' i) = Some PcUnstream \<and> sent d' = sent d"
  using assms by (simp add: goto_pc_def set_task_def Enqueue_def push_queue_def Notify_def set_mset_mset [symmetric] mset_heap_Push
      del: set_mset_mset)

text \<open>Nothing refuses such a task: an archive is accepted with whatever entrypoint and language the form has.\<close>

lemma unsendable_upload_accepted:
  assumes "evbus n = Some b" and "bus_ok b" and "upForm up = None" and "upFile up" and "upData up = Inr data"
    and "\<not> ValidString (upEntrypoint up)"
  shows "\<exists>resp n'. handleUpload now created pub up n = Some (resp, n') \<and> respCode resp = 200 \<and>
    \<not> payload_utf8 (payload_of (heap n' (next_task n)))"
proof -
  have "upEntrypoint up \<noteq> []" using assms(6) by auto
  moreover obtain resp n' where "handleUpload now created pub up n = Some (resp, n')" "respCode resp = 200"
    "queued_new (\<lambda>_. NewArchive created (''archive-'' @ fmt_d (UnixNano now)) (EncodeToString data)
       (if upEntrypoint up = [] then ''./run.sh'' else upEntrypoint up)
       (if upLanguage up = [] then ''bash'' else upLanguage up)) 1 n n'"
    using upload_queues [OF assms(1-5)] by blast
  ultimately show ?thesis
    using assms(6) by (intro exI [of _ resp] exI [of _ n']) (simp add: queued_new_def payload_utf8_def payload_of_def NewArchive_def)
qed

text \<open>C21: A task with a name, script, language or entrypoint that is not UTF-8 is poison: no assignment of it is ever sent,
  and every stream that takes it fails to send it, puts it back into the queue for the next one and ends,
  which disconnects its worker.\<close>

theorem unsendable_task_ends_streams:
  assumes "reach cluster_start (wire_step runs) c" and "\<not> payload_utf8 (payload_of (heap (nd (clService c)) p))"
  shows "(\<forall>x \<in> set (sent (clService c)). assigned_payload (snd x) \<noteq> payload_of (heap (nd (clService c)) p)) \<and>
    (\<forall>i st x y z. streams (clService c) i = Some st \<and> stPc st = PcSend p \<and> wire_ok (Service (Move i x)) c \<longrightarrow>
       (\<exists>d. drun [Move i x, Move i y, Move i z] (clService c) = Some d \<and> p \<in> set (queue (sched (nd d))) \<and>
          map_option stPc (streams d i) = Some PcUnstream \<and> sent d = sent (clService c)))"
proof
  have "sent_utf8 c" using wire.reach_inv [OF assms(1)] by (simp add: wire_inv_def)
  then show "\<forall>x \<in> set (sent (clService c)). assigned_payload (snd x) \<noteq> payload_of (heap (nd (clService c)) p)"
    using assms(2) by (auto simp: sent_utf8_def assigned_utf8)
  have "assigned_payload (mk_assignment now (heap (nd (clService c)) p)) = payload_of (heap (nd (clService c)) p)" for now
    by (simp add: assigned_payload_def payload_of_def mk_assignment_def)
  then have "\<not> assignment_utf8 (mk_assignment now (heap (nd (clService c)) p))" for now
    using assms(2) by (simp add: assigned_utf8)
  then show "\<forall>i st x y z. streams (clService c) i = Some st \<and> stPc st = PcSend p \<and> wire_ok (Service (Move i x)) c \<longrightarrow>
       (\<exists>d. drun [Move i x, Move i y, Move i z] (clService c) = Some d \<and> p \<in> set (queue (sched (nd d))) \<and>
          map_option stPc (streams d i) = Some PcUnstream \<and> sent d = sent (clService c))"
    by (intro allI impI unsent_steps) auto
qed

text \<open>An uploaded archive whose entrypoint is the byte 0xFF, and the streams of two workers.\<close>

definition poison_run :: "cact list" where
  "poison_run =
     (let fail = \<lparr>si_now = 10, si_done = False, si_sendok = False, si_order = [''a'']\<rparr> in
      [Service (SubmitTask (NewArchive 5 ''a'' [] [CHR 0xFF] ''bash'')), Join 0 ''host'' 7 2 ''h'' 1] @
      replicate 18 (Service (Move 0 fail)) @ [Join 1 ''host'' 8 2 ''h'' 11] @ replicate 10 (Service (Move 1 fail)))"

theorem unsendable_task_ends_streams_witness:
  "\<exists>c d. crun poison_run demo_cluster = Some c \<and> map_option stPc (streams (clService c) 0) = Some PcDone \<and>
     drun (replicate 3 (Move 1 \<lparr>si_now = 12, si_done = False, si_sendok = False, si_order = []\<rparr>)) (clService c) = Some d \<and>
     map_option stPc (streams d 1) = Some PcUnstream \<and> 0 \<in> set (queue (sched (nd d))) \<and> sent d = []"
proof -
  let ?x = "\<lparr>si_now = 12, si_done = False, si_sendok = False, si_order = []\<rparr>"
  have ok: "crun_ok (ran_on mem_os) poison_run demo_cluster" "wires_ok poison_run demo_cluster"
  proof -
    have "crun_ok (\<lambda>_ _. False) poison_run demo_cluster" by code_simp
    then show "crun_ok (ran_on mem_os) poison_run demo_cluster" by (rule crun_ok_mono [rotated]) simp
    show "wires_ok poison_run demo_cluster" by code_simp
  qed
  have "map_option (\<lambda>c. (map_option stPc (streams (clService c) 0), map_option stPc (streams (clService c) 1), sent (clService c),
      payload_of (heap (nd (clService c)) 0))) (crun poison_run demo_cluster) =
    Some (Some PcDone, Some (PcSend 0), [], payload_of (NewArchive 5 ''a'' [] [CHR 0xFF] ''bash''))" by code_simp
  then obtain c st where c: "crun poison_run demo_cluster = Some c" "map_option stPc (streams (clService c) 0) = Some PcDone"
    "streams (clService c) 1 = Some st" "stPc st = PcSend 0" "sent (clService c) = []"
    "payload_of (heap (nd (clService c)) 0) = payload_of (NewArchive 5 ''a'' [] [CHR 0xFF] ''bash'')" by auto
  have r: "reach cluster_start (wire_step (ran_on mem_os)) c" using wire_demo_reach ok c(1) by (rule wire_run_reach)
  have "\<not> payload_utf8 (payload_of (NewArchive 5 ''a'' [] [CHR 0xFF] ''bash''))" by code_simp
  then have "\<not> payload_utf8 (payload_of (heap (nd (clService c)) 0))" using c(6) by simp
  from conjunct2 [OF unsendable_task_ends_streams [OF r this], rule_format, of 1 st ?x ?x ?x] c(3-5)
  obtain d where "drun [Move 1 ?x, Move 1 ?x, Move 1 ?x] (clService c) = Some d" "0 \<in> set (queue (sched (nd d)))"
    "map_option stPc (streams d 1) = Some PcUnstream" "sent d = []" by auto
  moreover have "replicate 3 (Move 1 ?x) = [Move 1 ?x, Move 1 ?x, Move 1 ?x]" by (simp add: numeral_eq_Suc)
  ultimately show ?thesis using c(1,2) by metis
qed

end
