(* ===== verification/Gateway.thy ===== *)
theory Gateway
  imports Dispatch Router
begin

text \<open>
  The master as it runs: the HTTP handlers of \<open>src/internal/master/master.go\<close> beside the streams, the gRPC
  handlers and the ticks of the node service, and the server of \<open>startHTTP\<close>, the router behind the rate
  limiter. A request does to the node what a run of actions of the service does, and publishes on the
  bus; so the invariant of the service is one of the master.
\<close>

section \<open>Requests as runs of the service\<close>

definition bus_up :: "node \<Rightarrow> bool" where
  "bus_up n \<longleftrightarrow> (\<exists>b. evbus n = Some b \<and> bus_ok b)"

text \<open>What an action that a request can stand for does to the node.\<close>

fun act_node :: "dact \<Rightarrow> node \<Rightarrow> node" where
  "act_node (SubmitTask t) n = enqueue_new t n"
| "act_node (Kill w) n = snd (DisconnectWorker w n)"
| "act_node (RetryDLQ k) n =
     (case sched_RetryFromDLQ k (heap n, sched n) of (_, m, s) \<Rightarrow> n\<lparr>heap := m, sched := s\<rparr>)"
| "act_node (TripCB now w) n = on_breaker w (Trip now) n"
| "act_node (ResetCB w) n = on_breaker w Reset n"
| "act_node _ n = n"

text \<open>The actions of one request: submissions, or one other call.\<close>

definition request_acts :: "dact list \<Rightarrow> bool" where
  "request_acts as \<longleftrightarrow> (\<exists>ts. as = map SubmitTask ts) \<or>
     (\<exists>w. as = [Kill w]) \<or> (\<exists>k. as = [RetryDLQ k]) \<or> (\<exists>now w. as = [TripCB now w]) \<or> (\<exists>w. as = [ResetCB w])"

text \<open>From \<open>n\<close> to \<open>n'\<close> these actions have been taken and something may have been published.\<close>

definition acted :: "dact list \<Rightarrow> node \<Rightarrow> node \<Rightarrow> bool" where
  "acted as n n' \<longleftrightarrow> request_acts as \<and> bus_up n' \<and> n' = (fold act_node as n)\<lparr>evbus := evbus n'\<rparr>"

definition distinct_ids :: "node \<Rightarrow> bool" where
  "distinct_ids n \<longleftrightarrow> inj_on (\<lambda>p. tID (heap n p)) {..<next_task n}"

lemma submit_acts: "fold act_node (map SubmitTask ts) n = fold enqueue_new ts n"
  by (induction ts arbitrary: n) simp_all

lemma enqueue_new_rebus [simp]: "enqueue_new t (n\<lparr>evbus := b\<rparr>) = (enqueue_new t n)\<lparr>evbus := b\<rparr>"
  by (simp add: enqueue_new_def alloc_task_def enqueue_def store_Save_def observe_def Let_def split: option.split)

lemma fold_enqueue_rebus: "fold enqueue_new ts (n\<lparr>evbus := b\<rparr>) = (fold enqueue_new ts n)\<lparr>evbus := b\<rparr>"
  by (induction ts arbitrary: n) simp_all

lemma fold_enqueue_evbus [simp]: "evbus (fold enqueue_new ts n) = evbus n"
  by (induction ts arbitrary: n) (simp_all add: enqueue_new_effect)

lemma request_acts_submits [simp]: "request_acts (map SubmitTask ts)"
  by (auto simp: request_acts_def)

lemma request_acts_single [simp]:
  "request_acts []" "request_acts [SubmitTask t]" "request_acts [Kill w]" "request_acts [RetryDLQ k]"
  "request_acts [TripCB now w]" "request_acts [ResetCB w]"
  using request_acts_submits [of "[]"] request_acts_submits [of "[t]"] by (simp_all add: request_acts_def)

lemma acted_none: "bus_up n \<Longrightarrow> acted [] n n"
  by (simp add: acted_def)

lemma bus_Publish_acted:
  assumes "bus_up n" "request_acts as" "fold act_node as n = n1" "evbus n1 = evbus n"
  obtains n' where "bus_Publish now ty data n1 = Some n'" "acted as n n'"
proof -
  obtain b where "evbus n1 = Some b" "bus_ok b" using assms(1,4) by (auto simp: bus_up_def)
  then obtain b' where "bus_Publish now ty data n1 = Some (n1\<lparr>evbus := Some b'\<rparr>)" "bus_ok b'" by (rule bus_Publish_ok)
  then show ?thesis using that assms(2,3) by (simp add: acted_def bus_up_def)
qed

lemma handleTask_loop_acted:
  assumes "bus_up n"
  shows "\<exists>k n' ts. handleTask_loop join dir files c n = Some (k, n') \<and> acted (map SubmitTask ts) n n'"
  using assms
proof (induction files arbitrary: c n)
  case Nil
  then show ?case using acted_none by (auto intro: exI [of _ "[]"])
next
  case (Cons f files)
  show ?case
  proof (cases "\<not> deIsDir f \<and> HasSuffix (deName f) ''.sh''")
    case True
    let ?id = "''task-'' @ fmt_d (UnixNano (deNow f)) @ ''-'' @ deName f" and ?path = "join dir (deName f)"
    let ?t = "New (deCreated f) ?id ?path"
    have n1: "fold act_node (map SubmitTask [?t]) n = enqueue_new ?t n" "request_acts (map SubmitTask [?t])"
      by simp_all
    obtain n2 where n2: "bus_Publish (dePublish f) EventTaskQueued
        [(''task_id'', EvStr ?id), (''script'', EvStr ?path)] (enqueue_new ?t n) = Some n2"
      "acted (map SubmitTask [?t]) n n2"
      by (rule bus_Publish_acted [OF Cons.prems n1(2,1)]) (simp_all add: enqueue_new_effect)
    then have up: "bus_up n2" by (simp add: acted_def)
    obtain k n' ts where IH: "handleTask_loop join dir files (c + 1) n2 = Some (k, n')" "acted (map SubmitTask ts) n2 n'"
      using Cons.IH [OF up] by blast
    have "n2 = (enqueue_new ?t n)\<lparr>evbus := evbus n2\<rparr>" using n2(2) by (simp add: acted_def)
    then have "fold enqueue_new ts n2 = (fold enqueue_new (?t # ts) n)\<lparr>evbus := evbus n2\<rparr>"
      by (metis fold_enqueue_rebus fold_simps(2))
    then have "acted (map SubmitTask (?t # ts)) n n'"
      using IH(2) by (auto simp: acted_def submit_acts simp del: fold_simps list.map)
    then show ?thesis using True n2(1) IH(1) by (auto simp: Let_def EnqueueTask_def simp del: list.map)
  next
    case False
    then show ?thesis using Cons by auto
  qed
qed

text \<open>Every endpoint: it answers, and what it did to the node are the actions of a request.\<close>

lemma batch_acts:
  "fold (batch_turn clock batchID script language prio) is n =
     fold act_node (map SubmitTask (map (batch_task clock batchID script language prio) is)) n"
  unfolding submit_acts by (induction "is" arbitrary: n) (simp_all add: batch.turn_enqueues)

lemma chaos_acts:
  "fold (chaos_turn clock script language) is n =
     fold act_node (map SubmitTask (map (chaos_task clock script language) is)) n"
  unfolding submit_acts by (induction "is" arbitrary: n) (simp_all add: chaos.turn_enqueues)

definition answers :: "(http_resp \<times> node) option \<Rightarrow> node \<Rightarrow> bool" where
  "answers r n \<longleftrightarrow> (\<exists>resp n' as. r = Some (resp, n') \<and> acted as n n')"

lemma answers_same: "bus_up n \<Longrightarrow> answers (Some (resp, n)) n"
  using acted_none by (auto simp: answers_def)

lemma answers_publish:
  assumes "bus_up n" "request_acts as" "fold act_node as n = n1" "evbus n1 = evbus n"
  shows "answers (map_option (Pair resp) (bus_Publish now ty data n1)) n"
  by (rule bus_Publish_acted [OF assms, of now ty data]) (auto simp: answers_def)

lemma answers_submit:
  assumes "bus_up n"
  shows "answers (map_option (Pair resp) (bus_Publish now ty data (enqueue_new t n))) n"
  by (rule answers_publish [OF assms, of "[SubmitTask t]"]) (simp_all add: enqueue_new_effect)

lemma answers_batch:
  assumes "bus_up n"
  shows "answers (map_option (Pair resp) (bus_Publish now ty data
    (fold (batch_turn clock batchID script language prio) is n))) n"
  by (rule answers_publish [OF assms request_acts_submits batch_acts [symmetric]]) (simp add: batch.loop_bus)

lemma answers_chaos:
  assumes "bus_up n"
  shows "answers (map_option (Pair resp) (bus_Publish now ty data (fold (chaos_turn clock script language) is n))) n"
  by (rule answers_publish [OF assms request_acts_submits chaos_acts [symmetric]]) (simp add: chaos.loop_bus)

lemma with_breaker_acts: "with_breaker w f n = on_breaker w f n"
  by (simp add: with_breaker_def on_breaker_def)

lemma answers_chaos_calls:
  assumes "bus_up n"
  shows "answers (handleChaosTripCB now pub w n) n" "answers (handleChaosResetCB pub w n) n"
    "answers (handleChaosKillWorker pub w n) n" "answers (Some (handleRetryDLQ w n)) n"
proof -
  show "answers (handleChaosTripCB now pub w n) n" using answers_same [OF assms] assms
    by (auto simp: handleChaosTripCB_def with_breaker_acts intro!: answers_publish [of n "[TripCB now w]"])
  show "answers (handleChaosResetCB pub w n) n" using answers_same [OF assms] assms
    by (auto simp: handleChaosResetCB_def with_breaker_acts intro!: answers_publish [of n "[ResetCB w]"])
  show "answers (handleChaosKillWorker pub w n) n"
  proof (cases "DisconnectWorker w n")
    case (Pair ok n1)
    then have "n1 = snd (DisconnectWorker w n)" by simp
    then show ?thesis using answers_same [OF assms] assms Pair
      by (cases ok) (auto simp: handleChaosKillWorker_def DisconnectWorker_def split: option.splits
        intro!: answers_publish [of n "[Kill w]"])
  qed
  obtain ok m s where r: "sched_RetryFromDLQ w (heap n, sched n) = (ok, m, s)" by (metis prod_cases3)
  have "acted [RetryDLQ w] n (n\<lparr>heap := m, sched := s\<rparr>)" using assms r by (simp add: acted_def bus_up_def)
  then show "answers (Some (handleRetryDLQ w n)) n"
    using answers_same [OF assms] r by (auto simp: handleRetryDLQ_def answers_def)
qed

lemma answers_task: "bus_up n \<Longrightarrow> answers (handleTask join dir entries n) n"
  using handleTask_loop_acted [of n join dir _ 0] answers_same [of n]
  by (fastforce simp: handleTask_def answers_def split: sum.split)

lemma answers_submissions:
  assumes "bus_up n"
  shows "answers (handleSubmit now created pub sub n) n" "answers (handleUpload now created pub up n) n"
    "answers (handleChaosFailTasks clocks pub fr n) n" "answers (handleBatchSubmit now stop clock pub br n) n"
proof -
  note same = answers_same [OF assms]
  show "answers (handleSubmit now created pub sub n) n"
    by (cases sub) (simp_all add: handleSubmit_def Let_def same EnqueueInlineTask_def answers_submit [OF assms])
  show "answers (handleUpload now created pub up n) n"
    by (cases "upForm up"; cases "upData up")
      (simp_all add: handleUpload_def Let_def same EnqueueArchiveTask_def answers_submit [OF assms])
  show "answers (handleChaosFailTasks clocks pub fr n) n"
    by (cases fr) (simp_all only: handleChaosFailTasks_def Let_def same sum.case answers_chaos [OF assms])
  show "answers (handleBatchSubmit now stop clock pub br n) n"
    by (cases br) (simp_all only: handleBatchSubmit_def Let_def same sum.case answers_batch [OF assms])
qed

lemma answers_events: "bus_up n \<Longrightarrow> answers (map_option (Pair resp) (open_events ok n)) n"
  using bus_ok_Subscribe answers_same [of n resp]
  by (auto simp: open_events_def bus_up_def answers_def acted_def intro!: exI [of _ "[]"])

lemma serve_mux_answers:
  assumes "bus_up n"
  shows "answers (serve_mux vw chk r n) n"
proof -
  have "answers (serve_endpoint vw chk r ep vs n) n" for ep vs
    by (cases ep) (simp_all only: serve_endpoint_def endpoint.case answers_task [OF assms] answers_same [OF assms]
      answers_chaos_calls [OF assms] answers_submissions [OF assms] answers_events [OF assms])
  then show ?thesis
    by (cases "findHandler routes (inMethod r) (inPath r)") (simp_all add: serve_mux_def answers_same [OF assms])
qed

text \<open>Taking the actions one by one, with identifiers that stay distinct, is a run of the service.\<close>

lemma fold_enqueue_keeps:
  "p < next_task n \<Longrightarrow> heap (fold enqueue_new ts n) p = heap n p" "next_task n \<le> next_task (fold enqueue_new ts n)"
proof -
  show "p < next_task n \<Longrightarrow> heap (fold enqueue_new ts n) p = heap n p"
    by (induction ts arbitrary: n) (simp_all add: enqueue_new_effect)
  show "next_task n \<le> next_task (fold enqueue_new ts n)"
  proof (induction ts arbitrary: n)
    case (Cons t ts)
    have "next_task n \<le> next_task (enqueue_new t n)" by (simp add: enqueue_new_effect)
    also have "\<dots> \<le> next_task (fold enqueue_new ts (enqueue_new t n))" by (rule Cons.IH)
    finally show ?case by simp
  qed simp
qed

lemma drun_submits:
  "distinct_ids (fold enqueue_new ts (nd d)) \<Longrightarrow>
     drun (map SubmitTask ts) d = Some (d\<lparr>nd := fold enqueue_new ts (nd d)\<rparr>)"
proof (induction ts arbitrary: d)
  case (Cons t ts)
  let ?n = "nd d" and ?e = "enqueue_new t (nd d)" and ?f = "fold enqueue_new ts (enqueue_new t (nd d))"
  have nt: "next_task ?n < next_task ?e" by (simp add: enqueue_new_effect)
  then have h: "heap ?f q = heap ?e q" "q < next_task ?f" if "q \<le> next_task ?n" for q
    using fold_enqueue_keeps(1) [of q ?e ts] fold_enqueue_keeps(2) [of ?e ts] that by simp_all
  have "tID (heap ?n q) \<noteq> tID t" if "q < next_task ?n" for q
  proof -
    have "tID (heap ?f q) \<noteq> tID (heap ?f (next_task ?n))"
      using Cons.prems that h(2) [of q] h(2) [of "next_task ?n"] by (auto simp: distinct_ids_def dest: inj_onD)
    then show ?thesis using h(1) that by (simp add: enqueue_new_effect)
  qed
  then have "dstep (SubmitTask t) d = Some (d\<lparr>nd := ?e\<rparr>)" by auto
  then show ?case using Cons.IH [of "d\<lparr>nd := ?e\<rparr>"] Cons.prems by simp
qed simp

lemma drun_request:
  assumes "request_acts as" "distinct_ids (fold act_node as (nd d))"
  shows "drun as d = Some (d\<lparr>nd := fold act_node as (nd d)\<rparr>)"
  using assms drun_submits [of _ d] unfolding request_acts_def
  by (auto simp: submit_acts split: prod.split)

section \<open>The master\<close>

text \<open>
  A step of the service, a request served by the router, or anything a websocket handler does to the bus.
  A request runs in one step here; its critical sections interleaved with everything else are the steps of
  the service it is made of. The identifiers the handlers make from the clock are assumed to be new: two
  submissions within a nanosecond would share one.
\<close>

definition master_step :: "('f :: zero) views \<Rightarrow> checker \<Rightarrow> dsys \<Rightarrow> dsys \<Rightarrow> bool" where
  "master_step vw chk d d' \<longleftrightarrow> service_step d d' \<or>
     (\<exists>r resp n. serve_mux vw chk r (nd d) = Some (resp, n) \<and> distinct_ids n \<and> d' = d\<lparr>nd := n\<rparr>) \<or>
     (\<exists>b. bus_ok b \<and> d' = d\<lparr>nd := (nd d)\<lparr>evbus := Some b\<rparr>\<rparr>)"

definition master_start :: "dsys \<Rightarrow> bool" where
  "master_start d \<longleftrightarrow>
     (\<exists>m mem chs hb dead. nd d = NewMaster m mem chs hb dead \<and> bus_ok (NewBus chs)) \<and>
     (\<forall>i. streams d i = None) \<and> sent d = [] \<and> finished d = {} \<and> \<not> panicked d"

definition master_inv :: "dsys \<Rightarrow> bool" where
  "master_inv d \<longleftrightarrow> service_inv d \<and> evbus (nd d) \<noteq> None"

lemma master_bus_up: "master_inv d \<Longrightarrow> bus_up (nd d)"
  using service_bus [of d] by (auto simp: master_inv_def bus_up_def node_bus_ok_def)

text \<open>The service never loses its bus.\<close>

lemma publish_settle_bus:
  "evbus n \<noteq> None \<Longrightarrow> evbus (nd d) \<noteq> None \<Longrightarrow> evbus (nd (settle (publishEvent now ty data n) d)) \<noteq> None"
  by (auto simp: settle_def publishEvent_def split: option.split)

lemma stream_step_bus:
  assumes "stream_step i x st c d = Some d'" "evbus (nd d) \<noteq> None"
  shows "evbus (nd d') \<noteq> None"
proof (cases c)
  case PcAnnounce
  with assms publish_settle_bus [of "observe [WorkersConnectedInc] (nd d)" d] show ?thesis by (auto simp: goto_pc_def)
next
  case (PcSent p)
  with assms publish_settle_bus [of "nd d" d] show ?thesis by (auto simp: goto_pc_def)
next
  case PcGoodbye
  with assms publish_settle_bus [of "nd d" d] show ?thesis by (auto simp: goto_pc_def)
qed (use assms in \<open>auto simp: goto_pc_def Let_def set_task_def register_worker_def split: if_splits prod.splits option.splits\<close>)

lemma dstep_bus:
  assumes inv: "service_inv d" and step: "dstep a d = Some d'" and up: "evbus (nd d) \<noteq> None"
  shows "evbus (nd d') \<noteq> None"
proof (cases a)
  case (Move i x)
  with step up stream_step_bus show ?thesis by (auto split: option.splits)
next
  case (Report env rep)
  have "evbus n' \<noteq> None" if "ReportTaskStatus env rep (nd d) = Some n'" for n'
    using that up
    by (auto simp: ReportTaskStatus_def report_completed_def report_failed_def publishEvent_def save_if_def Let_def
      split: prod.splits if_splits option.splits)
  with step Report up show ?thesis by (auto simp: settle_def split: option.splits)
next
  case (Tick tk)
  have "evbus n' \<noteq> None" if "checkWorkerHealth now pub ks (nd d) = Some n'" for now pub ks n'
  proof -
    have "fold (health_body now pub) es (Some n) = Some n' \<Longrightarrow> evbus n \<noteq> None \<Longrightarrow> evbus n' \<noteq> None" for es n
    proof (induction es arbitrary: n)
      case (Cons e es)
      have none: "fold (health_body now pub) es None = None"
        by (induction es) (simp_all add: health_body_def split_beta)
      obtain n1 where n1: "health_body now pub e (Some n) = Some n1"
        using Cons.prems(1) none by (cases "health_body now pub e (Some n)") auto
      then have "evbus n1 \<noteq> None" using Cons.prems(2)
        by (cases e) (auto simp: health_body_def publishEvent_def Let_def split: if_splits option.splits)
      then show ?case using Cons n1 by simp
    qed simp
    then show ?thesis using that up by (simp add: checkWorkerHealth_def)
  qed
  with step Tick up show ?thesis
    by (cases tk) (auto simp: settle_def split: if_splits prod.splits option.splits)
next
  case (SubmitTask t)
  with step up show ?thesis by (auto simp: enqueue_new_effect split: if_splits)
qed (use step up in \<open>auto split: if_splits prod.splits option.splits\<close>)

lemma master_serves:
  assumes inv: "master_inv d" and srv: "serve_mux vw chk r (nd d) = Some (resp, n)" and ids: "distinct_ids n"
  shows "master_inv (d\<lparr>nd := n\<rparr>)"
proof -
  obtain as where a: "acted as (nd d) n"
    using serve_mux_answers [OF master_bus_up [OF inv], of vw chk r] srv by (auto simp: answers_def)
  let ?n = "fold act_node as (nd d)"
  have n: "n = ?n\<lparr>evbus := evbus n\<rparr>" and up: "bus_up n" and ra: "request_acts as" using a by (auto simp: acted_def)
  have "heap n = heap ?n" "next_task n = next_task ?n" by (subst n, simp)+
  then have "distinct_ids ?n" using ids by (simp add: distinct_ids_def)
  from drun_request [OF ra this] have run: "drun as d = Some (d\<lparr>nd := ?n\<rparr>)" .
  have "service_inv d1 \<Longrightarrow> drun as d1 = Some d2 \<Longrightarrow> service_inv d2" for as d1 d2
    by (induction as arbitrary: d1) (auto split: option.splits intro: dstep_inv)
  with run inv have "service_inv (d\<lparr>nd := ?n\<rparr>)" by (auto simp: master_inv_def)
  then have "service_inv (d\<lparr>nd := ?n\<rparr>\<lparr>nd := n\<rparr>)"
    by (rule service_inv_env)
      ((subst n, simp)+, use up in \<open>auto simp: bus_up_def node_bus_ok_def\<close>)
  then show ?thesis using up by (auto simp: master_inv_def bus_up_def)
qed

interpretation master: inv_system master_start "master_step vw chk" master_inv for vw :: "('f :: zero) views" and chk
proof
  show "master_start d \<Longrightarrow> master_inv d" for d
  proof -
    assume s: "master_start d"
    then obtain m mem chs hb dead where n: "nd d = NewNodeServer m mem hb dead (Some NewMemoryStore) (Some (NewBus chs))"
      and ok: "bus_ok (NewBus chs)" by (auto simp: master_start_def NewMaster_def)
    then have "service_start d" using s ok unfolding service_start_def master_start_def by force
    then show "master_inv d" using service_start_inv n by (simp add: master_inv_def NewNodeServer_def)
  qed
  show "master_inv d \<Longrightarrow> master_step vw chk d d' \<Longrightarrow> master_inv d'" for d d'
    unfolding master_step_def
  proof (elim disjE exE conjE)
    assume "master_inv d" "service_step d d'"
    then show "master_inv d'" by (auto simp: service_step_def master_inv_def intro: dstep_inv dest: dstep_bus)
  next
    fix b assume i: "master_inv d" and b: "bus_ok b" "d' = d\<lparr>nd := (nd d)\<lparr>evbus := Some b\<rparr>\<rparr>"
    have "service_inv (d\<lparr>nd := (nd d)\<lparr>evbus := Some b\<rparr>\<rparr>)"
      by (rule service_inv_env) (use i b in \<open>simp_all add: master_inv_def node_bus_ok_def\<close>)
    then show "master_inv d'" by (simp add: master_inv_def b(2))
  qed (auto intro: master_serves)
qed



section \<open>The limited server\<close>

text \<open>
  \<open>NewRateLimiter\<close> makes a bucket of the library, and \<open>startHTTP\<close> puts one of 100 tokens a second and 200 at
  most in front of the router. Requests come one after the other, each with the instant of its
  admission; after a panic there is no state and no answer.
\<close>

definition NewRateLimiter :: "(int \<Rightarrow> int \<Rightarrow> 'l) \<Rightarrow> int \<Rightarrow> int \<Rightarrow> 'l" where
  "NewRateLimiter NewLimiter r b = NewLimiter r b"

definition startHTTP_limiter :: "(int \<Rightarrow> int \<Rightarrow> 'l) \<Rightarrow> 'l" where
  "startHTTP_limiter NewLimiter = NewRateLimiter NewLimiter 100 200"

definition mux_handler :: "('f :: zero) views \<Rightarrow> checker \<Rightarrow> http_in \<Rightarrow> node option \<Rightarrow> http_resp \<times> node option" where
  "mux_handler vw chk r s =
     (case Option.bind s (serve_mux vw chk r) of
        None \<Rightarrow> (\<lparr>respCode = 0, respType = [], respBody = []\<rparr>, None)
      | Some (resp, n) \<Rightarrow> (resp, Some n))"

fun serve_timed ::
    "(int \<Rightarrow> 'l \<Rightarrow> bool \<times> 'l) \<Rightarrow> ('q \<Rightarrow> 's \<Rightarrow> http_resp \<times> 's) \<Rightarrow> (int \<times> 'q) list \<Rightarrow> 'l \<times> 's \<Rightarrow>
     http_resp list \<times> 'l \<times> 's" where
  "serve_timed allow h [] st = ([], st)"
| "serve_timed allow h ((t, q) # qs) st =
     (case Wrap (allow t) h q st of
        (resp, st) \<Rightarrow> (case serve_timed allow h qs st of (resps, st) \<Rightarrow> (resp # resps, st)))"

text \<open>
  The token bucket as the head of \<open>rate_limiter.go\<close> describes it, in billionths of a token and nanoseconds:
  it holds at most \<open>burst\<close> tokens, is refilled at \<open>rate\<close> tokens per second, and a request takes one or is
  rejected when there is none.
\<close>

locale token_bucket =
  fixes allow :: "int \<Rightarrow> 'l \<Rightarrow> bool \<times> 'l" and level :: "'l \<Rightarrow> int" and stamp :: "'l \<Rightarrow> int" and rate :: int and burst :: int
  assumes sizes: "0 \<le> rate" "1 \<le> burst"
    and takes_one: "stamp l \<le> t \<Longrightarrow> allow t l = (ok, l') \<Longrightarrow> avail = min (burst * 1000000000) (level l + rate * (t - stamp l)) \<Longrightarrow>
      stamp l' = t \<and> (ok \<longleftrightarrow> 1000000000 \<le> avail) \<and> level l' = (if ok then avail - 1000000000 else avail)"
begin

text \<open>Tokens used never exceed those there were and those refilled.\<close>

lemma answered_bound:
  "serve_timed allow h qs (l, s) = (resps, l', s') \<Longrightarrow> sorted (stamp l # map fst qs) \<Longrightarrow> 0 \<le> level l \<Longrightarrow>
     1000000000 * int (length (filter (\<lambda>r. respCode r \<noteq> 429) resps)) + level l' \<le>
       level l + rate * (last (stamp l # map fst qs) - stamp l) \<and> 0 \<le> level l' \<and> length resps = length qs"
proof (induction qs arbitrary: l s resps)
  case (Cons tq qs)
  obtain t q where tq: "tq = (t, q)" by fastforce
  obtain ok l1 where a: "allow t l = (ok, l1)" by fastforce
  obtain r s1 where w: "Wrap (allow t) h q (l, s) = (r, l1, s1)" "\<not> ok \<Longrightarrow> respCode r = 429"
    using a by (cases ok; cases "h q s") (auto simp: Wrap_def http_Error_def)
  obtain rs where rs: "serve_timed allow h qs (l1, s1) = (rs, l', s')" "resps = r # rs"
    using Cons.prems(1) w(1) by (auto simp: tq split: prod.splits)
  let ?avail = "min (burst * 1000000000) (level l + rate * (t - stamp l))"
  have l1: "stamp l1 = t" "level l1 = (if ok then ?avail - 1000000000 else ?avail)"
    using takes_one [OF _ a refl] Cons.prems(2) tq by auto
  have "0 \<le> ?avail" using Cons.prems(2,3) sizes tq by simp
  then have "0 \<le> level l1" using takes_one [OF _ a refl] Cons.prems(2) tq l1(2) by auto
  then have "1000000000 * int (length (filter (\<lambda>r. respCode r \<noteq> 429) rs)) + level l' \<le>
      level l1 + rate * (last (t # map fst qs) - t) \<and> 0 \<le> level l' \<and> length rs = length qs"
    using Cons.IH [OF rs(1)] Cons.prems(2) l1(1) tq by simp
  moreover have "rate * (last (t # map fst qs) - t) + rate * (t - stamp l) = rate * (last (t # map fst qs) - stamp l)"
    by (simp add: algebra_simps)
  ultimately show ?case using l1(2) w(2) rs(2) tq by (auto split: if_splits)
qed auto

text \<open>Whoever keeps the pace of the refill is always admitted.\<close>

lemma paced_admitted:
  "serve_timed allow h qs (l, s) = (resps, l', s') \<Longrightarrow> 0 \<le> level l \<Longrightarrow> qs \<noteq> [] \<Longrightarrow> stamp l \<le> fst (hd qs) \<Longrightarrow>
     1000000000 \<le> level l + rate * (fst (hd qs) - stamp l) \<Longrightarrow>
     successively (\<lambda>t u. t \<le> u \<and> 1000000000 \<le> rate * (u - t)) (map fst qs) \<Longrightarrow>
     (resps, s') = serve_http h (map snd qs) s"
proof (induction qs arbitrary: l s resps)
  case (Cons tq qs)
  obtain t q where tq: "tq = (t, q)" by fastforce
  obtain ok l1 where a: "allow t l = (ok, l1)" by fastforce
  have l1: "stamp l1 = t" "ok" "0 \<le> level l1"
    using takes_one [OF _ a refl] Cons.prems sizes tq by auto
  obtain r s1 where h: "h q s = (r, s1)" by fastforce
  obtain rs where rs: "serve_timed allow h qs (l1, s1) = (rs, l', s')" "resps = r # rs"
    using Cons.prems(1) a l1(2) h by (auto simp: tq Wrap_def split: prod.splits)
  show ?case
  proof (cases qs)
    case Nil
    then show ?thesis using rs h tq by simp
  next
    case (Cons u us)
    have "(rs, s') = serve_http h (map snd qs) s1"
      by (rule Cons.IH [OF rs(1) l1(3)]) (use Cons Cons.prems l1 tq in auto)
    then show ?thesis using rs(2) h tq by (simp split: prod.split) (metis Pair_inject)
  qed
qed simp

end

text \<open>The described bucket, for the examples.\<close>

record bucket =
  bkLevel :: int
  bkStamp :: int

definition bucket_New :: "int \<Rightarrow> int \<Rightarrow> int \<Rightarrow> bucket" where
  "bucket_New start r b = \<lparr>bkLevel = b * 1000000000, bkStamp = start\<rparr>"

definition bucket_Allow :: "int \<Rightarrow> int \<Rightarrow> int \<Rightarrow> bucket \<Rightarrow> bool \<times> bucket" where
  "bucket_Allow r b t l =
     (let avail = min (b * 1000000000) (bkLevel l + r * (t - bkStamp l)) in
      (1000000000 \<le> avail, \<lparr>bkLevel = (if 1000000000 \<le> avail then avail - 1000000000 else avail), bkStamp = t\<rparr>))"

interpretation api_bucket: token_bucket "bucket_Allow 100 200" bkLevel bkStamp 100 200
  by unfold_locales (auto simp: bucket_Allow_def Let_def split: if_splits)

lemma mux_handler_survives:
  "bus_up n \<Longrightarrow> \<exists>resp n'. mux_handler vw chk r (Some n) = (resp, Some n') \<and> bus_up n'"
  using serve_mux_answers [of n vw chk r] by (auto simp: mux_handler_def answers_def acted_def)

lemma server_survives:
  "serve_timed allow (mux_handler vw chk) qs (l, Some n) = (resps, l', s') \<Longrightarrow> bus_up n \<Longrightarrow> \<exists>n'. s' = Some n' \<and> bus_up n'"
proof (induction qs arbitrary: l n resps)
  case (Cons tq qs)
  obtain t q where tq: "tq = (t, q)" by fastforce
  obtain ok l1 where a: "allow t l = (ok, l1)" by fastforce
  obtain r n1 where w: "Wrap (allow t) (mux_handler vw chk) q (l, Some n) = (r, l1, Some n1)" "bus_up n1"
    using a mux_handler_survives [OF Cons.prems(2), of vw chk q] Cons.prems(2) by (cases ok) (auto simp: Wrap_def)
  obtain rs where "serve_timed allow (mux_handler vw chk) qs (l1, Some n1) = (rs, l', s')"
    using Cons.prems(1) w(1) by (auto simp: tq split: prod.splits)
  then show ?case using w(2) by (rule Cons.IH)
qed auto

text \<open>C24: The rate limiter bounds what reaches the handlers: from its start on, of the requests of all
  clients together at most 200 and 100 for every second are answered with anything but 429, health probes included;
  requests that come at 100 per second or slower are served as if there were no limiter; and the
  server survives all of them. The bucket is the library's, by its description.\<close>

theorem api_rate_is_bounded:
  assumes "token_bucket allow level stamp 100 200" and "\<And>r b. level (NewLimiter r b) = b * 1000000000"
    and "l = startHTTP_limiter NewLimiter" and "bus_up n" and "sorted (stamp l # map fst qs)"
    and "serve_timed allow (mux_handler vw chk) qs (l, Some n) = (resps, l', s')"
  shows "length resps = length qs \<and> s' \<noteq> None \<and>
    1000000000 * int (length (filter (\<lambda>r. respCode r \<noteq> 429) resps)) \<le>
      200 * 1000000000 + 100 * (last (stamp l # map fst qs) - stamp l) \<and>
    (successively (\<lambda>t u. 10000000 \<le> u - t) (map fst qs) \<longrightarrow> (resps, s') = serve_http (mux_handler vw chk) (map snd qs) (Some n))"
proof -
  have l: "level l = 200 * 1000000000" by (simp add: assms(2,3) startHTTP_limiter_def NewRateLimiter_def)
  note bound = token_bucket.answered_bound [OF assms(1,6,5)]
  have "(resps, s') = serve_http (mux_handler vw chk) (map snd qs) (Some n)"
    if p: "successively (\<lambda>t u. 10000000 \<le> u - t) (map fst qs)"
  proof (cases "qs = []")
    case False
    have "successively (\<lambda>t u. t \<le> u \<and> 1000000000 \<le> 100 * (u - t)) (map fst qs)"
      by (rule successively_mono [OF p]) simp
    then show ?thesis using token_bucket.paced_admitted [OF assms(1,6)] l False assms(5) by (cases qs) auto
  qed (use assms(6) in simp)
  then show ?thesis using bound l server_survives [OF assms(6,4)] by auto
qed

theorem api_rate_is_bounded_witness:
  "let probe = sample_in ''GET'' ''/healthz''; server = serve_timed (bucket_Allow 100 200) (mux_handler sample_views NewChecker) in
   (\<exists>r \<in> set (fst (server (replicate 201 (7, probe)) (bucket_New 7 100 200, Some sample_master))). respCode r = 429) \<and>
   (case server [(7, probe), (10000007, probe)] (bucket_New 7 100 200, Some sample_master) of (resps, _, s) \<Rightarrow>
      (resps, s) = serve_http (mux_handler sample_views NewChecker) [probe, probe] (Some sample_master))"
proof -
  let ?p = "sample_in ''GET'' ''/healthz''" and ?h = "mux_handler sample_views NewChecker"
  let ?s = "serve_timed (bucket_Allow 100 200) ?h" and ?l = "bucket_New 7 100 200"
  have lim: "?l = startHTTP_limiter (bucket_New 7)" "bkStamp ?l = 7" "bkLevel (bucket_New 7 r b) = b * 1000000000" for r b
    by (simp_all add: startHTTP_limiter_def NewRateLimiter_def bucket_New_def)
  have up: "bus_up sample_master" using sample_master_bus by (simp add: bus_up_def)
  note claim = api_rate_is_bounded [OF api_bucket.token_bucket_axioms lim(3) lim(1) up, where vw = sample_views and chk = NewChecker]
  obtain rs l s where f: "?s (replicate 201 (7, ?p)) (?l, Some sample_master) = (rs, l, s)" by (metis prod_cases3)
  have eq: "last (7 # replicate k (7 :: int)) = 7" "sorted (7 # replicate k (7 :: int))" for k
    by (induction k) simp_all
  from claim [OF _ f] lim(2) eq [of 201] have b: "length rs = 201" "length (filter (\<lambda>r. respCode r \<noteq> 429) rs) \<le> 200"
    by (simp_all only: map_replicate fst_conv length_replicate simp_thms) simp_all
  then have "\<exists>r \<in> set rs. respCode r = 429"
    using filter_True [of rs "\<lambda>r. respCode r \<noteq> 429"] by fastforce
  moreover obtain rs2 l2 s2 where g: "?s [(7, ?p), (10000007, ?p)] (?l, Some sample_master) = (rs2, l2, s2)" by (metis prod_cases3)
  have "(rs2, s2) = serve_http ?h [?p, ?p] (Some sample_master)"
    using claim [OF _ g] lim(2) by simp
  ultimately show ?thesis using f g by (simp add: Let_def)
qed

end
