(* ===== verification/Spec2Isabelle.thy ===== *)
theory Spec2Isabelle
  imports Progress TaskBoard FailureDetector Metrics Config Router Lifecycle Dashboard LoadTest Credentials JsonApi TaskCodec Wire Gateway
begin

text \<open>
  \<^bold>\<open>A verification library for the master-worker task runner\<close> (Go, under \<open>src/\<close>).

  \<^bold>\<open>The program.\<close> A master process accepts tasks over HTTP (\<open>internal/master/master.go\<close>), keeps them in a
  priority scheduler (\<open>internal/task/scheduler.go\<close>) and hands them to worker processes over one gRPC
  stream per worker (\<open>internal/server/node_server.go\<close>, \<open>AssignTask\<close>). A worker
  (\<open>internal/worker/worker.go\<close>) executes what it is sent, as many tasks at once as its semaphore has
  slots, reports each result and sends heartbeats. In the master a background loop re-queues due
  retries, fails timed-out tasks and marks silent workers; a circuit breaker per worker
  (\<open>internal/circuitbreaker\<close>) gates dispatch, an event bus (\<open>internal/events\<close>) feeds the dashboard's
  websockets (\<open>internal/master/api_handlers.go\<close>), and a task store (\<open>internal/store\<close>) keeps a copy of
  every task.

  \<^bold>\<open>The theories\<close>, each importing the ones it calls. Foundations:
  \<^item> \<open>Prelude\<close>: machine integers at their width, \<open>time.Time\<close> and \<open>time.Duration\<close>, \<open>fmt\<close> printing, Go maps
    with an explicit iteration order, error results, and two interfaces every component uses:
    \<open>inv_system\<close> (an invariant of a step relation holds in all reachable states) and \<open>ledger\<close> (an
    operation sequence that accounts for everything put into a pool).
  \<^item> \<open>GoHeap\<close>: \<open>container/heap\<close> for any strict weak order; \<open>GoBase64\<close>: \<open>base64.StdEncoding\<close> and its round trip;
    \<open>GoParse\<close>: \<open>strconv.Atoi\<close> and \<open>time.ParseDuration\<close> read what the program prints; \<open>GoMux\<close>: the patterns
    of \<open>net/http.ServeMux\<close>, their precedence, redirects and 404/405 answers, with the locale \<open>route_table\<close>.
  \<^item> \<open>GoUtf8\<close>: runes and valid UTF-8; \<open>GoJson\<close>: \<open>encoding/json\<close>, the encoder with its escaping, the scanner's state
    machine and the decoder into the fields of a struct, with the round trip of every value.

  The master:
  \<^item> \<open>Task\<close>: \<open>internal/task/task.go\<close>, the record, the transition table and every method, with the errors
    of refused transitions as values and the back-off arithmetic in 64-bit words.
  \<^item> \<open>Scheduler\<close>: \<open>internal/task/scheduler.go\<close>. The tasks live in a store of cells that components share
    pointers into, so a task changed through one component is changed for all. The one-slot channel
    \<open>notify\<close> is a flag; methods run under the mutex and are single steps.
  \<^item> \<open>TaskBoard\<close>: the abstract specification of the scheduler, tasks on a board with four places, and the
    locale \<open>implementation\<close> by which the scheduler refines it.
  \<^item> \<open>CircuitBreaker\<close>: breaker and registry; the registry's \<open>Get\<close> is two critical sections.
  \<^item> \<open>EventBus\<close>: publishers and unsubscribers interleaved at their lock boundaries; sending on or closing
    a closed channel is a panic.
  \<^item> \<open>Store\<close>: the \<open>TaskStore\<close> contract as a locale, the in-memory store as its instance, and BadgerDB
    over a key-value database, its disk and a codec given as parameters; \<open>TaskCodec\<close> puts \<open>encoding/json\<close> there.
  \<^item> \<open>NodeServer\<close>: the service's state and every handler but the dispatch loop; \<open>Dispatch\<close>: \<open>AssignTask\<close> as a
    program counter per stream, interleaved with every handler, every tick and every other stream; one
    step is one critical section or one call on shared state.
  \<^item> \<open>FailureDetector\<close>: heartbeats, checks and kills over whole runs of the service.
  \<^item> \<open>Payload\<close> and \<open>Results\<close>: what no step of the service changes of a task, and which steps record a result.
  \<^item> \<open>Master\<close>: the HTTP handlers; \<open>Router\<close>: the table of \<open>startHTTP\<close> and the dispatch to them; \<open>Middleware\<close>: rate
    limiter, gRPC interceptors and health endpoints; \<open>Dashboard\<close>: the websocket handlers and the bus;
    \<open>JsonApi\<close>: the struct tags, and the endpoints from the bytes of a body to the bytes of the answer;
    \<open>Gateway\<close>: the handlers as runs of the service, and the server behind the limiter;
    \<open>Lifecycle\<close>: \<open>Master.Start\<close> with both servers and their stopping goroutines.
  \<^item> \<open>Metrics\<close>: the collectors of \<open>internal/metrics\<close> and the log of the calls on them.

  The worker and the rest:
  \<^item> \<open>Executor\<close>: \<open>executeTask\<close> and its three modes over an operating system given as a parameter, with the
    report; \<open>WorkerLoop\<close>: \<open>Worker.Start\<close> as interleaved steps of its goroutines.
  \<^item> \<open>Cluster\<close>: master, workers and the network together, with the end-to-end invariant; \<open>Progress\<close>: a run of
    this system from the queue to the recorded result; \<open>Wire\<close>: the same system where gRPC refuses strings
    that are not UTF-8.
  \<^item> \<open>Config\<close>: settings, logger and the choice of the role in \<open>main.go\<close>; \<open>LoadTest\<close>: \<open>cmd/loadtest\<close>;
    \<open>Credentials\<close>: \<open>internal/tls\<close> and \<open>internal/tracing\<close>, which the program does not call.

  \<^bold>\<open>What is shown.\<close>
  \<^item> End to end: in every reachable state of the cluster, a recorded result is a timeout or what executing
    an assignment with the task's payload gave (\<open>recorded_results_were_executed\<close>), and an idle worker
    brings a queued task to its result within sixteen steps (at most eight of the stream, seven of the
    worker and the report); assignments carry the
    submitted payload on every attempt; an uploaded archive is unpacked byte for byte; an execution's
    result settles its task.
  \<^item> Dispatch: queued work always has a pending signal or a stream that carries it (\<open>no_lost_wakeup\<close>), no
    task disappears and nothing panics (\<open>no_task_dropped\<close>), and a waiting stream with an allowing breaker
    sends a first task within eight of its steps (\<open>dispatch_progress\<close>). Three theorems exhibit reachable
    executions the code does not intend: one attempt sent to two workers, a task both queued and in
    flight after a failed send, a reconnected worker marked dead.
  \<^item> Scheduler: refinement of the task board, accounting over every sequence of calls, the heap and map invariants, the order of
    dequeuing, and the effect of each method on every branch. Task: the life cycle as a step system,
    the retry window and its bound (no overflow up to attempt 33; tasks of this program stop at three).
  \<^item> Worker: bounded concurrency, exact counters, a graceful shutdown that reports every task and
    terminates, and the execution in which a shutdown is not graceful.
  \<^item> Failure detection: a worker in time is never suspected, a silent one is dead after two late checks, a
    killed one gives its tasks back within six steps.
  \<^item> Circuit breaker: refinement to a three-state automaton with unbounded counters. Bus, websockets and
    stores: no panic, delivery, order; recovery across a restart.
  \<^item> The whole master (\<open>Gateway\<close>): in every state that requests, streams, ticks and websockets reach together
    every request is answered, nothing accepted is lost and nothing panics; the limiter admits at most 200
    requests and 100 for every second from all clients together, and none is refused at that pace.
  \<^item> HTTP: each route reaches its endpoint with its path values, routing is the choice of the narrowest
    pattern, only posts change state, submissions are checked before they are queued. Settings are read
    back. The master's shutdown terminates when no worker is connected and not otherwise.
  \<^item> Bytes: the answers of the query endpoints and the events are JSON and read back as the values, any body
    posted to the submit endpoint is answered, a script in UTF-8 is queued as it was sent, and a language with a
    quote in it makes an answer that is not JSON. Tasks stored as JSON are recovered by a restart.
  \<^item> gRPC strings: a task whose output is not UTF-8 can only end in a timeout, and a task whose own strings
    are not UTF-8 is put back on every send and ends every stream it is given to.
  \<^item> Metrics: counters and gauges agree with the state. The load tester's report adds up.

  \<^bold>\<open>Conventions.\<close> The clock, random numbers, map iteration orders and the file system are arguments, and
  so are the text of a time or a float and the text of a decoding error. \<open>Master\<close> takes the decoded request,
  \<open>JsonApi\<close> its bytes. \<open>None\<close> as the result of a handler is a panic. Code outside the repository is a
  parameter: the key-value database, the token bucket, the crypto and tracing libraries, float
  rounding. Loops are structural recursions or functions with a termination proof; no fuel is used.
  Word operations wrap as in Go. Actions are executable, so concrete runs are evaluated in the kernel.

  \<^bold>\<open>Not modelled\<close>: the text of log records, the bytes of HTTP and gRPC messages and of multipart forms, and
  the limits on their sizes, what Prometheus does with the metric calls, sockets and dialling,
  the embedded web pages, the flags of the load tester, and the generated protocol code.
\<close>

section \<open>From submission to result\<close>

text \<open>A master with one task in flight on its last attempt, for the examples.\<close>

definition sample_flight :: node where
  "sample_flight = (let m = (\<lambda>_. (NewInline 5 ''t1'' ''exit 3'' ''bash'')\<lparr>tState := StateRunning, tAttempt := 3\<rparr>) in
     (NewNodeServer m (\<lambda>_. cb_New [] 1 1 0) 30 60 None None)\<lparr>sched := (NewScheduler m 0)\<lparr>inFlight := [(''t1'', 0)]\<rparr>\<rparr>)"

text \<open>C8: An uploaded archive reaches the worker byte for byte: the upload handler enqueues a task, and
  whatever the service does afterwards, an assignment made from that task has the uploaded entrypoint,
  and executing it unpacks exactly the uploaded bytes in a fresh directory that is removed afterwards.\<close>

theorem uploaded_archive_reaches_worker:
  assumes "evbus (nd d) = Some b" and "bus_ok b" and "upForm up = None" and "upFile up" and "upData up = Inr data"
  shows "\<exists>resp n. handleUpload now created pub up (nd d) = Some (resp, n) \<and> respCode resp = 200 \<and>
    next_task (nd d) \<in> set (queue (sched n)) \<and>
    (\<forall>as d' t os w a. drun as (d\<lparr>nd := n\<rparr>) = Some d' \<and> a = mk_assignment t (heap (nd d') (next_task (nd d))) \<longrightarrow>
       aEntrypoint a = (if upEntrypoint up = [] then ''./run.sh'' else upEntrypoint up) \<and>
       execute (os :: 'w os) a w = (case os_MkdirTemp os ''mw-archive-*'' w of
           (Inl err, w) \<Rightarrow> (([], Some (Wrapped ''create temp dir: '' err)), w)
         | (Inr tmpDir, w) \<Rightarrow> (case run_archive os a data tmpDir w of (r, w) \<Rightarrow> (r, os_RemoveAll os tmpDir w))))"
proof -
  let ?t = "NewArchive created (''archive-'' @ fmt_d (UnixNano now)) (EncodeToString data)
       (if upEntrypoint up = [] then ''./run.sh'' else upEntrypoint up) (if upLanguage up = [] then ''bash'' else upLanguage up)"
  obtain resp n where h: "handleUpload now created pub up (nd d) = Some (resp, n)" "respCode resp = 200"
    and q: "queued_new (\<lambda>_. ?t) 1 (nd d) n"
    using upload_queues [OF assms] by blast
  let ?p = "next_task (nd d)"
  have p: "heap n ?p = ?t" "?p < next_task n" "mset (queue (sched n)) = mset (queue (sched (nd d))) + {#?p#}"
    using q by (auto simp: queued_new_def)
  have "payload_of (heap (nd d') ?p) = payload_of ?t" if "drun as (d\<lparr>nd := n\<rparr>) = Some d'" for as d'
    using drun_keeps [OF that] p by (simp add: keeps_tasks_def)
  then have f: "tType (heap (nd d') ?p) = TaskTypeArchive" "tContent (heap (nd d') ?p) = EncodeToString data"
    "tEntrypoint (heap (nd d') ?p) = (if upEntrypoint up = [] then ''./run.sh'' else upEntrypoint up)"
    if "drun as (d\<lparr>nd := n\<rparr>) = Some d'" for as d'
    using that by (auto simp: payload_of_def NewArchive_def)
  have "?p \<in> set (queue (sched n))" using p(3) by (metis mset_eq_setD set_mset_mset union_iff in_multiset_in_set
      add_mset_add_single insert_iff set_mset_add_mset_insert)
  moreover have "execute os (mk_assignment t (heap (nd d') ?p)) w = (case os_MkdirTemp os ''mw-archive-*'' w of
           (Inl err, w) \<Rightarrow> (([], Some (Wrapped ''create temp dir: '' err)), w)
         | (Inr tmpDir, w) \<Rightarrow> (case run_archive os (mk_assignment t (heap (nd d') ?p)) data tmpDir w of
             (r, w) \<Rightarrow> (r, os_RemoveAll os tmpDir w)))"
    if "drun as (d\<lparr>nd := n\<rparr>) = Some d'" for as d' t and os :: "'w os" and w
    by (rule execute_archive) (simp_all add: f [OF that] mk_assignment_def)
  moreover have "aEntrypoint (mk_assignment t (heap (nd d') ?p)) =
      (if upEntrypoint up = [] then ''./run.sh'' else upEntrypoint up)"
    if "drun as (d\<lparr>nd := n\<rparr>) = Some d'" for as d' t
    using f(3) [OF that] by (simp add: mk_assignment_def)
  ultimately show ?thesis using h by blast
qed

theorem uploaded_archive_reaches_worker_witness:
  "let up = \<lparr>upForm = None, upFile = True, upData = Inr ''tar bytes'', upEntrypoint = [], upLanguage = []\<rparr> in
   \<exists>resp n. handleUpload 5 6 7 up sample_master = Some (resp, n) \<and>
     snd (execute mem_os (mk_assignment 9 (heap n 0)) Map.empty) ''/tmp/mw-archive-*/archive.tar.gz'' = Some ''tar bytes''"
proof -
  let ?up = "\<lparr>upForm = None, upFile = True, upData = Inr ''tar bytes'', upEntrypoint = [], upLanguage = []\<rparr> :: upload"
  let ?d = "demo_start\<lparr>nd := sample_master\<rparr>"
  have e: "evbus (nd ?d) = Some (NewBus (\<lambda>_. \<lparr>ch_buf = [], ch_closed = False\<rparr>))" using sample_master_bus(1) by simp
  have u: "upForm ?up = None" "upFile ?up" "upData ?up = Inr ''tar bytes''" by simp_all
  obtain resp n where h: "handleUpload 5 6 7 ?up (nd ?d) = Some (resp, n)"
    and all: "\<forall>as d' t os w a. drun as (?d\<lparr>nd := n\<rparr>) = Some d' \<and> a = mk_assignment t (heap (nd d') (next_task (nd ?d))) \<longrightarrow>
       aEntrypoint a = (if upEntrypoint ?up = [] then ''./run.sh'' else upEntrypoint ?up) \<and>
       execute (os :: (string \<rightharpoonup> string) os) a w = (case os_MkdirTemp os ''mw-archive-*'' w of
           (Inl err, w) \<Rightarrow> (([], Some (Wrapped ''create temp dir: '' err)), w)
         | (Inr tmpDir, w) \<Rightarrow> (case run_archive os a ''tar bytes'' tmpDir w of (r, w) \<Rightarrow> (r, os_RemoveAll os tmpDir w)))"
    using uploaded_archive_reaches_worker [OF e sample_master_bus(2) u, where now = 5 and created = 6 and pub = 7] by (elim exE conjE) (rule that)
  note now = all [rule_format, of "[]" "?d\<lparr>nd := n\<rparr>" "mk_assignment 9 (heap n 0)" 9 mem_os Map.empty]
  have "execute mem_os (mk_assignment 9 (heap n 0)) Map.empty =
      (case os_MkdirTemp mem_os ''mw-archive-*'' Map.empty of
         (Inl err, w) \<Rightarrow> (([], Some (Wrapped ''create temp dir: '' err)), w)
       | (Inr tmpDir, w) \<Rightarrow> (case run_archive mem_os (mk_assignment 9 (heap n 0)) ''tar bytes'' tmpDir w of
           (r, w) \<Rightarrow> (r, os_RemoveAll mem_os tmpDir w)))"
    using now by (simp add: sample_master_queue)
  then show ?thesis using h by (simp add: mem_os_def run_archive_def Let_def Command_def)
qed

text \<open>C9: What a worker's execution returns is what happens to the task: reporting a successful execution
  completes the task with the output and exit code 0; reporting a failed one stores the error text and
  the process's exit code (or -1), and retries the task or, its attempts used up, dead-letters it; the
  output of a failed execution is not stored. Either way the task is no longer in flight.\<close>

theorem execution_settles_task:
  assumes bus: "node_bus_ok n" and fly: "gm_get (inFlight (sched n)) (aTaskId a) = Some p"
    and running: "tState (heap n p) = StateRunning"
    and exec: "execute os a w = ((out, err), w')" "executeTask os workerID s c a w = (rep, w'')"
  shows "w'' = w' \<and> (\<exists>n'. ReportTaskStatus env rep n = Some n' \<and> gm_get (inFlight (sched n')) (aTaskId a) = None \<and>
    (case err of
       None \<Rightarrow> tState (heap n' p) = StateCompleted \<and> tOutput (heap n' p) = out \<and> tExitCode (heap n' p) = 0 \<and>
         last (completed (sched n')) = p
     | Some e \<Rightarrow> tError (heap n' p) = Error e \<and> tExitCode (heap n' p) = exit_code e \<and>
         tOutput (heap n' p) = tOutput (heap n p) \<and>
         (if tMaxRetries (heap n p) \<le>s tAttempt (heap n p)
          then tState (heap n' p) = StateDead \<and> p \<in> set (deadLetter (sched n'))
          else tState (heap n' p) = StateRetrying \<and> p \<in> set (retryQueue (sched n')))))"
proof -
  have rep: "rep = mk_report workerID a s c (out, err)" "w'' = w'" using exec by (simp_all add: executeTask_def)
  obtain cb rs where g: "reg_Get (rWorkerId rep) (regs n) = (cb, rs)" by fastforce
  obtain n' where n': "ReportTaskStatus env rep n = Some n'"
    "(heap n', sched n') = exec_op (report_op env rep) (heap n, sched n)"
    using report_effect [OF bus g, of env] by blast
  show ?thesis
  proof (cases err)
    case None
    then have "(heap n', sched n') = snd (sched_Complete (re_done env) (aTaskId a) out 0 (heap n, sched n))"
      using n'(2) rep(1) by (simp add: report_op_def mk_report_def Let_def)
    then have "heap n' p = (heap n p)\<lparr>tState := StateCompleted, tOutput := out, tExitCode := 0, tCompletedAt := re_done env\<rparr>"
      "gm_get (inFlight (sched n')) (aTaskId a) = None" "completed (sched n') = cap_completed (completed (sched n) @ [p])"
      using fly running by (simp_all add: sched_Complete_def task_Complete_eq)
    moreover have "last (cap_completed (completed (sched n) @ [p])) = p" by (simp add: cap_completed_def maxCompleted_def last_drop)
    ultimately show ?thesis using n'(1) None rep(2) by auto
  next
    case (Some e)
    then have f: "(heap n', sched n') =
        snd (sched_Fail (re_done env) (re_rt env) (aTaskId a) (Error e) (exit_code e) (heap n, sched n))"
      using n'(2) rep(1) by (simp add: report_op_def mk_report_def Let_def)
    have "gm_get (inFlight (sched n')) (aTaskId a) = None \<and> tError (heap n' p) = Error e \<and> tExitCode (heap n' p) = exit_code e \<and>
         tOutput (heap n' p) = tOutput (heap n p) \<and>
         (if tMaxRetries (heap n p) \<le>s tAttempt (heap n p)
          then tState (heap n' p) = StateDead \<and> p \<in> set (deadLetter (sched n'))
          else tState (heap n' p) = StateRetrying \<and> p \<in> set (retryQueue (sched n')))"
      using f fly running
      by (cases "tMaxRetries (heap n p) \<le>s tAttempt (heap n p)")
        (simp_all add: sched_Fail_def retry_or_dead_def Let_def task_Fail_eq task_ScheduleRetry_eq)
    then show ?thesis using n'(1) Some rep(2) by auto
  qed
qed

theorem execution_settles_task_witness:
  "let env = \<lparr>re_done = 9, re_rt = \<lparr>rt_now = 9, rt_jitter = 0, rt_f2i = 0\<rparr>, re_breaker = 9, re_publish = 9\<rparr>;
       a = mk_assignment 6 (heap sample_flight 0)
   in \<exists>rep w' n'. executeTask mem_os ''w'' 7 8 a Map.empty = (rep, w') \<and> ReportTaskStatus env rep sample_flight = Some n' \<and>
        tState (heap n' 0) = StateDead \<and> tExitCode (heap n' 0) = 3"
proof -
  let ?env = "\<lparr>re_done = 9, re_rt = \<lparr>rt_now = 9, rt_jitter = 0, rt_f2i = 0\<rparr>, re_breaker = 9, re_publish = 9\<rparr>"
  let ?a = "mk_assignment 6 (heap sample_flight 0)"
  have bus: "node_bus_ok sample_flight" by (simp add: sample_flight_def node_bus_ok_def NewNodeServer_def Let_def)
  have fly: "gm_get (inFlight (sched sample_flight)) (aTaskId ?a) = Some 0" "tState (heap sample_flight 0) = StateRunning"
    by (simp_all add: sample_flight_def Let_def NewNodeServer_def mk_assignment_def NewInline_def New_def gm_get_def)
  obtain w' where ex: "execute mem_os ?a Map.empty = ((''exit 3'', Some (ExitError 3 ''exit status 3'')), w')"
    by (simp add: execute_def executeInline_def sample_flight_def mk_assignment_def NewInline_def New_def NewNodeServer_def
        Let_def interpreters_def gm_get_def run_inline_def mem_os_def Command_def)
  obtain rep w'' where et: "executeTask mem_os ''w'' 7 8 ?a Map.empty = (rep, w'')" by fastforce
  have "exit_code (ExitError 3 ''exit status 3'') = 3" by (simp add: exit_code_def)
  moreover have "tMaxRetries (heap sample_flight 0) \<le>s tAttempt (heap sample_flight 0)"
    by (simp add: sample_flight_def Let_def NewNodeServer_def NewInline_def New_def)
  ultimately show ?thesis using execution_settles_task [OF bus fly ex et, of ?env] et unfolding Let_def by auto
qed

end
